(* ===== verification/Py_Prelude.thy ===== *)
theory Py_Prelude
  imports Main "HOL-Library.Word" "HOL-Library.AList"
begin

text \<open>
  The Python ground the components stand on: byte strings, exceptions as values of a sum type,
  big-endian integers (\<^verbatim>\<open>int.to_bytes\<close>, \<^verbatim>\<open>int.from_bytes\<close>), \<^verbatim>\<open>struct\<close> formats in network
  byte order, slices, insertion-ordered dictionaries, and the generic lemmas on them.

  A dictionary is an association list with distinct keys: \<open>AList.update\<close> replaces in place or
  appends at the end and \<open>AList.delete\<close> removes, which is the order \<^verbatim>\<open>dict\<close> iterates in.
\<close>

unbundle bit_operations_syntax

type_synonym byte = "8 word"
type_synonym bytes = "8 word list"

datatype py_error =
    ValueError
  | StructError
  | OverflowError
  | TypeError
  | KeyError
  | IndexError
  | StopIteration
  | ZeroDivisionError
  | AssertionError
  | AttributeError
  | NotImplementedError
  | RuntimeError
  | TimeoutError
  | TimeoutExpired
  | FileNotFoundError
  | SystemExit
  | ImportError
  | OSError
  | YAMLError
  | InvalidTag

type_synonym 'a result = "py_error + 'a"

section \<open>Definitions\<close>

definition bind_r :: "'a result \<Rightarrow> ('a \<Rightarrow> 'b result) \<Rightarrow> 'b result" where
  "bind_r r f = (case r of Inl e \<Rightarrow> Inl e | Inr x \<Rightarrow> f x)"

fun map_r :: "('a \<Rightarrow> 'b result) \<Rightarrow> 'a list \<Rightarrow> 'b list result" where
  "map_r f [] = Inr []"
| "map_r f (x # xs) = bind_r (f x) (\<lambda>y. bind_r (map_r f xs) (\<lambda>ys. Inr (y # ys)))"

text \<open>Big-endian bytes of an integer, most significant byte first.\<close>

primrec be_bytes :: "nat \<Rightarrow> int \<Rightarrow> bytes" where
  "be_bytes 0 n = []"
| "be_bytes (Suc k) n = be_bytes k (n div 256) @ [word_of_int n]"

definition to_bytes_be :: "nat \<Rightarrow> int \<Rightarrow> bytes result" where
  "to_bytes_be k n = (if 0 \<le> n \<and> n < 256 ^ k then Inr (be_bytes k n) else Inl OverflowError)"

definition from_bytes_be :: "bytes \<Rightarrow> int" where
  "from_bytes_be bs = foldl (\<lambda>a b. a * 256 + uint b) 0 bs"

text \<open>The slice \<^verbatim>\<open>s[a:b]\<close> for non-negative bounds.\<close>

definition slice :: "nat \<Rightarrow> nat \<Rightarrow> 'a list \<Rightarrow> 'a list" where
  "slice a b xs = drop a (take b xs)"

text \<open>The slices \<^verbatim>\<open>s[:n]\<close> and \<^verbatim>\<open>s[n:]\<close> for any integer: a negative bound counts from the end.\<close>

definition slice_to :: "int \<Rightarrow> 'a list \<Rightarrow> 'a list" where
  "slice_to n xs = (if n < 0 then take (length xs - nat (- n)) xs else take (nat n) xs)"

definition slice_from :: "int \<Rightarrow> 'a list \<Rightarrow> 'a list" where
  "slice_from n xs = (if n < 0 then drop (length xs - nat (- n)) xs else drop (nat n) xs)"

text \<open>The assignment \<^verbatim>\<open>s[a:b] = v\<close> on a bytearray, for bounds with a at most b: positions past the end are the end.\<close>

definition set_slice :: "nat \<Rightarrow> nat \<Rightarrow> 'a list \<Rightarrow> 'a list \<Rightarrow> 'a list" where
  "set_slice a b xs v = take a xs @ v @ drop b xs"

text \<open>
  A \<^verbatim>\<open>struct\<close> format in network order: \<^verbatim>\<open>!\<close> followed by unsigned codes. A field is written
  big-endian at the width of its code, and a value outside that width raises \<^verbatim>\<open>struct.error\<close>.
\<close>

fun code_width :: "char \<Rightarrow> nat" where
  "code_width c =
     (if c = CHR ''B'' then 1 else if c = CHR ''H'' then 2
      else if c = CHR ''I'' then 4 else if c = CHR ''Q'' then 8 else 0)"

definition struct_widths :: "string \<Rightarrow> nat list" where
  "struct_widths fmt = map code_width (tl fmt)"

fun struct_pack :: "nat list \<Rightarrow> int list \<Rightarrow> bytes result" where
  "struct_pack [] [] = Inr []"
| "struct_pack (w # ws) (v # vs) =
     (if 0 \<le> v \<and> v < 256 ^ w
      then bind_r (struct_pack ws vs) (\<lambda>bs. Inr (be_bytes w v @ bs))
      else Inl StructError)"
| "struct_pack _ _ = Inl StructError"

fun struct_unpack :: "nat list \<Rightarrow> bytes \<Rightarrow> int list" where
  "struct_unpack [] bs = []"
| "struct_unpack (w # ws) bs = from_bytes_be (take w bs) # struct_unpack ws (drop w bs)"

fun struct_fits :: "nat list \<Rightarrow> int list \<Rightarrow> bool" where
  "struct_fits [] [] = True"
| "struct_fits (w # ws) (v # vs) = (0 \<le> v \<and> v < 256 ^ w \<and> struct_fits ws vs)"
| "struct_fits _ _ = False"

text \<open>\<^verbatim>\<open>bytes.fromhex\<close>: pairs of hex digits, ASCII white space allowed between bytes.\<close>

definition hex_digit :: "char \<Rightarrow> nat option" where
  "hex_digit c =
     (let n = of_char c :: nat
      in if 48 \<le> n \<and> n \<le> 57 then Some (n - 48)
         else if 65 \<le> n \<and> n \<le> 70 then Some (n - 55)
         else if 97 \<le> n \<and> n \<le> 102 then Some (n - 87)
         else None)"

definition is_space :: "char \<Rightarrow> bool" where
  "is_space c = (let n = of_char c :: nat in n = 32 \<or> (9 \<le> n \<and> n \<le> 13))"

definition is_digit :: "char \<Rightarrow> bool" where
  "is_digit c = (let n = of_char c :: nat in 48 \<le> n \<and> n \<le> 57)"

definition decimal :: "string \<Rightarrow> int" where
  "decimal ds = foldl (\<lambda>n c. n * 10 + (of_char c - 48)) 0 ds"

text \<open>
  \<^verbatim>\<open>int(s)\<close> on ASCII text: blanks around it, a sign, digits with single underscores between them, and not more
  than 4300 digits.
\<close>

definition is_blank :: "char \<Rightarrow> bool" where
  "is_blank c = (let n = of_char c :: nat in n = 32 \<or> (9 \<le> n \<and> n \<le> 13) \<or> (28 \<le> n \<and> n \<le> 31))"

definition strip_blanks :: "string \<Rightarrow> string" where
  "strip_blanks s = rev (dropWhile is_blank (rev (dropWhile is_blank s)))"

fun grouped_digits :: "bool \<Rightarrow> string \<Rightarrow> bool" where
  "grouped_digits after_digit [] = after_digit"
| "grouped_digits after_digit (c # cs) =
     (if is_digit c then grouped_digits True cs else c = CHR ''_'' \<and> after_digit \<and> grouped_digits False cs)"

definition py_int :: "string \<Rightarrow> int result" where
  "py_int s =
     (let t = strip_blanks s;
          body = (if t \<noteq> [] \<and> hd t \<in> {CHR ''+'', CHR ''-''} then tl t else t);
          ds = filter is_digit body
      in if \<not> grouped_digits False body \<or> length ds > 4300 then Inl ValueError
         else Inr (if t \<noteq> [] \<and> hd t = CHR ''-'' then - decimal ds else decimal ds))"

fun bytes_fromhex :: "string \<Rightarrow> bytes result" where
  "bytes_fromhex [] = Inr []"
| "bytes_fromhex [c] = (if is_space c then Inr [] else Inl ValueError)"
| "bytes_fromhex (c # d # cs) =
     (if is_space c then bytes_fromhex (d # cs)
      else case (hex_digit c, hex_digit d) of
             (Some a, Some b) \<Rightarrow> bind_r (bytes_fromhex cs) (\<lambda>bs. Inr (of_nat (16 * a + b) # bs))
           | _ \<Rightarrow> Inl ValueError)"

text \<open>The test \<^verbatim>\<open>k in s\<close> on strings.\<close>

definition contains_str :: "string \<Rightarrow> string \<Rightarrow> bool" where
  "contains_str k s \<longleftrightarrow> list_ex (\<lambda>i. take (length k) (drop i s) = k) [0..<Suc (length s)]"

text \<open>Running a state transformer over a list of inputs, collecting the outputs.\<close>

fun run_outs :: "('s \<Rightarrow> 'i \<Rightarrow> 'o \<times> 's) \<Rightarrow> 's \<Rightarrow> 'i list \<Rightarrow> 'o list \<times> 's" where
  "run_outs f s [] = ([], s)"
| "run_outs f s (x # xs) =
     (fst (f s x) # fst (run_outs f (snd (f s x)) xs), snd (run_outs f (snd (f s x)) xs))"

text \<open>A loop over inputs that an exception leaves, with the state at that moment.\<close>

fun loop_r :: "('s \<Rightarrow> 'i \<Rightarrow> unit result \<times> 's) \<Rightarrow> 's \<Rightarrow> 'i list \<Rightarrow> unit result \<times> 's" where
  "loop_r f s [] = (Inr (), s)"
| "loop_r f s (x # xs) =
     (case f s x of
        (Inl e, s') \<Rightarrow> (Inl e, s')
      | (Inr _, s') \<Rightarrow> loop_r f s' xs)"

section \<open>Results\<close>

lemma bind_r_simps [simp]:
  "bind_r (Inl e) f = Inl e"
  "bind_r (Inr x) f = f x"
  by (simp_all add: bind_r_def)

lemma bind_r_eq_Inr:
  "bind_r r f = Inr y \<longleftrightarrow> (\<exists>x. r = Inr x \<and> f x = Inr y)"
  by (cases r) auto

lemma bind_r_eq_Inl:
  "bind_r r f = Inl e \<longleftrightarrow> r = Inl e \<or> (\<exists>x. r = Inr x \<and> f x = Inl e)"
  by (cases r) auto

lemma bind_r_split:
  "P (bind_r r f) \<longleftrightarrow> (\<forall>e. r = Inl e \<longrightarrow> P (Inl e)) \<and> (\<forall>x. r = Inr x \<longrightarrow> P (f x))"
  by (cases r) auto

lemma map_r_Inr:
  assumes "\<And>x. x \<in> set xs \<Longrightarrow> f x = Inr (g x)"
  shows "map_r f xs = Inr (map g xs)"
  using assms by (induction xs) auto

section \<open>Big-endian integers\<close>

lemma length_be_bytes [simp]: "length (be_bytes k n) = k"
  by (induction k arbitrary: n) auto

lemma from_bytes_be_Nil [simp]: "from_bytes_be [] = 0"
  by (simp add: from_bytes_be_def)

lemma from_bytes_be_snoc [simp]: "from_bytes_be (bs @ [b]) = from_bytes_be bs * 256 + uint b"
  by (simp add: from_bytes_be_def)

lemma uint_byte_lt: "uint (b :: byte) < 256"
  using uint_lt2p [of b] by simp

lemma from_bytes_be_ge0 [simp]: "0 \<le> from_bytes_be bs"
  by (induction bs rule: rev_induct) auto

lemma from_bytes_be_lt: "from_bytes_be bs < 256 ^ length bs"
proof (induction bs rule: rev_induct)
  case Nil
  show ?case by simp
next
  case (snoc b bs)
  from snoc have "from_bytes_be bs + 1 \<le> 256 ^ length bs" by simp
  then have "(from_bytes_be bs + 1) * 256 \<le> 256 ^ length bs * 256" by simp
  with uint_byte_lt [of b] show ?case by (simp add: algebra_simps)
qed

lemma from_be_bytes: "from_bytes_be (be_bytes k n) = n mod 256 ^ k"
proof (induction k arbitrary: n)
  case 0
  show ?case by simp
next
  case (Suc k)
  have "uint (word_of_int n :: byte) = n mod 256"
    by (simp add: uint_word_of_int)
  moreover have "n div 256 mod 256 ^ k * 256 + n mod 256 = n mod (256 * 256 ^ k)"
    by (simp add: zmod_zmult2_eq)
  ultimately show ?case by (simp add: Suc.IH)
qed

lemma from_be_bytes_id: "0 \<le> n \<Longrightarrow> n < 256 ^ k \<Longrightarrow> from_bytes_be (be_bytes k n) = n"
  by (simp add: from_be_bytes)

lemma be_bytes_from: "be_bytes (length bs) (from_bytes_be bs) = bs"
proof (induction bs rule: rev_induct)
  case Nil
  show ?case by simp
next
  case (snoc b bs)
  have div: "(from_bytes_be bs * 256 + uint b) div 256 = from_bytes_be bs"
    using uint_byte_lt [of b] by simp
  have "word_of_int (from_bytes_be bs * 256 + uint b) = b"
  proof (rule word_uint_eqI)
    show "uint (word_of_int (from_bytes_be bs * 256 + uint b) :: byte) = uint b"
      using uint_byte_lt [of b] by (simp only: uint_word_of_int) simp
  qed
  with snoc div show ?case by simp
qed

lemma be_bytes_inj:
  assumes "0 \<le> m" "m < 256 ^ k" "0 \<le> n" "n < 256 ^ k" "be_bytes k m = be_bytes k n"
  shows "m = n"
  by (metis assms from_be_bytes_id)

section \<open>Slices\<close>

lemma slice_append_left: "b \<le> length xs \<Longrightarrow> slice a b (xs @ ys) = slice a b xs"
  by (simp add: slice_def)

lemma slice_mid: "a = length xs \<Longrightarrow> b = length xs + length ys \<Longrightarrow> slice a b (xs @ ys @ zs) = ys"
  by (simp add: slice_def)

lemma length_slice: "length (slice a b xs) = min b (length xs) - a"
  by (simp add: slice_def)

lemma slice_partition:
  assumes "a \<le> b" and "length xs = c"
  shows "take a xs @ slice a b xs @ slice b c xs = xs"
proof -
  have "take a xs = take a (take b xs)" using assms(1) by (simp add: min_def)
  then have "take a xs @ slice a b xs = take b xs"
    unfolding slice_def by (simp only: append_take_drop_id)
  moreover have "slice b c xs = drop b xs" using assms(2) by (simp add: slice_def)
  ultimately show ?thesis by (metis append_assoc append_take_drop_id)
qed

section \<open>Struct formats\<close>

lemma struct_pack_Inr_iff: "(\<exists>bs. struct_pack ws vs = Inr bs) \<longleftrightarrow> struct_fits ws vs"
  by (induction ws vs rule: struct_pack.induct) (auto simp: bind_r_eq_Inr)

lemma struct_pack_length: "struct_pack ws vs = Inr bs \<Longrightarrow> length bs = sum_list ws"
  by (induction ws vs arbitrary: bs rule: struct_pack.induct)
    (auto simp: bind_r_eq_Inr split: if_splits)

lemma struct_unpack_pack:
  "struct_pack ws vs = Inr bs \<Longrightarrow> struct_unpack ws (bs @ rest) = vs"
  by (induction ws vs arbitrary: bs rule: struct_pack.induct)
    (auto simp: bind_r_eq_Inr from_be_bytes_id split: if_splits)

lemma struct_pack_unpack:
  "sum_list ws \<le> length bs \<Longrightarrow> struct_pack ws (struct_unpack ws bs) = Inr (take (sum_list ws) bs)"
proof (induction ws arbitrary: bs)
  case Nil
  show ?case by simp
next
  case (Cons w ws)
  have w: "length (take w bs) = w" using Cons.prems by simp
  have lt: "from_bytes_be (take w bs) < 256 ^ w"
    using from_bytes_be_lt [of "take w bs"] w by simp
  have be: "be_bytes w (from_bytes_be (take w bs)) = take w bs"
    using be_bytes_from [of "take w bs"] w by simp
  have "struct_pack ws (struct_unpack ws (drop w bs)) = Inr (take (sum_list ws) (drop w bs))"
    using Cons by simp
  with lt be show ?case by (simp add: take_add)
qed

section \<open>Dictionaries\<close>

lemma update_length_old: "k \<in> fst ` set d \<Longrightarrow> length (AList.update k v d) = length d"
  by (induction d) auto

lemma update_length_new: "k \<notin> fst ` set d \<Longrightarrow> length (AList.update k v d) = Suc (length d)"
  by (induction d) auto

lemma update_new: "k \<notin> fst ` set d \<Longrightarrow> AList.update k v d = d @ [(k, v)]"
  by (induction d) auto

lemma dict_get_update [simp]: "map_of (AList.update k v d) = (map_of d)(k \<mapsto> v)"
  by (rule update_conv')

lemma dict_get_delete [simp]: "map_of (AList.delete k d) = (map_of d)(k := None)"
  by (rule delete_conv')

lemma dict_get_in: "map_of d k = Some v \<Longrightarrow> k \<in> fst ` set d"
  by (metis map_of_SomeD fst_conv image_eqI)

section \<open>Runs\<close>

lemma run_outs_append:
  "run_outs f s (xs @ ys) =
     (fst (run_outs f s xs) @ fst (run_outs f (snd (run_outs f s xs)) ys),
      snd (run_outs f (snd (run_outs f s xs)) ys))"
  by (induction xs arbitrary: s) auto

lemma length_run_outs [simp]: "length (fst (run_outs f s xs)) = length xs"
  by (induction xs arbitrary: s) auto

text \<open>
  The contract every component with a state meets: one operation keeps an invariant, so every
  run of operations keeps it. The components interpret it on their own step functions.
\<close>

locale invariant_machine =
  fixes step :: "'s \<Rightarrow> 'i \<Rightarrow> 'o \<times> 's"
    and inv :: "'s \<Rightarrow> bool"
  assumes step_inv: "inv s \<Longrightarrow> inv (snd (step s i))"
begin

lemma run_inv: "inv s \<Longrightarrow> inv (snd (run_outs step s is))"
proof (induction "is" arbitrary: s)
  case Nil
  then show ?case by simp
next
  case (Cons i "is")
  from step_inv [OF Cons.prems] have "inv (snd (run_outs step (snd (step s i)) is))"
    by (rule Cons.IH)
  then show ?case by simp
qed

lemma run_prefix_inv: "inv s \<Longrightarrow> inv (snd (run_outs step s (take n is)))"
  by (rule run_inv)

end

text \<open>
  The contract of a handler inside such a loop: from a state of the invariant, on an admissible input, it
  does not raise and keeps the invariant. Then no run of the loop raises.
\<close>

locale total_machine =
  fixes step :: "'s \<Rightarrow> 'i \<Rightarrow> unit result \<times> 's"
    and inv :: "'s \<Rightarrow> bool"
    and admissible :: "'i \<Rightarrow> bool"
  assumes step_total: "inv s \<Longrightarrow> admissible i \<Longrightarrow> \<exists>s'. step s i = (Inr (), s') \<and> inv s'"
begin

lemma loop_total: "inv s \<Longrightarrow> list_all admissible is \<Longrightarrow> \<exists>s'. loop_r step s is = (Inr (), s') \<and> inv s'"
proof (induction "is" arbitrary: s)
  case (Cons i "is")
  then obtain s1 where "step s i = (Inr (), s1)" "inv s1" using step_total [of s i] by auto
  then show ?case using Cons by simp
qed simp

end

end
