(* ===== verification/Packet_Schema.thy ===== *)
theory Packet_Schema
  imports Py_Prelude
begin

text \<open>
  \<^verbatim>\<open>protocol/constants.py\<close> and \<^verbatim>\<open>protocol/packet_schema.py\<close>: the 40-byte OSV header and the datagram
  \<^verbatim>\<open>header | payload | tag\<close>. A header is a record of Python integers; packing one whose field does
  not fit its width raises \<^verbatim>\<open>struct.error\<close>. The lemmas show that the codec is exact: packing
  succeeds on exactly the headers whose fields fit, and header and datagram round-trip both ways.
\<close>

section \<open>protocol/constants.py\<close>

definition MAGIC :: int where
  "MAGIC = 0x4F56"

definition VERSION :: int where
  "VERSION = 0"

definition HEADER_STRUCT_FORMAT :: string where
  "HEADER_STRUCT_FORMAT = ''!HBBIHIHHQBBHQBB''"

definition HEADER_SIZE_BYTES :: nat where
  "HEADER_SIZE_BYTES = 40"

definition DEFAULT_TAG_LENGTH :: int where
  "DEFAULT_TAG_LENGTH = 16"

definition MAX_PAYLOAD_BYTES :: int where
  "MAX_PAYLOAD_BYTES = 1400"

definition AUTHENTICATED_BODY_BYTES :: nat where
  "AUTHENTICATED_BODY_BYTES = 1384"

definition TRANSPORT_SLOT_BYTES :: nat where
  "TRANSPORT_SLOT_BYTES = 1408"

definition TRANSPORT_PADDING_BYTES :: nat where
  "TRANSPORT_PADDING_BYTES = TRANSPORT_SLOT_BYTES - AUTHENTICATED_BODY_BYTES"

definition PAYLOAD_TYPE_RAW_RGB :: int where
  "PAYLOAD_TYPE_RAW_RGB = 1"

definition PAYLOAD_TYPE_RAW_YUV :: int where
  "PAYLOAD_TYPE_RAW_YUV = 2"

definition PAYLOAD_TYPE_H264 :: int where
  "PAYLOAD_TYPE_H264 = 3"

definition VALID_PAYLOAD_TYPES :: "int list" where
  "VALID_PAYLOAD_TYPES = [PAYLOAD_TYPE_RAW_RGB, PAYLOAD_TYPE_RAW_YUV, PAYLOAD_TYPE_H264]"

definition FLAG_KEYFRAME :: int where
  "FLAG_KEYFRAME = 0x01"

definition FLAG_END_OF_FRAME :: int where
  "FLAG_END_OF_FRAME = 0x02"

named_theorems osv_consts

lemmas osv_constants [osv_consts] =
  MAGIC_def VERSION_def HEADER_SIZE_BYTES_def DEFAULT_TAG_LENGTH_def MAX_PAYLOAD_BYTES_def
  AUTHENTICATED_BODY_BYTES_def TRANSPORT_SLOT_BYTES_def TRANSPORT_PADDING_BYTES_def
  PAYLOAD_TYPE_RAW_RGB_def PAYLOAD_TYPE_RAW_YUV_def PAYLOAD_TYPE_H264_def VALID_PAYLOAD_TYPES_def

section \<open>protocol/packet_schema.py\<close>

record packet_header =
  magic :: int
  version :: int
  flags :: int
  session_id :: int
  stream_id :: int
  frame_id :: int
  segment_id :: int
  segment_count :: int
  source_timestamp_ns :: int
  payload_type :: int
  key_id :: int
  payload_length :: int
  nonce_counter :: int
  tag_length :: int
  reserved :: int

text \<open>\<^verbatim>\<open>PacketHeader()\<close>: the dataclass defaults.\<close>

definition default_header :: packet_header where
  "default_header = \<lparr>magic = MAGIC, version = VERSION, flags = 0, session_id = 0, stream_id = 0,
     frame_id = 0, segment_id = 0, segment_count = 1, source_timestamp_ns = 0, payload_type = 0,
     key_id = 0, payload_length = 0, nonce_counter = 0, tag_length = 16, reserved = 0\<rparr>"

definition HEADER_STRUCT :: "nat list" where
  "HEADER_STRUCT = struct_widths HEADER_STRUCT_FORMAT"

definition header_values :: "packet_header \<Rightarrow> int list" where
  "header_values h = [magic h, version h, flags h, session_id h, stream_id h, frame_id h,
     segment_id h, segment_count h, source_timestamp_ns h, payload_type h, key_id h,
     payload_length h, nonce_counter h, tag_length h, reserved h]"

definition pack_header :: "packet_header \<Rightarrow> bytes result" where
  "pack_header h = struct_pack HEADER_STRUCT (header_values h)"

definition unpack_header :: "bytes \<Rightarrow> packet_header result" where
  "unpack_header buf =
     (if length buf < HEADER_SIZE_BYTES then Inl ValueError
      else let values = struct_unpack HEADER_STRUCT buf in
        Inr \<lparr>magic = values ! 0, version = values ! 1, flags = values ! 2,
          session_id = values ! 3, stream_id = values ! 4, frame_id = values ! 5,
          segment_id = values ! 6, segment_count = values ! 7, source_timestamp_ns = values ! 8,
          payload_type = values ! 9, key_id = values ! 10, payload_length = values ! 11,
          nonce_counter = values ! 12, tag_length = values ! 13, reserved = values ! 14\<rparr>)"

definition build_datagram :: "packet_header \<Rightarrow> bytes \<Rightarrow> bytes \<Rightarrow> bytes result" where
  "build_datagram h payload tag =
     (if int (length payload) \<noteq> payload_length h then Inl ValueError
      else if int (length tag) \<noteq> tag_length h then Inl ValueError
      else bind_r (pack_header h) (\<lambda>hd. Inr (hd @ payload @ tag)))"

definition split_datagram :: "bytes \<Rightarrow> (packet_header \<times> bytes \<times> bytes) result" where
  "split_datagram datagram =
     bind_r (unpack_header datagram) (\<lambda>h.
       let payload_start = HEADER_SIZE_BYTES;
           payload_end = payload_start + nat (payload_length h);
           expected_size = payload_end + nat (tag_length h)
       in if length datagram \<noteq> expected_size then Inl ValueError
          else Inr (h, slice payload_start payload_end datagram,
                    slice payload_end expected_size datagram))"

text \<open>The headers the wire format can carry: every field inside the width of its code.\<close>

definition header_fits :: "packet_header \<Rightarrow> bool" where
  "header_fits h \<longleftrightarrow>
     0 \<le> magic h \<and> magic h < 2 ^ 16 \<and> 0 \<le> version h \<and> version h < 2 ^ 8 \<and>
     0 \<le> flags h \<and> flags h < 2 ^ 8 \<and> 0 \<le> session_id h \<and> session_id h < 2 ^ 32 \<and>
     0 \<le> stream_id h \<and> stream_id h < 2 ^ 16 \<and> 0 \<le> frame_id h \<and> frame_id h < 2 ^ 32 \<and>
     0 \<le> segment_id h \<and> segment_id h < 2 ^ 16 \<and> 0 \<le> segment_count h \<and> segment_count h < 2 ^ 16 \<and>
     0 \<le> source_timestamp_ns h \<and> source_timestamp_ns h < 2 ^ 64 \<and>
     0 \<le> payload_type h \<and> payload_type h < 2 ^ 8 \<and> 0 \<le> key_id h \<and> key_id h < 2 ^ 8 \<and>
     0 \<le> payload_length h \<and> payload_length h < 2 ^ 16 \<and>
     0 \<le> nonce_counter h \<and> nonce_counter h < 2 ^ 64 \<and>
     0 \<le> tag_length h \<and> tag_length h < 2 ^ 8 \<and> 0 \<le> reserved h \<and> reserved h < 2 ^ 8"

section \<open>The codec\<close>

lemma header_struct: "HEADER_STRUCT = [2, 1, 1, 4, 2, 4, 2, 2, 8, 1, 1, 2, 8, 1, 1]"
  by (simp add: HEADER_STRUCT_def struct_widths_def HEADER_STRUCT_FORMAT_def)

lemma header_struct_size: "sum_list HEADER_STRUCT = HEADER_SIZE_BYTES"
  by (simp add: header_struct HEADER_SIZE_BYTES_def)

lemma header_fits_struct: "struct_fits HEADER_STRUCT (header_values h) \<longleftrightarrow> header_fits h"
  by (simp add: header_struct header_values_def header_fits_def)

lemma pack_header_fits: "header_fits h \<Longrightarrow> \<exists>bs. pack_header h = Inr bs"
  by (simp add: pack_header_def struct_pack_Inr_iff header_fits_struct)

lemma pack_header_length: "pack_header h = Inr bs \<Longrightarrow> length bs = HEADER_SIZE_BYTES"
  using struct_pack_length header_struct_size by (fastforce simp: pack_header_def)

lemma pack_header_Inr_iff: "(\<exists>bs. pack_header h = Inr bs) \<longleftrightarrow> header_fits h"
  by (simp add: pack_header_def struct_pack_Inr_iff header_fits_struct)

lemma unpack_pack_append: "pack_header h = Inr bs \<Longrightarrow> unpack_header (bs @ rest) = Inr h"
proof -
  assume p: "pack_header h = Inr bs"
  then have "struct_unpack HEADER_STRUCT (bs @ rest) = header_values h"
    by (simp add: pack_header_def struct_unpack_pack)
  with pack_header_length [OF p] show ?thesis
    by (simp add: unpack_header_def header_values_def)
qed

lemma struct_unpack_header_length: "length (struct_unpack HEADER_STRUCT bs) = 15"
  by (simp add: header_struct)

lemma header_values_unpack:
  "unpack_header bs = Inr h \<Longrightarrow> header_values h = struct_unpack HEADER_STRUCT bs"
  by (auto simp: unpack_header_def header_values_def header_struct Let_def split: if_splits)

lemma pack_unpack_take:
  assumes "unpack_header bs = Inr h"
  shows "pack_header h = Inr (take HEADER_SIZE_BYTES bs)"
proof -
  from assms have "HEADER_SIZE_BYTES \<le> length bs"
    by (auto simp: unpack_header_def split: if_splits)
  with header_values_unpack [OF assms] show ?thesis
    using struct_pack_unpack [of HEADER_STRUCT bs]
    by (simp add: pack_header_def header_struct_size)
qed

lemma unpack_header_fits: "unpack_header bs = Inr h \<Longrightarrow> header_fits h"
  using pack_unpack_take pack_header_Inr_iff by blast

lemma unpack_header_defined: "HEADER_SIZE_BYTES \<le> length bs \<Longrightarrow> \<exists>h. unpack_header bs = Inr h"
  by (simp add: unpack_header_def Let_def)

lemma split_build:
  assumes "build_datagram h payload tag = Inr dg"
  shows "split_datagram dg = Inr (h, payload, tag)"
proof -
  from assms obtain hb where hb: "pack_header h = Inr hb" and dg: "dg = hb @ payload @ tag"
    and len: "nat (payload_length h) = length payload" "nat (tag_length h) = length tag"
    by (auto simp: build_datagram_def bind_r_eq_Inr split: if_splits)
  have "length hb = HEADER_SIZE_BYTES" using pack_header_length [OF hb] .
  then show ?thesis
    using len by (simp add: split_datagram_def dg unpack_pack_append [OF hb] Let_def slice_def)
qed

lemma build_split:
  assumes "split_datagram dg = Inr (h, payload, tag)"
  shows "build_datagram h payload tag = Inr dg"
proof -
  from assms have u: "unpack_header dg = Inr h"
    and len: "length dg = HEADER_SIZE_BYTES + nat (payload_length h) + nat (tag_length h)"
    and pl: "payload = slice HEADER_SIZE_BYTES (HEADER_SIZE_BYTES + nat (payload_length h)) dg"
    and tg: "tag = slice (HEADER_SIZE_BYTES + nat (payload_length h))
        (HEADER_SIZE_BYTES + nat (payload_length h) + nat (tag_length h)) dg"
    by (auto simp: split_datagram_def bind_r_eq_Inr Let_def split: if_splits)
  from unpack_header_fits [OF u] have nn: "0 \<le> payload_length h" "0 \<le> tag_length h"
    by (simp_all add: header_fits_def)
  have "take HEADER_SIZE_BYTES dg @ payload @ tag = dg"
    unfolding pl tg by (rule slice_partition) (use len in simp_all)
  with nn len show ?thesis
    by (simp add: build_datagram_def pack_unpack_take [OF u] pl tg length_slice)
qed

section \<open>Properties\<close>

text \<open>
  C15. The datagram codec is exact. A header, payload and tag build a datagram precisely when that
  datagram splits into the same header, payload and tag: building and splitting are inverse partial
  functions, so no two datagrams carry the same content and every accepted datagram can be rebuilt.
\<close>

theorem datagram_codec_exact:
  "build_datagram h payload tag = Inr dg \<longleftrightarrow> split_datagram dg = Inr (h, payload, tag)"
  using split_build build_split by blast

text \<open>
  The header codec. Packing succeeds exactly on the headers whose fields fit their widths; the
  result is 40 bytes and unpacks to the header; and any 40 bytes unpack to a header that packs back to
  them.
\<close>

theorem header_codec_exact:
  "((\<exists>bs. pack_header h = Inr bs) \<longleftrightarrow> header_fits h) \<and>
   (pack_header h = Inr bs \<longleftrightarrow> length bs = HEADER_SIZE_BYTES \<and> unpack_header bs = Inr h)"
proof -
  have "length bs = HEADER_SIZE_BYTES \<and> unpack_header bs = Inr h" if p: "pack_header h = Inr bs"
    using pack_header_length [OF p] unpack_pack_append [OF p, of "[]"] by simp
  moreover have "pack_header h = Inr bs" if "length bs = HEADER_SIZE_BYTES" "unpack_header bs = Inr h"
    using pack_unpack_take [OF that(2)] that(1) by simp
  ultimately show ?thesis using pack_header_Inr_iff by blast
qed

end
