(* ===== verification/Validation.thy ===== *)
theory Validation
  imports Packet_Schema
begin

text \<open>
  \<^verbatim>\<open>protocol/validation.py\<close>: the header checks, the two nonce predicates and the frame completion
  test. \<^verbatim>\<open>validate_header\<close> returns the list of error messages in the order the source appends them;
  the lemmas say exactly which headers get none, and that the completion test is set equality
  with \<^verbatim>\<open>range(segment_count)\<close>.
\<close>

definition validate_header :: "packet_header \<Rightarrow> string list" where
  "validate_header h =
     (if magic h \<noteq> MAGIC then [''invalid magic''] else []) @
     (if version h \<noteq> VERSION then [''unsupported protocol version''] else []) @
     (if segment_count h = 0 then [''segment_count must be > 0''] else []) @
     (if segment_id h \<ge> segment_count h then [''segment_id out of range''] else []) @
     (if payload_type h \<notin> set VALID_PAYLOAD_TYPES then [''unknown payload_type''] else []) @
     (if payload_length h > MAX_PAYLOAD_BYTES
      then [''payload_length exceeds configured maximum''] else []) @
     (if tag_length h \<le> 0 then [''tag_length must be > 0''] else []) @
     (if tag_length h > 32 then [''tag_length too large''] else []) @
     (if tag_length h \<noteq> DEFAULT_TAG_LENGTH
      then [''tag_length does not match default policy''] else [])"

definition validate_nonce_monotonic :: "int \<Rightarrow> int \<Rightarrow> bool" where
  "validate_nonce_monotonic last_nonce current_nonce \<longleftrightarrow> current_nonce > last_nonce"

definition validate_replay_window :: "int \<Rightarrow> int \<Rightarrow> int \<Rightarrow> bool" where
  "validate_replay_window latest_nonce incoming_nonce window =
     (if incoming_nonce > latest_nonce then True
      else incoming_nonce + window > latest_nonce)"

definition is_frame_complete :: "int list \<Rightarrow> int \<Rightarrow> bool" where
  "is_frame_complete received_segment_ids count =
     (if count \<le> 0 then False
      else let seen = remdups received_segment_ids in
        if int (length seen) \<noteq> count then False
        else list_all (\<lambda>idx. idx \<in> set seen) [0..count - 1])"

section \<open>Header checks\<close>

lemma validate_header_Nil_iff:
  "validate_header h = [] \<longleftrightarrow>
     magic h = MAGIC \<and> version h = VERSION \<and> segment_count h \<noteq> 0 \<and>
     segment_id h < segment_count h \<and> payload_type h \<in> set VALID_PAYLOAD_TYPES \<and>
     payload_length h \<le> MAX_PAYLOAD_BYTES \<and> tag_length h = DEFAULT_TAG_LENGTH"
  by (auto simp: validate_header_def DEFAULT_TAG_LENGTH_def)

lemma validate_header_segment_range:
  assumes "validate_header h = []" and "header_fits h"
  shows "0 \<le> segment_id h \<and> segment_id h < segment_count h"
  using assms by (simp add: validate_header_Nil_iff header_fits_def)

section \<open>Nonce predicates\<close>

lemma replay_window_strict:
  assumes "w \<le> 0"
  shows "validate_replay_window l n w \<longleftrightarrow> validate_nonce_monotonic l n"
  using assms by (auto simp: validate_replay_window_def validate_nonce_monotonic_def)

lemma replay_window_iff:
  "validate_replay_window l n w \<longleftrightarrow> n > l - max w 0"
  by (auto simp: validate_replay_window_def)

section \<open>Frame completion\<close>

lemma is_frame_complete_iff:
  "is_frame_complete ids n \<longleftrightarrow> 0 < n \<and> set ids = {0..<n}"
proof (cases "0 < n")
  case False
  then show ?thesis by (simp add: is_frame_complete_def)
next
  case True
  then have range: "set [0..n - 1] = {0..<n}" and card: "int (card {0..<n}) = n" by auto
  have "is_frame_complete ids n \<longleftrightarrow> int (card (set ids)) = n \<and> {0..<n} \<subseteq> set ids"
    using True unfolding is_frame_complete_def
    by (auto simp: length_remdups_card_conv list_all_iff range)
  also have "\<dots> \<longleftrightarrow> set ids = {0..<n}"
    using card card_subset_eq [of "set ids" "{0..<n}"] by auto
  finally show ?thesis using True by simp
qed

end
