(* ===== verification/Reassembly.thy ===== *)
theory Reassembly
  imports Validation
begin

text \<open>
  \<^verbatim>\<open>pc/runtime/reassembly.py\<close> (\<^verbatim>\<open>pynq/runtime/reassembly.py\<close> is the same file): \<^verbatim>\<open>FrameReassembler\<close>
  keeps the pending frames in an insertion-ordered dictionary, stores the first copy of each
  segment, returns the joined frame when its last segment arrives and evicts the oldest frames
  above \<^verbatim>\<open>max_active_frames\<close>.

  The abstract specification \<open>spec_push\<close> is a partial map from frame keys to partial maps of
  segments with no capacity; \<open>push\<close> refines it up to the eviction of the oldest frame. The delivery
  theorem (any order, duplicates, interleaved frames) is proved on the specification and carried
  over by the refinement.
\<close>

type_synonym frame_key = "int \<times> int \<times> int"

record frame_state =
  fs_segment_count :: int
  fs_segments :: "(int \<times> bytes) list"

record frame_reassembler =
  max_active_frames :: int
  frames :: "(frame_key \<times> frame_state) list"

definition reassembler_init :: "int \<Rightarrow> frame_reassembler" where
  "reassembler_init m = \<lparr>max_active_frames = m, frames = []\<rparr>"

definition header_key :: "packet_header \<Rightarrow> frame_key" where
  "header_key h = (session_id h, stream_id h, frame_id h)"

text \<open>
  The loop deletes the first key while the dictionary is too large; on an empty dictionary
  \<^verbatim>\<open>next(iter(...))\<close> raises \<^verbatim>\<open>StopIteration\<close> (only a negative limit gets there).
\<close>

fun evict_if_needed :: "int \<Rightarrow> (frame_key \<times> frame_state) list \<Rightarrow>
    unit result \<times> (frame_key \<times> frame_state) list" where
  "evict_if_needed m [] = (if m < 0 then Inl StopIteration else Inr (), [])"
| "evict_if_needed m (x # fs) =
     (if int (length (x # fs)) > m then evict_if_needed m fs else (Inr (), x # fs))"

definition frame_slot :: "frame_reassembler \<Rightarrow> packet_header \<Rightarrow> frame_state" where
  "frame_slot r h =
     (case map_of (frames r) (header_key h) of
        None \<Rightarrow> \<lparr>fs_segment_count = segment_count h, fs_segments = []\<rparr>
      | Some st \<Rightarrow> if fs_segment_count st \<noteq> segment_count h
                  then \<lparr>fs_segment_count = segment_count h, fs_segments = []\<rparr> else st)"

definition store_segment :: "frame_state \<Rightarrow> int \<Rightarrow> bytes \<Rightarrow> frame_state" where
  "store_segment st sid payload =
     (if sid \<in> fst ` set (fs_segments st) then st
      else st\<lparr>fs_segments := AList.update sid payload (fs_segments st)\<rparr>)"

definition join_segments :: "frame_state \<Rightarrow> bytes result" where
  "join_segments st =
     bind_r (map_r (\<lambda>idx. case map_of (fs_segments st) idx of None \<Rightarrow> Inl KeyError | Some p \<Rightarrow> Inr p)
                   [0..fs_segment_count st - 1])
       (\<lambda>ps. Inr (concat ps))"

definition push :: "frame_reassembler \<Rightarrow> packet_header \<Rightarrow> bytes \<Rightarrow>
    bytes option result \<times> frame_reassembler" where
  "push r h payload =
     (let key = header_key h;
          st = store_segment (frame_slot r h) (segment_id h) payload;
          fs = AList.update key st (frames r)
      in if is_frame_complete (map fst (fs_segments st)) (fs_segment_count st)
         then (case join_segments st of
                 Inl e \<Rightarrow> (Inl e, r\<lparr>frames := fs\<rparr>)
               | Inr out \<Rightarrow>
                   (let (ev, fs') = evict_if_needed (max_active_frames r) (AList.delete key fs)
                    in (bind_r ev (\<lambda>_. Inr (Some out)), r\<lparr>frames := fs'\<rparr>)))
         else (let (ev, fs') = evict_if_needed (max_active_frames r) fs
               in (bind_r ev (\<lambda>_. Inr None), r\<lparr>frames := fs'\<rparr>)))"

definition drop_frame :: "frame_reassembler \<Rightarrow> int \<Rightarrow> int \<Rightarrow> int \<Rightarrow> frame_reassembler" where
  "drop_frame r sid strid fid = r\<lparr>frames := AList.delete (sid, strid, fid) (frames r)\<rparr>"

definition push_packet :: "frame_reassembler \<Rightarrow> packet_header \<times> bytes \<Rightarrow>
    bytes option result \<times> frame_reassembler" where
  "push_packet r hp = push r (fst hp) (snd hp)"

section \<open>Invariant and specification\<close>

definition frame_complete :: "frame_state \<Rightarrow> bool" where
  "frame_complete st \<longleftrightarrow> is_frame_complete (map fst (fs_segments st)) (fs_segment_count st)"

definition reasm_inv :: "frame_reassembler \<Rightarrow> bool" where
  "reasm_inv r \<longleftrightarrow> 0 \<le> max_active_frames r \<and> int (length (frames r)) \<le> max_active_frames r \<and>
     distinct (map fst (frames r)) \<and>
     (\<forall>st \<in> snd ` set (frames r). distinct (map fst (fs_segments st)) \<and> \<not> frame_complete st)"

type_synonym pending = "frame_key \<Rightarrow> (int \<times> (int \<Rightarrow> bytes option)) option"

definition abs_state :: "frame_state \<Rightarrow> int \<times> (int \<Rightarrow> bytes option)" where
  "abs_state st = (fs_segment_count st, map_of (fs_segments st))"

definition abs_reasm :: "frame_reassembler \<Rightarrow> pending" where
  "abs_reasm r k = map_option abs_state (map_of (frames r) k)"

definition spec_slot :: "pending \<Rightarrow> packet_header \<Rightarrow> int \<Rightarrow> bytes option" where
  "spec_slot A h =
     (case A (header_key h) of
        None \<Rightarrow> Map.empty
      | Some (n, m) \<Rightarrow> if n \<noteq> segment_count h then Map.empty else m)"

definition spec_push :: "pending \<Rightarrow> packet_header \<times> bytes \<Rightarrow> bytes option \<times> pending" where
  "spec_push A hp =
     (let h = fst hp; n = segment_count h; k = header_key h; m = spec_slot A h;
          m' = (if segment_id h \<in> dom m then m else m(segment_id h \<mapsto> snd hp))
      in if 0 < n \<and> dom m' = {0..<n}
         then (Some (concat (map (\<lambda>i. the (m' i)) [0..n - 1])), A(k := None))
         else (None, A(k \<mapsto> (n, m'))))"

section \<open>Eviction\<close>

lemma evict_if_needed_eq:
  "0 \<le> m \<Longrightarrow> evict_if_needed m fs = (Inr (), drop (length fs - nat m) fs)"
proof (induction m fs rule: evict_if_needed.induct)
  case (2 m x fs)
  then show ?case
    by (cases "int (length (x # fs)) > m") (auto simp: Suc_diff_le nat_le_iff)
qed simp

lemma store_segment_count [simp]:
  "fs_segment_count (store_segment st sid p) = fs_segment_count st"
  by (simp add: store_segment_def)

lemma frame_slot_count [simp]: "fs_segment_count (frame_slot r h) = segment_count h"
  by (simp add: frame_slot_def split: option.split)

lemma store_segment_map:
  "map_of (fs_segments (store_segment st sid p)) =
     (if sid \<in> dom (map_of (fs_segments st)) then map_of (fs_segments st)
      else (map_of (fs_segments st))(sid \<mapsto> p))"
  by (simp add: store_segment_def dom_map_of_conv_image_fst)

lemma store_segment_distinct:
  "distinct (map fst (fs_segments st)) \<Longrightarrow> distinct (map fst (fs_segments (store_segment st sid p)))"
  by (simp add: store_segment_def distinct_update)

lemma reasm_inv_slot:
  assumes "reasm_inv r" and "map_of (frames r) k = Some st"
  shows "distinct (map fst (fs_segments st))" and "\<not> frame_complete st"
proof -
  from assms(2) have "(k, st) \<in> set (frames r)" by (rule map_of_SomeD)
  then have "st \<in> snd ` set (frames r)" by force
  then show "distinct (map fst (fs_segments st))" and "\<not> frame_complete st"
    using assms(1) unfolding reasm_inv_def by blast+
qed

lemma frame_slot_distinct:
  assumes "reasm_inv r"
  shows "distinct (map fst (fs_segments (frame_slot r h)))"
proof (cases "map_of (frames r) (header_key h)")
  case None
  then show ?thesis by (simp add: frame_slot_def)
next
  case (Some st)
  with reasm_inv_slot(1) [OF assms] show ?thesis by (auto simp: frame_slot_def)
qed

lemma frame_complete_iff:
  "frame_complete st \<longleftrightarrow> 0 < fs_segment_count st \<and>
     dom (map_of (fs_segments st)) = {0..<fs_segment_count st}"
  by (simp add: frame_complete_def is_frame_complete_iff dom_map_of_conv_image_fst)

lemma join_segments_complete:
  assumes "frame_complete st"
  shows "join_segments st =
     Inr (concat (map (\<lambda>i. the (map_of (fs_segments st) i)) [0..fs_segment_count st - 1]))"
proof -
  from assms have d: "dom (map_of (fs_segments st)) = {0..<fs_segment_count st}"
    by (simp add: frame_complete_iff)
  have "map_r (\<lambda>idx. case map_of (fs_segments st) idx of None \<Rightarrow> Inl KeyError | Some p \<Rightarrow> Inr p)
      [0..fs_segment_count st - 1]
    = Inr (map (\<lambda>i. the (map_of (fs_segments st) i)) [0..fs_segment_count st - 1])"
  proof (rule map_r_Inr)
    fix i assume "i \<in> set [0..fs_segment_count st - 1]"
    then have "i \<in> dom (map_of (fs_segments st))" using d by auto
    then show "(case map_of (fs_segments st) i of None \<Rightarrow> Inl KeyError | Some p \<Rightarrow> Inr p) =
        Inr (the (map_of (fs_segments st) i))" by (auto split: option.split)
  qed
  then show ?thesis by (simp add: join_segments_def)
qed

section \<open>One push\<close>

definition pushed_state :: "frame_reassembler \<Rightarrow> packet_header \<Rightarrow> bytes \<Rightarrow> frame_state" where
  "pushed_state r h p = store_segment (frame_slot r h) (segment_id h) p"

lemma pushed_state_count [simp]: "fs_segment_count (pushed_state r h p) = segment_count h"
  by (simp add: pushed_state_def)

lemma push_eq:
  assumes "0 \<le> max_active_frames r"
  shows "push r h p =
    (if frame_complete (pushed_state r h p)
     then (Inr (Some (concat (map (\<lambda>i. the (map_of (fs_segments (pushed_state r h p)) i))
                                [0..segment_count h - 1]))),
           r\<lparr>frames := (let fs = AList.delete (header_key h)
                           (AList.update (header_key h) (pushed_state r h p) (frames r))
                        in drop (length fs - nat (max_active_frames r)) fs)\<rparr>)
     else (Inr None,
           r\<lparr>frames := (let fs = AList.update (header_key h) (pushed_state r h p) (frames r)
                        in drop (length fs - nat (max_active_frames r)) fs)\<rparr>))"
  unfolding push_def Let_def pushed_state_def [symmetric] frame_complete_def [symmetric]
  by (simp add: evict_if_needed_eq [OF assms] join_segments_complete)

lemma push_max [simp]: "max_active_frames (snd (push r h p)) = max_active_frames r"
  by (simp add: push_def Let_def split: sum.split prod.split)

lemma length_drop_excess: "0 \<le> m \<Longrightarrow> int (length (drop (length fs - nat m) fs)) \<le> m"
  by (simp add: nat_le_iff)

lemma push_complete:
  assumes "reasm_inv r" and "frame_complete (pushed_state r h p)"
  shows "push r h p =
     (Inr (Some (concat (map (\<lambda>i. the (map_of (fs_segments (pushed_state r h p)) i))
                            [0..segment_count h - 1]))),
      r\<lparr>frames := AList.delete (header_key h) (frames r)\<rparr>)"
proof -
  have "int (length (AList.delete (header_key h) (frames r))) \<le> max_active_frames r"
    using assms(1) length_delete_le [of "header_key h" "frames r"] by (simp add: reasm_inv_def)
  then have "length (AList.delete (header_key h) (frames r)) - nat (max_active_frames r) = 0"
    by simp
  then show ?thesis
    using assms by (simp add: push_eq reasm_inv_def delete_update_same Let_def)
qed

lemma push_incomplete:
  assumes "reasm_inv r" and "\<not> frame_complete (pushed_state r h p)"
  shows "push r h p =
     (Inr None, r\<lparr>frames := (let fs = AList.update (header_key h) (pushed_state r h p) (frames r)
                            in drop (length fs - nat (max_active_frames r)) fs)\<rparr>)"
  using assms by (simp add: push_eq reasm_inv_def)

lemma set_update_states:
  "snd ` set (AList.update k v d) \<subseteq> insert v (snd ` set d)"
  by (induction d) auto

lemma reasm_inv_delete:
  assumes "reasm_inv r"
  shows "reasm_inv (r\<lparr>frames := AList.delete k (frames r)\<rparr>)"
proof -
  have "snd ` set (AList.delete k (frames r)) \<subseteq> snd ` set (frames r)"
    by (auto simp: AList.delete_eq)
  moreover have "int (length (AList.delete k (frames r))) \<le> max_active_frames r"
    using assms length_delete_le [of k "frames r"] by (simp add: reasm_inv_def)
  ultimately show ?thesis
    using assms distinct_delete [of "frames r" k] unfolding reasm_inv_def by fastforce
qed

lemma push_inv:
  assumes "reasm_inv r"
  shows "reasm_inv (snd (push r h p))"
proof (cases "frame_complete (pushed_state r h p)")
  case True
  then show ?thesis
    using reasm_inv_delete [OF assms] by (simp add: push_complete [OF assms])
next
  case False
  let ?st = "pushed_state r h p"
  let ?fs = "AList.update (header_key h) ?st (frames r)"
  let ?ds = "drop (length ?fs - nat (max_active_frames r)) ?fs"
  have m: "0 \<le> max_active_frames r" using assms by (simp add: reasm_inv_def)
  have dst: "distinct (map fst (fs_segments ?st))"
    using frame_slot_distinct [OF assms] by (simp add: pushed_state_def store_segment_distinct)
  have "distinct (map fst ?fs)" using assms by (simp add: reasm_inv_def distinct_update)
  then have dd: "distinct (map fst ?ds)" by (simp add: drop_map [symmetric])
  have "snd ` set ?ds \<subseteq> insert ?st (snd ` set (frames r))"
    using set_update_states [of "header_key h" ?st "frames r"]
      image_mono [OF set_drop_subset, of snd "length ?fs - nat (max_active_frames r)" ?fs]
    by (rule subset_trans [rotated])
  moreover have "\<forall>st \<in> insert ?st (snd ` set (frames r)).
      distinct (map fst (fs_segments st)) \<and> \<not> frame_complete st"
    using assms dst False by (simp add: reasm_inv_def)
  ultimately have all:
    "\<forall>st \<in> snd ` set ?ds. distinct (map fst (fs_segments st)) \<and> \<not> frame_complete st"
    by (meson subsetD)
  show ?thesis
    unfolding push_incomplete [OF assms False] reasm_inv_def Let_def
    using m dd all length_drop_excess [OF m, of ?fs] by simp
qed

lemma push_total: "reasm_inv r \<Longrightarrow> \<exists>out. fst (push r h p) = Inr out"
  by (simp add: push_eq reasm_inv_def)

lemma reassembler_init_inv: "0 \<le> m \<Longrightarrow> reasm_inv (reassembler_init m)"
  by (simp add: reasm_inv_def reassembler_init_def)

lemma drop_frame_inv: "reasm_inv r \<Longrightarrow> reasm_inv (drop_frame r a b c)"
  by (simp add: drop_frame_def reasm_inv_delete)

interpretation reasm: invariant_machine push_packet reasm_inv
  by unfold_locales (simp add: push_packet_def push_inv)

section \<open>Refinement of the specification\<close>

lemma spec_slot_abs: "map_of (fs_segments (frame_slot r h)) = spec_slot (abs_reasm r) h"
  by (auto simp: frame_slot_def spec_slot_def abs_reasm_def abs_state_def split: option.split)

lemma pushed_map:
  "map_of (fs_segments (pushed_state r h p)) =
     (if segment_id h \<in> dom (spec_slot (abs_reasm r) h) then spec_slot (abs_reasm r) h
      else (spec_slot (abs_reasm r) h)(segment_id h \<mapsto> p))"
  by (simp add: pushed_state_def store_segment_map spec_slot_abs)

lemma spec_push_pushed:
  "spec_push (abs_reasm r) (h, p) =
     (if frame_complete (pushed_state r h p)
      then (Some (concat (map (\<lambda>i. the (map_of (fs_segments (pushed_state r h p)) i))
                             [0..segment_count h - 1])),
            (abs_reasm r)(header_key h := None))
      else (None, (abs_reasm r)(header_key h \<mapsto> abs_state (pushed_state r h p))))"
  unfolding spec_push_def Let_def fst_conv snd_conv pushed_map [symmetric]
  by (simp add: frame_complete_iff abs_state_def)

lemma abs_reasm_delete:
  "abs_reasm (r\<lparr>frames := AList.delete k (frames r)\<rparr>) = (abs_reasm r)(k := None)"
  by (auto simp: abs_reasm_def)

lemma abs_reasm_update:
  "abs_reasm (r\<lparr>frames := AList.update k st (frames r)\<rparr>) = (abs_reasm r)(k \<mapsto> abs_state st)"
  by (auto simp: abs_reasm_def)

lemma abs_reasm_tl:
  assumes "distinct (map fst fs)" and "fs \<noteq> []"
  shows "abs_reasm (r\<lparr>frames := tl fs\<rparr>) = (abs_reasm (r\<lparr>frames := fs\<rparr>))(fst (hd fs) := None)"
proof -
  obtain k st gs where fs: "fs = (k, st) # gs" using assms(2) by (cases fs) auto
  then have "map_of gs k = None" using assms(1) by (simp add: map_of_eq_None_iff)
  then show ?thesis by (auto simp: abs_reasm_def fs)
qed

definition evicts :: "frame_reassembler \<Rightarrow> packet_header \<Rightarrow> bytes \<Rightarrow> bool" where
  "evicts r h p \<longleftrightarrow> \<not> frame_complete (pushed_state r h p) \<and>
     header_key h \<notin> fst ` set (frames r) \<and> int (length (frames r)) = max_active_frames r"

lemma push_output: "reasm_inv r \<Longrightarrow> fst (push r h p) = Inr (fst (spec_push (abs_reasm r) (h, p)))"
  by (cases "frame_complete (pushed_state r h p)")
    (simp_all add: push_complete push_incomplete spec_push_pushed)

lemma push_abs_keep:
  assumes inv: "reasm_inv r" and "\<not> evicts r h p"
  shows "abs_reasm (snd (push r h p)) = snd (spec_push (abs_reasm r) (h, p))"
proof (cases "frame_complete (pushed_state r h p)")
  case True
  then show ?thesis
    by (simp add: push_complete [OF inv] spec_push_pushed abs_reasm_delete)
next
  case False
  let ?fs = "AList.update (header_key h) (pushed_state r h p) (frames r)"
  have "int (length ?fs) \<le> max_active_frames r"
    using inv assms(2) False
    by (cases "header_key h \<in> fst ` set (frames r)")
      (auto simp: update_length_old update_length_new evicts_def reasm_inv_def)
  then have "length ?fs - nat (max_active_frames r) = 0" by simp
  then show ?thesis
    using False by (simp add: push_incomplete [OF inv] spec_push_pushed abs_reasm_update Let_def)
qed

lemma push_abs_evict:
  assumes inv: "reasm_inv r" and ev: "evicts r h p"
  shows "abs_reasm (snd (push r h p)) =
     (snd (spec_push (abs_reasm r) (h, p)))(fst (hd (frames r @ [(header_key h, pushed_state r h p)])) := None)"
proof -
  let ?fs = "frames r @ [(header_key h, pushed_state r h p)]"
  from ev have new: "header_key h \<notin> fst ` set (frames r)"
    and inc: "\<not> frame_complete (pushed_state r h p)"
    and full: "int (length (frames r)) = max_active_frames r"
    by (simp_all add: evicts_def)
  have upd: "AList.update (header_key h) (pushed_state r h p) (frames r) = ?fs"
    using new by (rule update_new)
  have "length ?fs - nat (max_active_frames r) = 1" using full by simp
  then have "snd (push r h p) = r\<lparr>frames := tl ?fs\<rparr>"
    unfolding push_incomplete [OF inv inc] Let_def upd by (simp only: drop_Suc drop_0 One_nat_def snd_conv)
  moreover have "distinct (map fst ?fs)" using inv new by (auto simp: reasm_inv_def)
  moreover have "abs_reasm (r\<lparr>frames := ?fs\<rparr>) = snd (spec_push (abs_reasm r) (h, p))"
    using inc abs_reasm_update [of "header_key h" "pushed_state r h p" r]
    by (simp add: upd spec_push_pushed)
  ultimately show ?thesis by (simp add: abs_reasm_tl)
qed

text \<open>
  As long as the keys in play fit into the capacity no push evicts, and a whole run of pushes
  refines the run of the specification.
\<close>

definition pending_keys :: "frame_reassembler \<Rightarrow> frame_key set" where
  "pending_keys r = fst ` set (frames r)"

definition packet_keys :: "(packet_header \<times> bytes) list \<Rightarrow> frame_key set" where
  "packet_keys ps = set (map (header_key \<circ> fst) ps)"

lemma card_pending: "reasm_inv r \<Longrightarrow> card (pending_keys r) = length (frames r)"
  unfolding pending_keys_def
  by (metis distinct_card length_map list.set_map reasm_inv_def)

lemma pending_keys_push:
  assumes "reasm_inv r"
  shows "pending_keys (snd (push r h p)) \<subseteq> insert (header_key h) (pending_keys r)"
proof (cases "frame_complete (pushed_state r h p)")
  case True
  then show ?thesis
    using dom_delete_subset [of "header_key h" "frames r"]
    by (auto simp: push_complete [OF assms] pending_keys_def)
next
  case False
  let ?fs = "AList.update (header_key h) (pushed_state r h p) (frames r)"
  have "pending_keys (snd (push r h p)) \<subseteq> fst ` set ?fs"
    unfolding push_incomplete [OF assms False] pending_keys_def Let_def
    by (simp add: image_mono set_drop_subset)
  also have "\<dots> = insert (header_key h) (pending_keys r)"
    by (simp add: dom_update pending_keys_def)
  finally show ?thesis .
qed

lemma no_eviction:
  assumes "reasm_inv r" and "int (card (insert (header_key h) (pending_keys r))) \<le> max_active_frames r"
  shows "\<not> evicts r h p"
proof
  assume "evicts r h p"
  then have "header_key h \<notin> pending_keys r" "int (length (frames r)) = max_active_frames r"
    by (simp_all add: evicts_def pending_keys_def)
  moreover have "finite (pending_keys r)" by (simp add: pending_keys_def)
  ultimately show False using assms(2) card_pending [OF assms(1)] by simp
qed

lemma run_refines:
  assumes "reasm_inv r" and "int (card (pending_keys r \<union> packet_keys ps)) \<le> max_active_frames r"
  shows "fst (run_outs push_packet r ps) = map Inr (fst (run_outs spec_push (abs_reasm r) ps)) \<and>
     abs_reasm (snd (run_outs push_packet r ps)) = snd (run_outs spec_push (abs_reasm r) ps)"
  using assms
proof (induction ps arbitrary: r)
  case Nil
  then show ?case by simp
next
  case (Cons hp ps)
  obtain h p where hp: "hp = (h, p)" by (cases hp)
  let ?r = "snd (push r h p)"
  have fin: "finite (pending_keys r \<union> packet_keys (hp # ps))"
    by (simp add: pending_keys_def packet_keys_def)
  have card: "int (card X) \<le> max_active_frames r"
    if "X \<subseteq> pending_keys r \<union> packet_keys (hp # ps)" for X
    using card_mono [OF fin that] Cons.prems(2) by simp
  have "insert (header_key h) (pending_keys r) \<subseteq> pending_keys r \<union> packet_keys (hp # ps)"
    by (auto simp: hp packet_keys_def)
  then have "int (card (insert (header_key h) (pending_keys r))) \<le> max_active_frames r"
    by (rule card)
  then have abs: "abs_reasm ?r = snd (spec_push (abs_reasm r) (h, p))"
    using push_abs_keep no_eviction Cons.prems(1) by blast
  have "pending_keys ?r \<union> packet_keys ps \<subseteq> pending_keys r \<union> packet_keys (hp # ps)"
    using pending_keys_push [OF Cons.prems(1), of h p] by (auto simp: hp packet_keys_def)
  then have "int (card (pending_keys ?r \<union> packet_keys ps)) \<le> max_active_frames ?r"
    using card by simp
  from Cons.IH [OF push_inv [OF Cons.prems(1)] this] abs push_output [OF Cons.prems(1), of h p]
  show ?case by (simp add: hp push_packet_def)
qed

lemma push_max_run: "max_active_frames (snd (run_outs push_packet r ps)) = max_active_frames r"
  by (induction ps arbitrary: r) (simp_all add: push_packet_def)

lemma pending_keys_run: "reasm_inv r \<Longrightarrow> pending_keys (snd (run_outs push_packet r ps)) \<subseteq> pending_keys r \<union> packet_keys ps"
proof (induction ps arbitrary: r)
  case (Cons hp ps)
  obtain h p where hp: "hp = (h, p)" by (cases hp)
  from Cons.IH [of "snd (push r h p)"] push_inv [OF Cons.prems] pending_keys_push [OF Cons.prems, of h p]
  show ?case by (auto simp: hp push_packet_def [of r "(h, p)"] packet_keys_def)
qed simp

section \<open>Delivery\<close>

definition frame_packets :: "frame_key \<Rightarrow> int \<Rightarrow> (int \<Rightarrow> bytes) \<Rightarrow> (packet_header \<times> bytes) list \<Rightarrow> bool" where
  "frame_packets k n F ps \<longleftrightarrow>
     list_all (\<lambda>hp. header_key (fst hp) = k \<longrightarrow>
       segment_count (fst hp) = n \<and> 0 \<le> segment_id (fst hp) \<and> segment_id (fst hp) < n \<and>
       snd hp = F (segment_id (fst hp))) ps"

definition frame_ids :: "frame_key \<Rightarrow> (packet_header \<times> bytes) list \<Rightarrow> int set" where
  "frame_ids k ps = set (map (segment_id \<circ> fst) (filter (\<lambda>hp. header_key (fst hp) = k) ps))"

definition tracks :: "frame_key \<Rightarrow> int \<Rightarrow> (int \<Rightarrow> bytes) \<Rightarrow> int set \<Rightarrow> pending \<Rightarrow> bool" where
  "tracks k n F S A \<longleftrightarrow>
     (if S = {} then A k = None else A k = Some (n, \<lambda>i. if i \<in> S then Some (F i) else None))"

lemma spec_push_other:
  "header_key (fst hp) \<noteq> k \<Longrightarrow> snd (spec_push A hp) k = A k"
  by (simp add: spec_push_def Let_def)

lemma tracks_slot:
  assumes "tracks k n F S A" and "header_key h = k" and "segment_count h = n"
  shows "spec_slot A h = (\<lambda>i. if i \<in> S then Some (F i) else None)"
  using assms by (auto simp: tracks_def spec_slot_def split: if_splits)

lemma spec_push_track:
  assumes "tracks k n F S A" and "header_key (fst hp) = k" and "segment_count (fst hp) = n"
    and "snd hp = F (segment_id (fst hp))" and "0 < n"
  shows "spec_push A hp =
     (if insert (segment_id (fst hp)) S = {0..<n}
      then (Some (concat (map F [0..n - 1])), A(k := None))
      else (None, A(k \<mapsto> (n, \<lambda>i. if i \<in> insert (segment_id (fst hp)) S then Some (F i) else None))))"
proof -
  let ?T = "insert (segment_id (fst hp)) S"
  let ?m = "\<lambda>i. if i \<in> ?T then Some (F i) else None"
  have m: "(if segment_id (fst hp) \<in> dom (spec_slot A (fst hp)) then spec_slot A (fst hp)
      else (spec_slot A (fst hp))(segment_id (fst hp) \<mapsto> snd hp)) = ?m"
    using tracks_slot [OF assms(1-3)] assms(4) by (auto simp: dom_def)
  have d: "dom ?m = ?T" by (auto simp: dom_def)
  have j: "map (\<lambda>i. the (?m i)) [0..n - 1] = map F [0..n - 1]" if "?T = {0..<n}"
    unfolding that by (rule map_cong) auto
  show ?thesis
  proof (cases "?T = {0..<n}")
    case True
    then show ?thesis
      unfolding spec_push_def Let_def m d assms(2,3) j [OF True] using assms(5) by simp
  next
    case False
    then show ?thesis unfolding spec_push_def Let_def m d assms(2,3) by simp
  qed
qed

lemma spec_run_track:
  assumes "tracks k n F S A" and "frame_packets k n F ps" and "0 < n"
    and "S \<union> frame_ids k ps \<subset> {0..<n}"
  shows "tracks k n F (S \<union> frame_ids k ps) (snd (run_outs spec_push A ps)) \<and>
     (\<forall>i < length ps. header_key (fst (ps ! i)) = k \<longrightarrow> fst (run_outs spec_push A ps) ! i = None)"
  using assms
proof (induction ps arbitrary: S A)
  case Nil
  then show ?case by (simp add: frame_ids_def)
next
  case (Cons hp ps)
  let ?A = "snd (spec_push A hp)"
  have fp: "frame_packets k n F ps" using Cons.prems(2) by (simp add: frame_packets_def)
  show ?case
  proof (cases "header_key (fst hp) = k")
    case False
    then have tr: "tracks k n F S ?A"
      using Cons.prems(1) by (simp add: tracks_def spec_push_other)
    have ids: "frame_ids k (hp # ps) = frame_ids k ps" using False by (simp add: frame_ids_def)
    show ?thesis
      using Cons.IH [OF tr fp Cons.prems(3)] Cons.prems(4) False
      by (simp add: All_less_Suc2 ids)
  next
    case True
    let ?S = "insert (segment_id (fst hp)) S"
    have ids: "S \<union> frame_ids k (hp # ps) = ?S \<union> frame_ids k ps"
      using True by (auto simp: frame_ids_def)
    then have ne: "?S \<noteq> {0..<n}" using Cons.prems(4) by auto
    have pk: "segment_count (fst hp) = n" "snd hp = F (segment_id (fst hp))"
      using Cons.prems(2) True by (simp_all add: frame_packets_def)
    note sp = spec_push_track [OF Cons.prems(1) True pk Cons.prems(3)]
    have tr: "tracks k n F ?S ?A" using ne by (simp add: sp tracks_def)
    have out: "fst (spec_push A hp) = None" using ne by (simp add: sp)
    have sub: "?S \<union> frame_ids k ps \<subset> {0..<n}" using Cons.prems(4) ids by simp
    show ?thesis
      using Cons.IH [OF tr fp Cons.prems(3) sub] out unfolding ids by (simp add: All_less_Suc2)
  qed
qed

lemma push_delivery:
  assumes inv: "reasm_inv r" and fresh: "map_of (frames r) k = None"
    and pk: "frame_packets k n F (pre @ [hp])" and key: "header_key (fst hp) = k"
    and all: "frame_ids k (pre @ [hp]) = {0..<n}"
    and last: "segment_id (fst hp) \<notin> frame_ids k pre"
    and cap: "int (card (pending_keys r \<union> packet_keys (pre @ [hp]))) \<le> max_active_frames r"
  shows "fst (run_outs push_packet r (pre @ [hp])) ! length pre = Inr (Some (concat (map F [0..n - 1]))) \<and>
    (\<forall>i < length pre. header_key (fst (pre ! i)) = k \<longrightarrow>
       fst (run_outs push_packet r (pre @ [hp])) ! i = Inr None) \<and>
    abs_reasm (snd (run_outs push_packet r (pre @ [hp]))) = (snd (run_outs spec_push (abs_reasm r) pre))(k := None)"
proof -
  let ?A = "abs_reasm r"
  from pk have pre: "frame_packets k n F pre" and cnt: "segment_count (fst hp) = n"
    and sid: "0 \<le> segment_id (fst hp)" "segment_id (fst hp) < n" and val: "snd hp = F (segment_id (fst hp))"
    using key by (simp_all add: frame_packets_def)
  have n: "0 < n" using sid by simp
  have ids: "insert (segment_id (fst hp)) (frame_ids k pre) = {0..<n}"
    using all key by (simp add: frame_ids_def)
  have t0: "tracks k n F {} ?A" using fresh by (simp add: tracks_def abs_reasm_def)
  have "{} \<union> frame_ids k pre \<subset> {0..<n}" using ids last by auto
  from spec_run_track [OF t0 pre n this]
  have tr: "tracks k n F (frame_ids k pre) (snd (run_outs spec_push ?A pre))"
    and none: "\<forall>i < length pre. header_key (fst (pre ! i)) = k \<longrightarrow> fst (run_outs spec_push ?A pre) ! i = None"
    by simp_all
  have "fst (spec_push (snd (run_outs spec_push ?A pre)) hp) = Some (concat (map F [0..n - 1]))"
    using spec_push_track [OF tr key cnt val n] ids by simp
  then have "fst (run_outs spec_push ?A (pre @ [hp])) ! length pre = Some (concat (map F [0..n - 1]))"
    by (simp add: run_outs_append nth_append)
  moreover have "\<forall>i < length pre. header_key (fst (pre ! i)) = k \<longrightarrow>
      fst (run_outs spec_push ?A (pre @ [hp])) ! i = None"
    using none by (simp add: run_outs_append nth_append)
  moreover have "snd (run_outs spec_push ?A (pre @ [hp])) = (snd (run_outs spec_push ?A pre))(k := None)"
    using spec_push_track [OF tr key cnt val n] ids by (simp add: run_outs_append)
  ultimately show ?thesis
    using run_refines [OF inv cap] by simp
qed

lemma spec_run_other:
  "k \<notin> packet_keys ps \<Longrightarrow> snd (run_outs spec_push A ps) k = A k"
proof (induction ps arbitrary: A)
  case Nil
  then show ?case by simp
next
  case (Cons hp ps)
  then have "snd (spec_push A hp) k = A k"
    by (intro spec_push_other) (auto simp: packet_keys_def)
  moreover have "k \<notin> packet_keys ps" using Cons.prems by (simp add: packet_keys_def)
  ultimately show ?case using Cons.IH by simp
qed

lemma abs_reasm_empty: "abs_reasm r = Map.empty \<Longrightarrow> frames r = []"
proof (rule ccontr)
  assume e: "abs_reasm r = Map.empty" and "frames r \<noteq> []"
  then obtain k st fs where f: "frames r = (k, st) # fs" by (cases "frames r") auto
  then have "abs_reasm r k \<noteq> None" by (simp add: abs_reasm_def)
  with e show False by simp
qed

text \<open>A whole frame sent in order into an empty reassembler comes out at its last segment.\<close>

definition in_order :: "frame_key \<Rightarrow> packet_header list \<Rightarrow> bytes list \<Rightarrow> bool" where
  "in_order k hs segs \<longleftrightarrow> length hs = length segs \<and>
     (\<forall>i < length segs. header_key (hs ! i) = k \<and> segment_count (hs ! i) = int (length segs) \<and>
        segment_id (hs ! i) = int i)"

lemma in_order_packets:
  assumes "in_order k hs segs" and "j \<le> length segs"
  shows "frame_ids k (take j (zip hs segs)) = {0..<int j}"
    and "frame_packets k (int (length segs)) (\<lambda>i. segs ! nat i) (zip hs segs)"
    and "packet_keys (zip hs segs) \<subseteq> {k}"
proof -
  have all: "\<exists>i < length segs. hp = (hs ! i, segs ! i) \<and> header_key (hs ! i) = k \<and>
      segment_count (hs ! i) = int (length segs) \<and> segment_id (hs ! i) = int i"
    if "hp \<in> set (zip hs segs)" for hp
    using that assms(1) by (auto simp: in_set_conv_nth in_order_def)
  show "frame_packets k (int (length segs)) (\<lambda>i. segs ! nat i) (zip hs segs)"
    using all unfolding frame_packets_def list_all_iff by fastforce
  show "packet_keys (zip hs segs) \<subseteq> {k}"
    using all unfolding packet_keys_def by fastforce
  let ?t = "take j (zip hs segs)"
  have len: "length ?t = j" using assms by (simp add: in_order_def)
  have nth: "?t ! i = (hs ! i, segs ! i) \<and> header_key (hs ! i) = k \<and> segment_id (hs ! i) = int i"
    if "i < j" for i
    using that assms by (simp add: in_order_def)
  have "filter (\<lambda>hp. header_key (fst hp) = k) ?t = ?t"
    using nth len by (intro filter_True) (metis fst_conv in_set_conv_nth)
  moreover have "map (segment_id \<circ> fst) ?t = map int [0..<j]"
    using nth len by (intro nth_equalityI) simp_all
  ultimately have "frame_ids k ?t = int ` {0..<j}" by (simp add: frame_ids_def)
  then show "frame_ids k ?t = {0..<int j}" by (simp add: image_int_atLeastLessThan)
qed

lemma concat_segments: "concat (map (\<lambda>i. segs ! nat i) [0..int (length segs) - 1]) = concat segs"
proof -
  have "map (\<lambda>i. segs ! nat i) [0..int (length segs) - 1] = segs"
    by (rule nth_equalityI) simp_all
  then show ?thesis by simp
qed

lemma replicate_snoc_eqI:
  assumes "length xs = Suc n" "\<And>i. i < n \<Longrightarrow> xs ! i = a" "xs ! n = b"
  shows "xs = replicate n a @ [b]"
  by (rule nth_equalityI) (use assms in \<open>auto simp: nth_append less_Suc_eq\<close>)

lemma spec_run_one_key:
  assumes "packet_keys ps \<subseteq> {k}" "A = Map.empty"
  shows "(snd (run_outs spec_push A ps))(k := None) = Map.empty"
proof
  fix k'
  show "((snd (run_outs spec_push A ps))(k := None)) k' = None"
    using assms spec_run_other [of k' ps A] by auto
qed

lemma push_in_order:
  assumes inv: "reasm_inv r" and empty: "frames r = []" and m: "1 \<le> max_active_frames r"
    and ord: "in_order k hs segs" and ne: "segs \<noteq> []"
  shows "fst (run_outs push_packet r (zip hs segs)) =
      replicate (length segs - 1) (Inr None) @ [Inr (Some (concat segs))]"
    and "frames (snd (run_outs push_packet r (zip hs segs))) = []"
proof -
  let ?n = "length segs" and ?ps = "zip hs segs"
  let ?pre = "take (?n - 1) ?ps" and ?hp = "(hs ! (?n - 1), segs ! (?n - 1))"
  have l: "length ?ps = ?n" using ord by (simp add: in_order_def)
  have n: "?n - 1 < ?n" using ne by simp
  then have split: "?ps = ?pre @ [?hp]"
    using take_Suc_conv_app_nth [of "?n - 1" ?ps] l by simp
  have last: "header_key (fst ?hp) = k" "segment_id (fst ?hp) = int (?n - 1)"
    using ord n by (simp_all add: in_order_def)
  note pk = in_order_packets [OF ord]
  have keys: "pending_keys r \<union> packet_keys ?ps \<subseteq> {k}"
    using pk(3) [OF le_refl] empty by (simp add: pending_keys_def)
  have card: "int (card (pending_keys r \<union> packet_keys ?ps)) \<le> max_active_frames r"
    using card_mono [OF _ keys] m by simp
  have fresh: "map_of (frames r) k = None" using empty by simp
  have all: "frame_ids k ?ps = {0..<int ?n}" using pk(1) [of ?n] l by simp
  have notin: "segment_id (fst ?hp) \<notin> frame_ids k ?pre" using pk(1) [of "?n - 1"] last by simp
  note d = push_delivery [OF inv fresh, of "int ?n" "\<lambda>i. segs ! nat i" ?pre ?hp,
      folded split, OF pk(2) [OF le_refl] last(1) all notin card]
  let ?outs = "fst (run_outs push_packet r ?ps)"
  have nones: "?outs ! i = Inr None" if "i < ?n - 1" for i
  proof -
    have "header_key (fst (?pre ! i)) = k" using that ord by (simp add: in_order_def)
    moreover have "i < length ?pre" using that l by simp
    ultimately show ?thesis using d by blast
  qed
  show "?outs = replicate (?n - 1) (Inr None) @ [Inr (Some (concat segs))]"
    by (rule replicate_snoc_eqI) (use nones d l n in \<open>simp_all add: concat_segments nth_append\<close>)
  have "packet_keys ?pre \<subseteq> {k}"
    using pk(3) [OF le_refl] set_take_subset [of "?n - 1" ?ps] by (auto simp: packet_keys_def)
  moreover have "abs_reasm r = Map.empty" using empty by (simp add: abs_reasm_def fun_eq_iff)
  ultimately have "abs_reasm (snd (run_outs push_packet r ?ps)) = Map.empty"
    using conjunct2 [OF conjunct2 [OF d]] spec_run_one_key [of ?pre k "abs_reasm r"] by metis
  then show "frames (snd (run_outs push_packet r ?ps)) = []" by (rule abs_reasm_empty)
qed

section \<open>Provenance\<close>

definition stored_from :: "(packet_header \<times> bytes) list \<Rightarrow> pending \<Rightarrow> bool" where
  "stored_from H A \<longleftrightarrow> (\<forall>k n m i p. A k = Some (n, m) \<longrightarrow> m i = Some p \<longrightarrow>
     (\<exists>h. (h, p) \<in> set H \<and> header_key h = k \<and> segment_count h = n \<and> segment_id h = i))"

lemma stored_from_slot:
  assumes "stored_from H A" and "spec_slot A h i = Some p"
  shows "\<exists>h'. (h', p) \<in> set H \<and> header_key h' = header_key h \<and>
     segment_count h' = segment_count h \<and> segment_id h' = i"
proof -
  from assms(2) obtain m where "A (header_key h) = Some (segment_count h, m)" and "m i = Some p"
    by (auto simp: spec_slot_def split: option.splits if_splits)
  with assms(1) show ?thesis unfolding stored_from_def by blast
qed

definition new_slot :: "pending \<Rightarrow> packet_header \<times> bytes \<Rightarrow> int \<Rightarrow> bytes option" where
  "new_slot A hp = (let m = spec_slot A (fst hp) in
     if segment_id (fst hp) \<in> dom m then m else m(segment_id (fst hp) \<mapsto> snd hp))"

lemma new_slot_from:
  assumes "stored_from H A" and "new_slot A hp i = Some p"
  shows "\<exists>h'. (h', p) \<in> set (H @ [hp]) \<and> header_key h' = header_key (fst hp) \<and>
     segment_count h' = segment_count (fst hp) \<and> segment_id h' = i"
proof (cases "spec_slot A (fst hp) i = Some p")
  case True
  from stored_from_slot [OF assms(1) this] show ?thesis by auto
next
  case False
  with assms(2) have "i = segment_id (fst hp)" "p = snd hp"
    by (auto simp: new_slot_def Let_def split: if_splits)
  then show ?thesis by (intro exI [of _ "fst hp"]) auto
qed

lemma spec_push_new_slot:
  "spec_push A hp =
     (if 0 < segment_count (fst hp) \<and> dom (new_slot A hp) = {0..<segment_count (fst hp)}
      then (Some (concat (map (\<lambda>i. the (new_slot A hp i)) [0..segment_count (fst hp) - 1])),
            A(header_key (fst hp) := None))
      else (None, A(header_key (fst hp) \<mapsto> (segment_count (fst hp), new_slot A hp))))"
  unfolding spec_push_def new_slot_def Let_def by (rule refl)

lemma stored_from_push: "stored_from H A \<Longrightarrow> stored_from (H @ [hp]) (snd (spec_push A hp))"
  using new_slot_from [of H A hp]
  unfolding stored_from_def spec_push_new_slot
  by (auto simp: fun_upd_def split: if_splits) (metis (no_types) append_Cons)+

lemma stored_from_forget: "stored_from H A \<Longrightarrow> stored_from H (A(k := None))"
  by (auto simp: stored_from_def)

lemma stored_from_step:
  assumes "reasm_inv r" and "stored_from H (abs_reasm r)"
  shows "stored_from (H @ [hp]) (abs_reasm (snd (push_packet r hp)))"
proof -
  obtain h p where hp: "hp = (h, p)" by (cases hp)
  have "stored_from (H @ [hp]) (snd (spec_push (abs_reasm r) (h, p)))"
    using stored_from_push [OF assms(2)] by (simp add: hp)
  then show ?thesis
    using push_abs_keep [OF assms(1)] push_abs_evict [OF assms(1)] stored_from_forget
    by (cases "evicts r h p") (simp_all add: hp push_packet_def)
qed

lemma stored_from_run:
  assumes "0 \<le> m"
  shows "stored_from H (abs_reasm (snd (run_outs push_packet (reassembler_init m) H)))"
proof (induction H rule: rev_induct)
  case Nil
  show ?case by (simp add: stored_from_def abs_reasm_def reassembler_init_def)
next
  case (snoc hp H)
  have "reasm_inv (snd (run_outs push_packet (reassembler_init m) H))"
    by (rule reasm.run_inv) (rule reassembler_init_inv [OF assms])
  from stored_from_step [OF this snoc] show ?case by (simp add: run_outs_append)
qed

lemma push_provenance:
  assumes "0 \<le> m"
    and "fst (run_outs push_packet (reassembler_init m) (H @ [(h, p)])) ! length H = Inr (Some out)"
  shows "0 < segment_count h \<and> (\<exists>F. out = concat (map F [0..segment_count h - 1]) \<and>
    (\<forall>i \<in> {0..<segment_count h}. \<exists>h'. (h', F i) \<in> set (H @ [(h, p)]) \<and>
       header_key h' = header_key h \<and> segment_count h' = segment_count h \<and> segment_id h' = i))"
proof -
  let ?r = "snd (run_outs push_packet (reassembler_init m) H)"
  let ?A = "abs_reasm ?r"
  have inv: "reasm_inv ?r" by (rule reasm.run_inv) (rule reassembler_init_inv [OF assms(1)])
  have st: "stored_from H ?A" by (rule stored_from_run [OF assms(1)])
  have "fst (spec_push ?A (h, p)) = Some out"
    using assms(2) push_output [OF inv, of h p]
    by (simp add: run_outs_append nth_append push_packet_def)
  then have pos: "0 < segment_count h" and d: "dom (new_slot ?A (h, p)) = {0..<segment_count h}"
    and out: "out = concat (map (\<lambda>i. the (new_slot ?A (h, p) i)) [0..segment_count h - 1])"
    by (auto simp: spec_push_new_slot split: if_splits)
  show ?thesis
  proof (intro conjI exI [of _ "\<lambda>i. the (new_slot ?A (h, p) i)"] ballI)
    show "0 < segment_count h" by (rule pos)
    show "out = concat (map (\<lambda>i. the (new_slot ?A (h, p) i)) [0..segment_count h - 1])" by (rule out)
    fix i assume "i \<in> {0..<segment_count h}"
    with d obtain q where "new_slot ?A (h, p) i = Some q" by blast
    with new_slot_from [OF st this]
    show "\<exists>h'. (h', the (new_slot ?A (h, p) i)) \<in> set (H @ [(h, p)]) \<and>
       header_key h' = header_key h \<and> segment_count h' = segment_count h \<and> segment_id h' = i"
      by simp
  qed
qed

section \<open>Operation sequences\<close>

datatype reasm_op = Push packet_header bytes | DropFrame int int int

fun reasm_step :: "frame_reassembler \<Rightarrow> reasm_op \<Rightarrow> bytes option result \<times> frame_reassembler" where
  "reasm_step r (Push h p) = push r h p"
| "reasm_step r (DropFrame a b c) = (Inr None, drop_frame r a b c)"

interpretation reasm_ops: invariant_machine reasm_step reasm_inv
proof unfold_locales
  fix r i assume "reasm_inv r"
  then show "reasm_inv (snd (reasm_step r i))"
    by (cases i) (simp_all add: push_inv drop_frame_inv)
qed

lemma reasm_step_max [simp]: "max_active_frames (snd (reasm_step r op)) = max_active_frames r"
  by (cases op) (simp_all add: drop_frame_def)

lemma reasm_run_max: "max_active_frames (snd (run_outs reasm_step r ops)) = max_active_frames r"
  by (induction ops arbitrary: r) simp_all

lemma reasm_run_total:
  "reasm_inv r \<Longrightarrow> \<forall>out \<in> set (fst (run_outs reasm_step r ops)). \<exists>x. out = Inr x"
proof (induction ops arbitrary: r)
  case Nil
  then show ?case by simp
next
  case (Cons op ops)
  have "\<exists>x. fst (reasm_step r op) = Inr x" using push_total [OF Cons.prems] by (cases op) simp_all
  with Cons.IH [OF reasm_ops.step_inv [OF Cons.prems]] show ?case by simp
qed

lemma pushed_duplicate:
  assumes "map_of (frames r) (header_key h) = Some st" and "fs_segment_count st = segment_count h"
    and "segment_id h \<in> fst ` set (fs_segments st)"
  shows "pushed_state r h p = st"
  using assms by (simp add: pushed_state_def frame_slot_def store_segment_def)

lemma update_same: "map_of d k = Some v \<Longrightarrow> AList.update k v d = d"
  by (induction d) (auto split: if_splits)

section \<open>Properties\<close>

text \<open>
  C7. Delivery. From any state that satisfies the invariant and does not hold frame \<open>k\<close>, let the
  packets of \<open>k\<close> inside an arbitrary stream carry the segment count \<open>n\<close> and the payload \<open>F i\<close> at
  segment \<open>i\<close>, in any order, with duplicates, interleaved with packets of other frames, the last one
  supplying the only segment still missing. If the frames in play fit into \<^verbatim>\<open>max_active_frames\<close>, the
  last push returns exactly \<open>F 0 @ \<dots> @ F (n - 1)\<close> and every earlier push of \<open>k\<close> returns \<^verbatim>\<open>None\<close>.
\<close>

theorem push_delivers_frame:
  assumes inv: "reasm_inv r" and fresh: "map_of (frames r) k = None"
    and pk: "frame_packets k n F (pre @ [hp])" and key: "header_key (fst hp) = k"
    and all: "frame_ids k (pre @ [hp]) = {0..<n}"
    and last: "segment_id (fst hp) \<notin> frame_ids k pre"
    and cap: "int (card (pending_keys r \<union> packet_keys (pre @ [hp]))) \<le> max_active_frames r"
  shows "fst (run_outs push_packet r (pre @ [hp])) ! length pre = Inr (Some (concat (map F [0..n - 1]))) \<and>
    (\<forall>i < length pre. header_key (fst (pre ! i)) = k \<longrightarrow>
       fst (run_outs push_packet r (pre @ [hp])) ! i = Inr None)"
  using push_delivery [OF assms] by blast

definition demo_header :: "int \<Rightarrow> int \<Rightarrow> int \<Rightarrow> packet_header" where
  "demo_header fid sid n = default_header\<lparr>frame_id := fid, segment_id := sid, segment_count := n\<rparr>"

definition demo_stream :: "(packet_header \<times> bytes) list" where
  "demo_stream = [(demo_header 7 1 2, [20]), (demo_header 8 0 3, [99]), (demo_header 7 1 2, [20])]"

lemma demo_header_key: "header_key (demo_header f s n) = (0, 0, f)"
  by (simp add: demo_header_def header_key_def default_header_def)

lemma demo_header_fields:
  "segment_id (demo_header f s n) = s" "segment_count (demo_header f s n) = n"
  by (simp_all add: demo_header_def)

lemmas demo_simps = demo_header_key demo_header_fields demo_stream_def

theorem push_delivers_frame_witness:
  "fst (run_outs push_packet (reassembler_init 8) (demo_stream @ [(demo_header 7 0 2, [10])])) ! 3
     = Inr (Some [10, 20])"
proof -
  let ?F = "\<lambda>i::int. if i = 0 then [10] else [20] :: bytes"
  have 1: "reasm_inv (reassembler_init 8)" by (rule reassembler_init_inv) simp
  have 2: "map_of (frames (reassembler_init 8)) (0, 0, 7) = None" by (simp add: reassembler_init_def)
  have 3: "frame_packets (0, 0, 7) 2 ?F (demo_stream @ [(demo_header 7 0 2, [10])])"
    by (simp add: frame_packets_def demo_simps)
  have 4: "header_key (fst (demo_header 7 0 2, [10::byte])) = (0, 0, 7)" by (simp add: demo_simps)
  have 5: "frame_ids (0, 0, 7) (demo_stream @ [(demo_header 7 0 2, [10])]) = {0..<2}"
    by (auto simp: frame_ids_def demo_simps)
  have 6: "segment_id (fst (demo_header 7 0 2, [10::byte])) \<notin> frame_ids (0, 0, 7) demo_stream"
    by (simp add: frame_ids_def demo_simps)
  have 7: "int (card (pending_keys (reassembler_init 8) \<union>
      packet_keys (demo_stream @ [(demo_header 7 0 2, [10])]))) \<le> max_active_frames (reassembler_init 8)"
    by (simp add: pending_keys_def packet_keys_def reassembler_init_def demo_simps card_insert_if)
  show ?thesis
    using push_delivers_frame [OF 1 2 3 4 5 6 7] by (simp add: demo_stream_def upto.simps)
qed

text \<open>
  C8. Provenance. Whatever packets a fresh reassembler was given, including conflicting segment
  counts, evictions and frame id reuse, a returned frame is the concatenation, in segment order, of
  payloads that were really pushed for that very frame key, segment count and position: no frame
  ever mixes in a byte of another frame or of another position.
\<close>

theorem push_frame_provenance:
  assumes "0 \<le> m"
    and "fst (run_outs push_packet (reassembler_init m) (H @ [(h, p)])) ! length H = Inr (Some out)"
  shows "0 < segment_count h \<and> (\<exists>F. out = concat (map F [0..segment_count h - 1]) \<and>
    (\<forall>i \<in> {0..<segment_count h}. \<exists>h'. (h', F i) \<in> set (H @ [(h, p)]) \<and>
       header_key h' = header_key h \<and> segment_count h' = segment_count h \<and> segment_id h' = i))"
  using push_provenance [OF assms] .

lemma demo_run:
  "fst (run_outs push_packet (reassembler_init 8) (demo_stream @ [(demo_header 7 0 2, [10])])) ! length demo_stream
     = Inr (Some [10, 20])"
  by code_simp

theorem push_frame_provenance_witness:
  "0 < segment_count (demo_header 7 0 2) \<and>
   (\<exists>F. [10, 20] = concat (map F [0..segment_count (demo_header 7 0 2) - 1]) \<and>
    (\<forall>i \<in> {0..<segment_count (demo_header 7 0 2)}.
       \<exists>h'. (h', F i) \<in> set (demo_stream @ [(demo_header 7 0 2, [10])]) \<and>
         header_key h' = header_key (demo_header 7 0 2) \<and>
         segment_count h' = segment_count (demo_header 7 0 2) \<and> segment_id h' = i))"
  by (rule push_frame_provenance [OF _ demo_run]) simp

text \<open>
  C16. Capacity and error freedom. After any sequence of \<^verbatim>\<open>push\<close> and \<^verbatim>\<open>drop_frame\<close> calls on a
  reassembler created with a non-negative limit, at most \<^verbatim>\<open>max_active_frames\<close> frames are pending, their
  keys are distinct, no complete frame is left behind, and no call raised.
\<close>

theorem reassembler_bounded:
  assumes "0 \<le> m"
  shows "int (length (frames (snd (run_outs reasm_step (reassembler_init m) ops)))) \<le> m \<and>
    distinct (map fst (frames (snd (run_outs reasm_step (reassembler_init m) ops)))) \<and>
    (\<forall>st \<in> snd ` set (frames (snd (run_outs reasm_step (reassembler_init m) ops))). \<not> frame_complete st) \<and>
    (\<forall>out \<in> set (fst (run_outs reasm_step (reassembler_init m) ops)). \<exists>x. out = Inr x)"
proof -
  have i: "reasm_inv (reassembler_init m)" by (rule reassembler_init_inv [OF assms])
  have "reasm_inv (snd (run_outs reasm_step (reassembler_init m) ops))" by (rule reasm_ops.run_inv [OF i])
  moreover have "max_active_frames (snd (run_outs reasm_step (reassembler_init m) ops)) = m"
    by (simp add: reasm_run_max reassembler_init_def)
  ultimately show ?thesis using reasm_run_total [OF i, of ops] by (simp add: reasm_inv_def)
qed

theorem reassembler_bounded_witness:
  "int (length (frames (snd (run_outs reasm_step (reassembler_init 1)
     [Push (demo_header 1 0 2) [5], Push (demo_header 2 0 2) [6], DropFrame 0 0 1])))) \<le> 1"
  using reassembler_bounded [of 1 "[Push (demo_header 1 0 2) [5], Push (demo_header 2 0 2) [6], DropFrame 0 0 1]"]
  by simp

text \<open>
  C13. Refinement. One \<^verbatim>\<open>push\<close> on a state that satisfies the invariant returns what the abstract
  specification returns, and leaves the specification's pending frames, minus the oldest frame when
  the new frame did not fit: the only difference between the two is the eviction of the oldest entry.
\<close>

theorem push_refines_spec:
  assumes "reasm_inv r"
  shows "fst (push r h p) = Inr (fst (spec_push (abs_reasm r) (h, p))) \<and>
    abs_reasm (snd (push r h p)) =
      (if evicts r h p
       then (snd (spec_push (abs_reasm r) (h, p)))
              (fst (hd (frames r @ [(header_key h, pushed_state r h p)])) := None)
       else snd (spec_push (abs_reasm r) (h, p)))"
  using push_output [OF assms] push_abs_keep [OF assms] push_abs_evict [OF assms] by simp

theorem push_refines_spec_witness:
  "fst (push (reassembler_init 1) (demo_header 1 0 2) [5])
     = Inr (fst (spec_push (abs_reasm (reassembler_init 1)) (demo_header 1 0 2, [5])))"
  using push_refines_spec [OF reassembler_init_inv, of 1 "demo_header 1 0 2" "[5]"] by simp

text \<open>
  Duplicates. A second copy of a segment that is already stored for a pending frame, whatever
  its payload, returns \<^verbatim>\<open>None\<close> and changes nothing: the first copy wins.
\<close>

theorem push_duplicate_ignored:
  assumes inv: "reasm_inv r" and st: "map_of (frames r) (header_key h) = Some st"
    and "fs_segment_count st = segment_count h" and "segment_id h \<in> fst ` set (fs_segments st)"
  shows "push r h p = (Inr None, r)"
proof -
  have ps: "pushed_state r h p = st" by (rule pushed_duplicate [OF assms(2-4)])
  have "\<not> frame_complete (pushed_state r h p)" unfolding ps by (rule reasm_inv_slot(2) [OF inv st])
  moreover have "length (frames r) - nat (max_active_frames r) = 0"
    using inv by (auto simp: reasm_inv_def le_nat_iff)
  ultimately show ?thesis
    by (simp add: push_incomplete [OF inv] ps update_same [OF st] Let_def)
qed

theorem push_duplicate_ignored_witness:
  "push (snd (push (reassembler_init 8) (demo_header 1 0 2) [5])) (demo_header 1 0 2) [6]
     = (Inr None, snd (push (reassembler_init 8) (demo_header 1 0 2) [5]))"
proof (rule push_duplicate_ignored)
  show "reasm_inv (snd (push (reassembler_init 8) (demo_header 1 0 2) [5]))"
    by (rule push_inv) (rule reassembler_init_inv, simp)
  show "map_of (frames (snd (push (reassembler_init 8) (demo_header 1 0 2) [5])))
      (header_key (demo_header 1 0 2)) = Some \<lparr>fs_segment_count = 2, fs_segments = [(0, [5])]\<rparr>"
    by code_simp
qed (simp_all add: demo_simps)

end
