(* ===== verification/Nonce_Validator.thy ===== *)
theory Nonce_Validator
  imports Validation
begin

text \<open>
  \<^verbatim>\<open>NonceValidator\<close> of \<^verbatim>\<open>pc/runtime/main_rx.py\<close>: the receiver's replay filter. It keeps the highest
  nonce, a dictionary of the nonces it still remembers and three counters; a late nonce is accepted
  while it is inside the reorder window and not remembered, and the dictionary is pruned to the
  replay window.

  The specification \<open>spec_accept\<close> remembers every nonce ever accepted. The lemmas show that the
  bounded dictionary makes the same decisions, for every window configuration the program builds.
\<close>

record nonce_validator =
  latest_nonce :: int
  replay_window :: int
  reorder_window :: int
  seen_nonces :: "(int \<times> bool) list"
  rejects_monotonic :: int
  rejects_replay :: int
  reordered :: int

definition nonce_validator_init :: "int \<Rightarrow> int option \<Rightarrow> nonce_validator" where
  "nonce_validator_init replay_window_packets reorder_window_packets =
     \<lparr>latest_nonce = 0, replay_window = replay_window_packets,
      reorder_window = (case reorder_window_packets of None \<Rightarrow> replay_window_packets | Some w \<Rightarrow> w),
      seen_nonces = [], rejects_monotonic = 0, rejects_replay = 0, reordered = 0\<rparr>"

definition prune_seen :: "nonce_validator \<Rightarrow> nonce_validator" where
  "prune_seen v =
     (if int (length (seen_nonces v)) > replay_window v
      then let cutoff = latest_nonce v - replay_window v
           in v\<lparr>seen_nonces := filter (\<lambda>(k, _). k > cutoff) (seen_nonces v)\<rparr>
      else v)"

definition track_nonce :: "nonce_validator \<Rightarrow> int \<Rightarrow> nonce_validator" where
  "track_nonce v n =
     (let v1 = v\<lparr>seen_nonces := AList.update n True (seen_nonces v)\<rparr>;
          v2 = (if n > latest_nonce v1 then v1\<lparr>latest_nonce := n\<rparr> else v1)
      in prune_seen v2)"

definition validate_and_track :: "nonce_validator \<Rightarrow> int \<Rightarrow> bool \<times> nonce_validator" where
  "validate_and_track v n =
     (if n \<in> fst ` set (seen_nonces v)
      then (False, v\<lparr>rejects_replay := rejects_replay v + 1\<rparr>)
      else if n > latest_nonce v then (True, track_nonce v n)
      else if n + reorder_window v > latest_nonce v
      then (True, track_nonce (v\<lparr>reordered := reordered v + 1\<rparr>) n)
      else (False, v\<lparr>rejects_monotonic := rejects_monotonic v + 1\<rparr>))"

section \<open>Specification and invariant\<close>

text \<open>The ideal filter: the high-water mark and the set of all accepted nonces.\<close>

definition spec_accept :: "int \<Rightarrow> int \<times> int set \<Rightarrow> int \<Rightarrow> bool \<times> int \<times> int set" where
  "spec_accept w s n =
     (case s of (latest, acc) \<Rightarrow>
        if n \<notin> acc \<and> n > latest - max w 0 then (True, max latest n, insert n acc)
        else (False, latest, acc))"

text \<open>The windows for which forgetting is safe: what is pruned is outside the reorder window.\<close>

definition safe_windows :: "nonce_validator \<Rightarrow> bool" where
  "safe_windows v \<longleftrightarrow> reorder_window v \<le> replay_window v \<or> reorder_window v \<le> 0"

text \<open>
  \<open>acc\<close> is the set of nonces accepted so far: the dictionary holds only accepted nonces, distinct
  and at most the high-water mark, and an accepted nonce that is no longer in it lies at or below
  the replay cutoff.
\<close>

definition nonce_inv :: "int set \<Rightarrow> nonce_validator \<Rightarrow> bool" where
  "nonce_inv acc v \<longleftrightarrow>
     distinct (map fst (seen_nonces v)) \<and> fst ` set (seen_nonces v) \<subseteq> acc \<and>
     (\<forall>n \<in> acc. n \<le> latest_nonce v) \<and>
     (\<forall>n \<in> acc. n \<in> fst ` set (seen_nonces v) \<or> n \<le> latest_nonce v - replay_window v)"

lemma prune_seen_fields [simp]:
  "latest_nonce (prune_seen v) = latest_nonce v"
  "replay_window (prune_seen v) = replay_window v"
  "reorder_window (prune_seen v) = reorder_window v"
  "rejects_monotonic (prune_seen v) = rejects_monotonic v"
  "rejects_replay (prune_seen v) = rejects_replay v"
  "reordered (prune_seen v) = reordered v"
  by (simp_all add: prune_seen_def Let_def)

lemma track_nonce_fields [simp]:
  "latest_nonce (track_nonce v n) = max (latest_nonce v) n"
  "replay_window (track_nonce v n) = replay_window v"
  "reorder_window (track_nonce v n) = reorder_window v"
  "rejects_monotonic (track_nonce v n) = rejects_monotonic v"
  "rejects_replay (track_nonce v n) = rejects_replay v"
  "reordered (track_nonce v n) = reordered v"
  by (simp_all add: track_nonce_def Let_def max_def)

lemma validate_fields [simp]:
  "replay_window (snd (validate_and_track v n)) = replay_window v"
  "reorder_window (snd (validate_and_track v n)) = reorder_window v"
  by (simp_all add: validate_and_track_def)

lemma prune_seen_keys:
  "fst ` set (seen_nonces (prune_seen v)) =
     (if int (length (seen_nonces v)) > replay_window v
      then {k \<in> fst ` set (seen_nonces v). k > latest_nonce v - replay_window v}
      else fst ` set (seen_nonces v))"
  by (force simp: prune_seen_def Let_def)

lemma prune_seen_subset: "set (seen_nonces (prune_seen v)) \<subseteq> set (seen_nonces v)"
  by (auto simp: prune_seen_def Let_def)

lemma prune_seen_distinct:
  "distinct (map fst (seen_nonces v)) \<Longrightarrow> distinct (map fst (seen_nonces (prune_seen v)))"
  by (simp add: prune_seen_def Let_def distinct_map_filter)

lemma prune_seen_inv: "nonce_inv acc v \<Longrightarrow> nonce_inv acc (prune_seen v)"
  unfolding nonce_inv_def prune_seen_fields prune_seen_keys
  using prune_seen_distinct [of v] by (auto simp: not_less)

lemma track_nonce_inv:
  assumes "nonce_inv acc v"
  shows "nonce_inv (insert n acc) (track_nonce v n)"
proof -
  let ?v = "v\<lparr>seen_nonces := AList.update n True (seen_nonces v), latest_nonce := max (latest_nonce v) n\<rparr>"
  have "nonce_inv (insert n acc) ?v"
    using assms unfolding nonce_inv_def by (auto simp: distinct_update dom_update max_def)
  moreover have "track_nonce v n = prune_seen ?v"
    by (simp add: track_nonce_def Let_def max_def)
  ultimately show ?thesis by (simp add: prune_seen_inv)
qed

lemma nonce_inv_counters:
  "nonce_inv acc (v\<lparr>reordered := a\<rparr>) = nonce_inv acc v"
  "nonce_inv acc (v\<lparr>rejects_replay := a\<rparr>) = nonce_inv acc v"
  "nonce_inv acc (v\<lparr>rejects_monotonic := a\<rparr>) = nonce_inv acc v"
  by (simp_all add: nonce_inv_def)

lemma validate_accepts_iff:
  "fst (validate_and_track v n) \<longleftrightarrow>
     n \<notin> fst ` set (seen_nonces v) \<and> n > latest_nonce v - max (reorder_window v) 0"
  by (auto simp: validate_and_track_def max_def)

lemma validate_latest:
  "latest_nonce (snd (validate_and_track v n)) =
     (if fst (validate_and_track v n) then max (latest_nonce v) n else latest_nonce v)"
  by (simp add: validate_and_track_def)

lemma validate_inv:
  "nonce_inv acc v \<Longrightarrow>
     nonce_inv (if fst (validate_and_track v n) then insert n acc else acc) (snd (validate_and_track v n))"
  by (simp add: validate_and_track_def track_nonce_inv nonce_inv_counters)

lemma forgotten_is_stale:
  assumes "nonce_inv acc v" and "safe_windows v" and "n \<in> acc" and "n \<notin> fst ` set (seen_nonces v)"
  shows "n \<le> latest_nonce v - max (reorder_window v) 0"
  using assms by (force simp: nonce_inv_def safe_windows_def max_def)

lemma validate_refines:
  assumes "nonce_inv acc v" and "safe_windows v"
  shows "spec_accept (reorder_window v) (latest_nonce v, acc) n =
     (fst (validate_and_track v n), latest_nonce (snd (validate_and_track v n)),
      if fst (validate_and_track v n) then insert n acc else acc)"
proof -
  have "fst (validate_and_track v n) \<longleftrightarrow> n \<notin> acc \<and> n > latest_nonce v - max (reorder_window v) 0"
    using forgotten_is_stale [OF assms, of n] assms(1)
    by (auto simp: validate_accepts_iff nonce_inv_def)
  then show ?thesis by (simp add: spec_accept_def validate_latest)
qed

lemma safe_windows_step: "safe_windows (snd (validate_and_track v n)) = safe_windows v"
  by (simp add: safe_windows_def)

lemma validate_run_refines:
  assumes "nonce_inv acc v" and "safe_windows v"
  shows "fst (run_outs validate_and_track v ns) =
     fst (run_outs (spec_accept (reorder_window v)) (latest_nonce v, acc) ns)"
  using assms
proof (induction ns arbitrary: v acc)
  case Nil
  show ?case by simp
next
  case (Cons n ns)
  show ?case
    using Cons.IH [OF validate_inv [OF Cons.prems(1)], of n] Cons.prems(2)
    by (simp add: validate_refines [OF Cons.prems] safe_windows_step)
qed

lemma nonce_inv_init: "nonce_inv {} (nonce_validator_init a b)"
  by (simp add: nonce_inv_def nonce_validator_init_def)

text \<open>What a run accepted: the inputs whose answer was \<^verbatim>\<open>True\<close>, in order.\<close>

definition accepted :: "bool list \<Rightarrow> int list \<Rightarrow> int list" where
  "accepted bs ns = map snd (filter fst (zip bs ns))"

lemma accepted_Cons [simp]:
  "accepted (b # bs) (n # ns) = (if b then n # accepted bs ns else accepted bs ns)"
  by (simp add: accepted_def)

lemma accepted_Nil [simp]: "accepted [] [] = []"
  by (simp add: accepted_def)

lemma spec_accepted_fresh:
  "set (accepted (fst (run_outs (spec_accept w) s ns)) ns) \<inter> snd s = {} \<and>
   distinct (accepted (fst (run_outs (spec_accept w) s ns)) ns)"
proof (induction ns arbitrary: s)
  case Nil
  show ?case by simp
next
  case (Cons n ns)
  obtain l acc where s: "s = (l, acc)" by (cases s)
  show ?case
    using Cons.IH [of "snd (spec_accept w s n)"]
    by (auto simp: spec_accept_def s split: if_splits)
qed

lemma strict_accepted_sorted:
  assumes "reorder_window v \<le> 0"
  shows "sorted_wrt (<) (latest_nonce v # accepted (fst (run_outs validate_and_track v ns)) ns)"
  using assms
proof (induction ns arbitrary: v)
  case Nil
  show ?case by simp
next
  case (Cons n ns)
  have "reorder_window (snd (validate_and_track v n)) \<le> 0" using Cons.prems by simp
  note ih = Cons.IH [OF this]
  show ?case
  proof (cases "fst (validate_and_track v n)")
    case True
    then have "latest_nonce v < n" using Cons.prems by (simp add: validate_accepts_iff)
    with ih True show ?thesis by (auto simp: validate_latest max_def)
  next
    case False
    with ih show ?thesis by (simp add: validate_latest)
  qed
qed

section \<open>Counters and memory\<close>

lemma validate_counters:
  "(if fst (validate_and_track v n) then 1 else 0) +
     rejects_monotonic (snd (validate_and_track v n)) + rejects_replay (snd (validate_and_track v n)) =
   1 + rejects_monotonic v + rejects_replay v"
  by (simp add: validate_and_track_def)

lemma run_counters:
  "int (length (accepted (fst (run_outs validate_and_track v ns)) ns)) +
     rejects_monotonic (snd (run_outs validate_and_track v ns)) +
     rejects_replay (snd (run_outs validate_and_track v ns)) =
   int (length ns) + rejects_monotonic v + rejects_replay v"
proof (induction ns arbitrary: v)
  case Nil
  show ?case by simp
next
  case (Cons n ns)
  show ?case
    using Cons.IH [of "snd (validate_and_track v n)"] validate_counters [of v n]
    by (simp split: if_splits)
qed

definition seen_bounded :: "nonce_validator \<Rightarrow> bool" where
  "seen_bounded v \<longleftrightarrow> distinct (map fst (seen_nonces v)) \<and>
     (\<forall>k \<in> fst ` set (seen_nonces v). k \<le> latest_nonce v) \<and>
     length (seen_nonces v) \<le> nat (replay_window v)"

lemma prune_seen_length:
  assumes "distinct (map fst (seen_nonces v))" and "\<forall>k \<in> fst ` set (seen_nonces v). k \<le> latest_nonce v"
  shows "length (seen_nonces (prune_seen v)) \<le> nat (replay_window v)"
proof (cases "int (length (seen_nonces v)) > replay_window v")
  case False
  then show ?thesis by (simp add: prune_seen_def)
next
  case True
  let ?K = "fst ` set (seen_nonces (prune_seen v))"
  have "length (seen_nonces (prune_seen v)) = card ?K"
    using distinct_card [OF prune_seen_distinct [OF assms(1)]] by simp
  also have "\<dots> \<le> card {latest_nonce v - replay_window v <.. latest_nonce v}"
    using assms(2) True by (intro card_mono) (auto simp: prune_seen_keys)
  finally show ?thesis by simp
qed

lemma validate_bounded:
  assumes "seen_bounded v"
  shows "seen_bounded (snd (validate_and_track v n))"
proof -
  have tr: "seen_bounded (track_nonce w n)" if "seen_bounded w" for w
  proof -
    let ?w = "w\<lparr>seen_nonces := AList.update n True (seen_nonces w), latest_nonce := max (latest_nonce w) n\<rparr>"
    have t: "track_nonce w n = prune_seen ?w" by (simp add: track_nonce_def Let_def max_def)
    have 1: "distinct (map fst (seen_nonces ?w))" using that by (simp add: seen_bounded_def distinct_update)
    have 2: "\<forall>k \<in> fst ` set (seen_nonces ?w). k \<le> latest_nonce ?w"
      using that by (auto simp: seen_bounded_def dom_update)
    have "\<forall>k \<in> fst ` set (seen_nonces (prune_seen ?w)). k \<le> latest_nonce ?w"
      using 2 image_mono [OF prune_seen_subset [of ?w], of fst] by blast
    then show ?thesis
      unfolding t seen_bounded_def
      using prune_seen_distinct [OF 1] prune_seen_length [OF 1 2] by simp
  qed
  have upd: "seen_bounded (v\<lparr>reordered := a\<rparr>)" for a using assms by (simp add: seen_bounded_def)
  show ?thesis
    using tr [OF assms] tr [OF upd] assms
    by (simp add: validate_and_track_def) (simp add: seen_bounded_def)
qed

interpretation nonces: invariant_machine validate_and_track seen_bounded
  by unfold_locales (rule validate_bounded)

section \<open>Properties\<close>

text \<open>
  C9. Exactness. With windows as the program configures them (the reorder window equal to the replay
  window, or zero under \<^verbatim>\<open>--strict-nonce\<close>; any pair with the reorder window not above the replay
  window), the validator answers every sequence of nonces exactly as the ideal filter that never
  forgets an accepted nonce: pruning the dictionary is unobservable.
\<close>

theorem validator_exact:
  assumes "safe_windows (nonce_validator_init rw ow)"
  shows "fst (run_outs validate_and_track (nonce_validator_init rw ow) ns) =
     fst (run_outs (spec_accept (case ow of None \<Rightarrow> rw | Some w \<Rightarrow> w)) (0, {}) ns)"
  using validate_run_refines [OF nonce_inv_init assms] by (simp add: nonce_validator_init_def)

theorem validator_exact_witness:
  "fst (run_outs validate_and_track (nonce_validator_init 2 None) [1, 3, 2, 2, 6, 3]) =
     fst (run_outs (spec_accept 2) (0, {}) [1, 3, 2, 2, 6, 3])"
  using validator_exact [of 2 None "[1, 3, 2, 2, 6, 3]"]
  by (simp add: safe_windows_def nonce_validator_init_def)

text \<open>
  C10. Replay safety. Over any sequence of calls on a fresh validator with such windows, no nonce is
  accepted twice, although the validator remembers only a bounded number of them.
\<close>

theorem validator_no_replay:
  assumes "safe_windows (nonce_validator_init rw ow)"
  shows "distinct (accepted (fst (run_outs validate_and_track (nonce_validator_init rw ow) ns)) ns)"
  using validate_run_refines [OF nonce_inv_init assms, of ns] spec_accepted_fresh by simp

theorem validator_no_replay_witness:
  "accepted (fst (run_outs validate_and_track (nonce_validator_init 4 (Some 4)) [1, 2, 9, 7, 2, 7, 10])) [1, 2, 9, 7, 2, 7, 10]
     = [1, 2, 9, 7, 10] \<and>
   distinct (accepted (fst (run_outs validate_and_track (nonce_validator_init 4 (Some 4)) [1, 2, 9, 7, 2, 7, 10])) [1, 2, 9, 7, 2, 7, 10])"
proof
  show "accepted (fst (run_outs validate_and_track (nonce_validator_init 4 (Some 4)) [1, 2, 9, 7, 2, 7, 10])) [1, 2, 9, 7, 2, 7, 10]
     = [1, 2, 9, 7, 10]"
    by code_simp
  show "distinct (accepted (fst (run_outs validate_and_track (nonce_validator_init 4 (Some 4)) [1, 2, 9, 7, 2, 7, 10])) [1, 2, 9, 7, 2, 7, 10])"
    by (rule validator_no_replay) (simp add: safe_windows_def nonce_validator_init_def)
qed

text \<open>
  Memory and accounting. After any sequence of calls the dictionary holds at most
  \<^verbatim>\<open>replay_window_packets\<close> entries (none when the window is not positive), and every call is counted
  once: accepted plus both reject counters equals the number of calls.
\<close>

theorem validator_bounded_accounting:
  "length (seen_nonces (snd (run_outs validate_and_track (nonce_validator_init rw ow) ns))) \<le> nat rw \<and>
   int (length (accepted (fst (run_outs validate_and_track (nonce_validator_init rw ow) ns)) ns)) +
     rejects_monotonic (snd (run_outs validate_and_track (nonce_validator_init rw ow) ns)) +
     rejects_replay (snd (run_outs validate_and_track (nonce_validator_init rw ow) ns)) = int (length ns)"
proof -
  have "seen_bounded (nonce_validator_init rw ow)"
    by (simp add: seen_bounded_def nonce_validator_init_def)
  from nonces.run_inv [OF this, of ns]
  have "length (seen_nonces (snd (run_outs validate_and_track (nonce_validator_init rw ow) ns))) \<le>
      nat (replay_window (snd (run_outs validate_and_track (nonce_validator_init rw ow) ns)))"
    by (simp add: seen_bounded_def)
  moreover have "replay_window (snd (run_outs validate_and_track v ns)) = replay_window v" for v
    by (induction ns arbitrary: v) simp_all
  ultimately show ?thesis
    using run_counters [of "nonce_validator_init rw ow" ns] by (simp add: nonce_validator_init_def)
qed

text \<open>
  Strict mode. With \<^verbatim>\<open>reorder_window_packets = 0\<close> the accepted nonces are strictly increasing and
  positive, whatever the replay window is.
\<close>

theorem validator_strict_increasing:
  "sorted_wrt (<) (0 # accepted (fst (run_outs validate_and_track (nonce_validator_init rw (Some 0)) ns)) ns)"
  using strict_accepted_sorted [of "nonce_validator_init rw (Some 0)" ns]
  by (simp add: nonce_validator_init_def)

end
