(* ===== verification/Board_Import.thy ===== *)
theory Board_Import
  imports Py_Prelude
begin

text \<open>
  How the board programs find their files and the board's \<^verbatim>\<open>pynq\<close> package. The repository has a package of the same
  name, so four modules (\<^verbatim>\<open>aes_gcm_dma.py\<close>, \<^verbatim>\<open>hdmi_capture.py\<close>, \<^verbatim>\<open>aes_seq_ctrl.py\<close>, \<^verbatim>\<open>tx_daemon.py\<close>) carry a copy of
  the same recovery: import, look for the attributes, else import again with the repository's directories
  taken off \<^verbatim>\<open>sys.path\<close>. Two of them also search a bitstream in a list of directories.

  The file system and the installed modules are the parameter \<open>py_files\<close>; the interpreter's \<^verbatim>\<open>sys.path\<close> and
  \<^verbatim>\<open>sys.modules\<close> are the state. Loading a module does not change \<^verbatim>\<open>sys.path\<close> in this model.
\<close>

section \<open>Paths\<close>

record posix_path =
  pp_abs :: bool
  pp_parts :: "string list"

fun split_slash :: "string \<Rightarrow> string list" where
  "split_slash [] = [[]]"
| "split_slash (c # cs) =
     (if c = CHR ''/'' then [] # split_slash cs
      else case split_slash cs of [] \<Rightarrow> [[c]] | w # ws \<Rightarrow> (c # w) # ws)"

definition path_of :: "string \<Rightarrow> posix_path" where
  "path_of s = \<lparr>pp_abs = (s \<noteq> [] \<and> hd s = CHR ''/''),
     pp_parts = filter (\<lambda>c. c \<noteq> [] \<and> c \<noteq> ''.'') (split_slash s)\<rparr>"

fun join_slash :: "string list \<Rightarrow> string" where
  "join_slash [] = []"
| "join_slash [w] = w"
| "join_slash (w # ws) = w @ ''/'' @ join_slash ws"

definition path_str :: "posix_path \<Rightarrow> string" where
  "path_str p = (if pp_abs p then ''/'' @ join_slash (pp_parts p)
     else if pp_parts p = [] then ''.'' else join_slash (pp_parts p))"

definition path_join :: "posix_path \<Rightarrow> posix_path \<Rightarrow> posix_path" where
  "path_join a b = (if pp_abs b then b else a\<lparr>pp_parts := pp_parts a @ pp_parts b\<rparr>)"

definition path_sub :: "posix_path \<Rightarrow> string list \<Rightarrow> posix_path" where
  "path_sub a names = foldl (\<lambda>p n. path_join p (path_of n)) a names"

definition path_parent :: "posix_path \<Rightarrow> posix_path" where
  "path_parent p = p\<lparr>pp_parts := butlast (pp_parts p)\<rparr>"

definition path_name :: "posix_path \<Rightarrow> string" where
  "path_name p = (if pp_parts p = [] then [] else last (pp_parts p))"

section \<open>The interpreter\<close>

record py_module =
  pm_attrs :: "string list"

record py_files =
  pf_cwd :: posix_path
  pf_root :: posix_path
  pf_resolve :: "posix_path \<Rightarrow> posix_path result"
  pf_exists :: "posix_path \<Rightarrow> bool"
  pf_module :: "string \<Rightarrow> string \<Rightarrow> py_module result option"

record py_interp =
  sys_path :: "string list"
  sys_modules :: "(string \<times> py_module) list"

record py_env =
  pe_files :: py_files
  pe_interp :: py_interp

text \<open>
  \<^verbatim>\<open>importlib.import_module\<close>: a cached module, else the first directory of \<^verbatim>\<open>sys.path\<close> that has one; loading it may
  raise, and only a loaded module is cached.
\<close>

fun find_module :: "py_files \<Rightarrow> string \<Rightarrow> string list \<Rightarrow> py_module result option" where
  "find_module fs name [] = None"
| "find_module fs name (p # ps) =
     (case pf_module fs p name of None \<Rightarrow> find_module fs name ps | Some r \<Rightarrow> Some r)"

definition import_module :: "py_files \<Rightarrow> string \<Rightarrow> py_interp \<Rightarrow> py_module result \<times> py_interp" where
  "import_module fs name st =
     (case map_of (sys_modules st) name of
        Some m \<Rightarrow> (Inr m, st)
      | None \<Rightarrow>
          (case find_module fs name (sys_path st) of
             None \<Rightarrow> (Inl ImportError, st)
           | Some (Inl e) \<Rightarrow> (Inl e, st)
           | Some (Inr m) \<Rightarrow> (Inr m, st\<lparr>sys_modules := AList.update name m (sys_modules st)\<rparr>)))"

definition has_attrs :: "string list \<Rightarrow> py_module \<Rightarrow> bool" where
  "has_attrs needs m \<longleftrightarrow> list_all (\<lambda>a. a \<in> set (pm_attrs m)) needs"

section \<open>The recovery\<close>

definition norm_path :: "py_files \<Rightarrow> string \<Rightarrow> string" where
  "norm_path fs p =
     (case pf_resolve fs (path_of (if p = [] then ''.'' else p)) of Inl _ \<Rightarrow> p | Inr q \<Rightarrow> path_str q)"

definition shadow_paths :: "py_files \<Rightarrow> string list result" where
  "shadow_paths fs =
     map_r (\<lambda>p. bind_r (pf_resolve fs p) (\<lambda>q. Inr (path_str q))) [pf_root fs, path_sub (pf_root fs) [''pynq'']]"

definition clean_path :: "py_files \<Rightarrow> string list \<Rightarrow> string list \<Rightarrow> string list" where
  "clean_path fs shadows ps = filter (\<lambda>p. norm_path fs p \<notin> set shadows) ps"

text \<open>The second import: the cached package is forgotten, the path shortened, and restored whatever happens.\<close>

definition reimport :: "string list \<Rightarrow> py_files \<Rightarrow> string list \<Rightarrow> py_interp \<Rightarrow> py_module result \<times> py_interp" where
  "reimport needs fs shadows st =
     (let saved = sys_path st;
          st1 = st\<lparr>sys_modules := AList.delete ''pynq'' (sys_modules st), sys_path := clean_path fs shadows saved\<rparr>
      in case import_module fs ''pynq'' st1 of
           (r, st2) \<Rightarrow>
             (bind_r r (\<lambda>m. if has_attrs needs m then Inr m else Inl RuntimeError), st2\<lparr>sys_path := saved\<rparr>))"

definition import_board :: "string list \<Rightarrow> py_files \<Rightarrow> py_interp \<Rightarrow> py_module result \<times> py_interp" where
  "import_board needs fs st =
     (case import_module fs ''pynq'' st of
        (Inl e, st1) \<Rightarrow> (Inl e, st1)
      | (Inr m, st1) \<Rightarrow>
          if has_attrs needs m then (Inr m, st1)
          else case shadow_paths fs of
            Inl e \<Rightarrow> (Inl e, st1)
          | Inr shadows \<Rightarrow> reimport needs fs shadows st1)"

text \<open>The four copies.\<close>

definition import_board_dma :: "py_files \<Rightarrow> py_interp \<Rightarrow> py_module result \<times> py_interp" where
  "import_board_dma = import_board [''Overlay'', ''allocate'']"

definition import_board_overlay :: "py_files \<Rightarrow> py_interp \<Rightarrow> py_module result \<times> py_interp" where
  "import_board_overlay = import_board [''Overlay'']"

definition import_board_seq :: "py_files \<Rightarrow> py_interp \<Rightarrow> py_module result \<times> py_interp" where
  "import_board_seq = import_board [''Overlay'', ''MMIO'']"

definition load_pynq :: "py_files \<Rightarrow> py_interp \<Rightarrow> py_module result \<times> py_interp" where
  "load_pynq = import_board [''Overlay'', ''MMIO'']"

section \<open>Searching a bitstream\<close>

text \<open>The candidates in the order of the code, resolved before the first is tried.\<close>

definition dma_candidates :: "py_files \<Rightarrow> posix_path \<Rightarrow> posix_path list" where
  "dma_candidates fs c =
     (let root = pf_root fs; sib = path_parent root
      in [path_join (pf_cwd fs) c, path_join root c,
          path_sub root [''pynq'', ''overlays'', ''tx'', path_name c],
          path_sub root [''pynq'', ''overlays'', ''rx'', path_name c],
          path_join (path_sub sib [''AES256'']) c, path_sub sib [''AES256'', path_name c],
          path_sub sib [''AES256'', ''pynq'', path_name c],
          path_join (path_sub sib [''AES-256-SystemVerilog'']) c,
          path_sub sib [''AES-256-SystemVerilog'', path_name c],
          path_sub sib [''AES-256-SystemVerilog'', ''pynq'', path_name c]])"

definition resolve_path :: "py_files \<Rightarrow> string \<Rightarrow> posix_path result" where
  "resolve_path fs value =
     (let c = path_of value
      in if pp_abs c then Inr c
         else bind_r (map_r (pf_resolve fs) (dma_candidates fs c)) (\<lambda>ps.
           case List.find (pf_exists fs) ps of
             Some p \<Rightarrow> Inr p
           | None \<Rightarrow> if path_name c = ''aes_gcm_dma_wrapper.bit''
                     then pf_resolve fs (path_sub (path_parent (pf_root fs)) [''AES256'', path_name c])
                     else pf_resolve fs (path_join (pf_root fs) c)))"

definition hdmi_candidates :: "py_files \<Rightarrow> posix_path \<Rightarrow> posix_path list" where
  "hdmi_candidates fs c =
     (let root = pf_root fs; sib = path_parent root
      in [path_join (pf_cwd fs) c, path_join root c, path_join (path_sub root [''pynq'']) c,
          path_join (path_sub sib [''AES-256-SystemVerilog'']) c,
          path_join (path_sub sib [''AES-256-SystemVerilog'', ''pynq'']) c])"

definition resolve_overlay_path :: "py_files \<Rightarrow> string option \<Rightarrow> string option result" where
  "resolve_overlay_path fs value =
     (case value of
        None \<Rightarrow> Inr None
      | Some v \<Rightarrow>
          if v = [] then Inr None
          else let c = path_of v
               in if pp_abs c then Inr (Some (path_str c))
                  else bind_r (map_r (pf_resolve fs) (hdmi_candidates fs c)) (\<lambda>ps.
                    bind_r (case List.find (pf_exists fs) ps of
                              Some p \<Rightarrow> Inr p
                            | None \<Rightarrow> pf_resolve fs (path_join (pf_root fs) c)) (\<lambda>p.
                    Inr (Some (path_str p)))))"

section \<open>The recovery keeps the path and finds the package\<close>

lemma import_module_path: "import_module fs name st = (r, st') \<Longrightarrow> sys_path st' = sys_path st"
  by (auto simp: import_module_def split: option.splits sum.splits)

lemma import_module_cached: "import_module fs name st = (Inr m, st') \<Longrightarrow> map_of (sys_modules st') name = Some m"
  by (auto simp: import_module_def split: option.splits sum.splits)

lemma reimport_path: "sys_path (snd (reimport needs fs shadows st)) = sys_path st"
  by (simp add: reimport_def Let_def split: prod.split)

lemma reimport_Inr:
  assumes "reimport needs fs shadows st = (Inr m, st')"
  shows "has_attrs needs m \<and> map_of (sys_modules st') ''pynq'' = Some m"
  using assms
  by (auto simp: reimport_def Let_def bind_r_eq_Inr split: prod.splits if_splits dest!: import_module_cached)

lemma reimport_finds:
  assumes "find_module fs ''pynq'' (clean_path fs shadows (sys_path st)) = Some (Inr m)" and "has_attrs needs m"
  shows "fst (reimport needs fs shadows st) = Inr m"
  using assms by (simp add: reimport_def Let_def import_module_def)

lemma import_board_path: "sys_path (snd (import_board needs fs st)) = sys_path st"
proof (cases "import_module fs ''pynq'' st")
  case (Pair r st1)
  note p = import_module_path [OF this]
  show ?thesis by (cases r; cases "shadow_paths fs") (simp_all add: import_board_def Pair p reimport_path)
qed

lemma import_board_Inr:
  assumes "import_board needs fs st = (Inr m, st')"
  shows "has_attrs needs m \<and> map_of (sys_modules st') ''pynq'' = Some m"
proof (cases "import_module fs ''pynq'' st")
  case (Pair r st1)
  obtain m1 where r: "r = Inr m1" using assms Pair by (cases r) (simp_all add: import_board_def)
  show ?thesis
  proof (cases "has_attrs needs m1")
    case True
    then show ?thesis using assms Pair r import_module_cached [of fs "''pynq''" st m1 st1] by (simp add: import_board_def)
  next
    case False
    then obtain shadows where "reimport needs fs shadows st1 = (Inr m, st')"
      using assms Pair r by (cases "shadow_paths fs") (simp_all add: import_board_def)
    then show ?thesis by (rule reimport_Inr)
  qed
qed

section \<open>Properties\<close>

text \<open>
  C33. Importing the board package, in each of the four copies, leaves \<^verbatim>\<open>sys.path\<close> as it was whether or not it succeeds,
  returns only a module with the attributes the caller needs, and that module is the cached one. When the
  first import gives some module, the repository's own package included, and the first directory of the
  shortened path that has a \<^verbatim>\<open>pynq\<close> has a complete one, the import succeeds.
\<close>

theorem board_import_recovers:
  "sys_path (snd (import_board needs fs st)) = sys_path st \<and>
   (\<forall>m st'. import_board needs fs st = (Inr m, st') \<longrightarrow>
      has_attrs needs m \<and> map_of (sys_modules st') ''pynq'' = Some m) \<and>
   (\<forall>m0 shadows m. fst (import_module fs ''pynq'' st) = Inr m0 \<longrightarrow> shadow_paths fs = Inr shadows \<longrightarrow>
      find_module fs ''pynq'' (clean_path fs shadows (sys_path st)) = Some (Inr m) \<longrightarrow> has_attrs needs m \<longrightarrow>
      fst (import_board needs fs st) = Inr (if has_attrs needs m0 then m0 else m))"
proof (intro conjI allI impI)
  show "sys_path (snd (import_board needs fs st)) = sys_path st" by (rule import_board_path)
next
  fix m st' assume "import_board needs fs st = (Inr m, st')"
  from import_board_Inr [OF this] show "has_attrs needs m" "map_of (sys_modules st') ''pynq'' = Some m" by simp_all
next
  fix m0 shadows m
  assume a: "fst (import_module fs ''pynq'' st) = Inr m0" "shadow_paths fs = Inr shadows"
    "find_module fs ''pynq'' (clean_path fs shadows (sys_path st)) = Some (Inr m)" "has_attrs needs m"
  obtain st1 where i: "import_module fs ''pynq'' st = (Inr m0, st1)" using a(1) by (cases "import_module fs ''pynq'' st") auto
  have "fst (reimport needs fs shadows st1) = Inr m"
    by (rule reimport_finds) (use a(3,4) import_module_path [OF i] in simp_all)
  then show "fst (import_board needs fs st) = Inr (if has_attrs needs m0 then m0 else m)"
    by (simp add: import_board_def i a(2))
qed

text \<open>A board where the repository's package shadows the installed one.\<close>

definition demo_files :: py_files where
  "demo_files = \<lparr>pf_cwd = path_of ''/home/x/os'', pf_root = path_of ''/home/x/os'', pf_resolve = Inr,
     pf_exists = (\<lambda>p. path_str p = ''/home/x/os/pynq/overlays/tx/a.bit''),
     pf_module = (\<lambda>dir name. if dir = ''/home/x/os'' then Some (Inr \<lparr>pm_attrs = []\<rparr>)
        else if dir = ''/usr/lib'' then Some (Inr \<lparr>pm_attrs = [''Overlay'', ''MMIO'', ''allocate'']\<rparr>) else None)\<rparr>"

definition demo_interp :: py_interp where
  "demo_interp = \<lparr>sys_path = [''/home/x/os'', ''/usr/lib''], sys_modules = []\<rparr>"

definition demo_py :: py_env where
  "demo_py = \<lparr>pe_files = demo_files, pe_interp = demo_interp\<rparr>"

theorem board_import_recovers_witness:
  "fst (import_board [''Overlay'', ''MMIO''] demo_files demo_interp) = Inr \<lparr>pm_attrs = [''Overlay'', ''MMIO'', ''allocate'']\<rparr> \<and>
   sys_path (snd (import_board [''Overlay'', ''MMIO''] demo_files demo_interp)) = [''/home/x/os'', ''/usr/lib'']"
proof -
  let ?m = "\<lparr>pm_attrs = [''Overlay'', ''MMIO'', ''allocate'']\<rparr>"
  have i: "fst (import_module demo_files ''pynq'' demo_interp) = Inr \<lparr>pm_attrs = []\<rparr>"
    by (simp add: import_module_def demo_files_def demo_interp_def)
  have s: "shadow_paths demo_files = Inr [''/home/x/os'', ''/home/x/os/pynq'']" by code_simp
  have "clean_path demo_files [''/home/x/os'', ''/home/x/os/pynq''] (sys_path demo_interp) = [''/usr/lib'']" by code_simp
  then have f: "find_module demo_files ''pynq'' (clean_path demo_files [''/home/x/os'', ''/home/x/os/pynq''] (sys_path demo_interp)) = Some (Inr ?m)"
    by (simp add: demo_files_def)
  have h: "has_attrs [''Overlay'', ''MMIO''] ?m" "\<not> has_attrs [''Overlay'', ''MMIO''] \<lparr>pm_attrs = []\<rparr>" by (simp_all add: has_attrs_def)
  show ?thesis
    using board_import_recovers [of "[''Overlay'', ''MMIO'']" demo_files demo_interp] i s f h by (simp add: demo_interp_def)
qed

text \<open>
  The two bitstream searches agree on every absolute path and on every relative path that exists below the working
  directory or the project root, and give an existing file in the second case.
\<close>

theorem bitstream_searches_agree:
  assumes "\<And>p. pf_resolve fs p = Inr (g p)" and "v \<noteq> []"
    and "pp_abs (path_of v) \<or> pf_exists fs (g (path_join (pf_cwd fs) (path_of v))) \<or>
       pf_exists fs (g (path_join (pf_root fs) (path_of v)))"
  shows "\<exists>p. resolve_path fs v = Inr p \<and> resolve_overlay_path fs (Some v) = Inr (Some (path_str p)) \<and>
     (pp_abs (path_of v) \<or> pf_exists fs p)"
proof (cases "pp_abs (path_of v)")
  case True
  then show ?thesis using assms(2) by (simp add: resolve_path_def resolve_overlay_path_def)
next
  case False
  have m: "map_r (pf_resolve fs) ps = Inr (map g ps)" for ps by (rule map_r_Inr) (simp add: assms(1))
  let ?a = "path_join (pf_cwd fs) (path_of v)" and ?b = "path_join (pf_root fs) (path_of v)"
  obtain xs ys where "dma_candidates fs (path_of v) = ?a # ?b # xs" "hdmi_candidates fs (path_of v) = ?a # ?b # ys"
    by (simp add: dma_candidates_def hdmi_candidates_def Let_def)
  then show ?thesis
    using False assms(2,3) by (auto simp: resolve_path_def resolve_overlay_path_def Let_def m simp del: map_r.simps)
qed

theorem bitstream_searches_agree_witness:
  "\<exists>p. resolve_path (demo_files\<lparr>pf_exists := \<lambda>_. True\<rparr>) ''a.bit'' = Inr p \<and>
     resolve_overlay_path (demo_files\<lparr>pf_exists := \<lambda>_. True\<rparr>) (Some ''a.bit'') = Inr (Some (path_str p))"
  using bitstream_searches_agree [of "demo_files\<lparr>pf_exists := \<lambda>_. True\<rparr>" id "''a.bit''"]
  by (auto simp: demo_files_def)

text \<open>
  They differ elsewhere: a file that is only in the overlay directory of the repository is found by the DMA engine
  and not by the HDMI capture, which opens a path that does not exist.
\<close>

lemma bitstream_searches_differ:
  "resolve_path demo_files ''a.bit'' = Inr (path_of ''/home/x/os/pynq/overlays/tx/a.bit'') \<and>
   resolve_overlay_path demo_files (Some ''a.bit'') = Inr (Some ''/home/x/os/a.bit'') \<and>
   \<not> pf_exists demo_files (path_of ''/home/x/os/a.bit'')"
proof -
  have 1: "resolve_path demo_files ''a.bit'' = Inr (path_of ''/home/x/os/pynq/overlays/tx/a.bit'')" by code_simp
  have 2: "resolve_overlay_path demo_files (Some ''a.bit'') = Inr (Some ''/home/x/os/a.bit'')" by code_simp
  have "\<not> pf_exists demo_files (path_of ''/home/x/os/a.bit'')" by code_simp
  with 1 2 show ?thesis by blast
qed

end
