(* ===== verification/Aes_Dma.thy ===== *)
theory Aes_Dma
  imports Board_Import Complex_Main
begin

text \<open>
  \<^verbatim>\<open>pynq/runtime/aes_gcm_dma.py\<close>: the driver of the AES-GCM core behind an AXI DMA. The core, the DMA
  and the clock are hardware: they are a parameter, a record of the accesses the driver makes
  (\<^verbatim>\<open>_aes.read\<close>, \<^verbatim>\<open>_aes.write\<close>, \<^verbatim>\<open>perf_counter\<close>, \<^verbatim>\<open>allocate\<close> and the calls on the two DMA channels, which may raise
  and whose waits may never return) over an arbitrary device state. Time is an integer in a unit shared with
  \<^verbatim>\<open>timeout_s\<close>.

  A driver operation is a function from engine and device to a result with the new engine and
  device, under \<open>option\<close>: \<open>None\<close> is a polling loop or a DMA wait that never ends. The lemmas show that every polling
  loop ends when the clock does not stand still forever, that the error branches touch no hardware, exactly which
  commands a call gives the core, and that a result is returned only when no drop flag is set.
\<close>

section \<open>Register map\<close>

definition CTRL :: int where "CTRL = 0x00"
definition STATUS :: int where "STATUS = 0x04"
definition KEY_BASE :: int where "KEY_BASE = 0x08"
definition NONCE_BASE :: int where "NONCE_BASE = 0x28"
definition AAD_LEN_HI :: int where "AAD_LEN_HI = 0x34"
definition AAD_LEN_LO :: int where "AAD_LEN_LO = 0x38"
definition PT_LEN_HI :: int where "PT_LEN_HI = 0x3C"
definition PT_LEN_LO :: int where "PT_LEN_LO = 0x40"
definition AAD_BASE :: int where "AAD_BASE = 0x44"
definition TAG_BASE :: int where "TAG_BASE = 0x88"

definition CTRL_LOAD_KEY :: int where "CTRL_LOAD_KEY = push_bit 1 1"
definition CTRL_START_SESSION :: int where "CTRL_START_SESSION = push_bit 2 1"
definition CTRL_PUSH_AAD :: int where "CTRL_PUSH_AAD = push_bit 3 1"
definition CTRL_AAD_LAST :: int where "CTRL_AAD_LAST = push_bit 4 1"
definition CTRL_SET_STREAM :: int where "CTRL_SET_STREAM = push_bit 7 1"

definition STS_KEYS_READY_MASK :: int where "STS_KEYS_READY_MASK = 0xF"
definition STS_SESSION_READY :: int where "STS_SESSION_READY = push_bit 4 1"
definition STS_AAD_READY :: int where "STS_AAD_READY = push_bit 5 1"
definition STS_H_VALID :: int where "STS_H_VALID = push_bit 8 1"
definition STS_TAG_VALID :: int where "STS_TAG_VALID = push_bit 12 1"
definition STS_AAD_DROP :: int where "STS_AAD_DROP = push_bit 13 1"
definition STS_PT_DROP :: int where "STS_PT_DROP = push_bit 14 1"
definition STS_SESSION_DROP :: int where "STS_SESSION_DROP = push_bit 15 1"
definition STS_STREAM_MODE :: int where "STS_STREAM_MODE = push_bit 17 1"
definition STS_CT_FIFO_OVERFLOW :: int where "STS_CT_FIFO_OVERFLOW = push_bit 18 1"

section \<open>Engine and hardware\<close>

text \<open>
  The DMA side: allocating a buffer, starting a transfer on a channel, waiting for a channel, and the contents of the
  receive buffer of a given length after \<^verbatim>\<open>invalidate\<close>.
\<close>

record 'd dma_io =
  io_alloc :: "nat \<Rightarrow> 'd \<Rightarrow> unit result \<times> 'd"
  io_recv :: "nat \<Rightarrow> 'd \<Rightarrow> unit result \<times> 'd"
  io_send :: "bytes \<Rightarrow> 'd \<Rightarrow> unit result \<times> 'd"
  io_send_wait :: "'d \<Rightarrow> (unit result \<times> 'd) option"
  io_recv_wait :: "'d \<Rightarrow> (unit result \<times> 'd) option"
  io_rx :: "nat \<Rightarrow> 'd \<Rightarrow> nat \<Rightarrow> 8 word"

text \<open>A DMA where every call succeeds at once and the receive buffer stays zero.\<close>

definition idle_dma :: "'d dma_io" where
  "idle_dma = \<lparr>io_alloc = (\<lambda>_ d. (Inr (), d)), io_recv = (\<lambda>_ d. (Inr (), d)), io_send = (\<lambda>_ d. (Inr (), d)),
     io_send_wait = (\<lambda>d. Some (Inr (), d)), io_recv_wait = (\<lambda>d. Some (Inr (), d)), io_rx = (\<lambda>_ _ _. 0)\<rparr>"

record 'd hw =
  hw_read :: "int \<Rightarrow> 'd \<Rightarrow> int \<times> 'd"
  hw_write :: "int \<Rightarrow> int \<Rightarrow> 'd \<Rightarrow> 'd"
  hw_clock :: "'d \<Rightarrow> int \<times> 'd"
  hw_dma :: "'d dma_io"

record dma_engine =
  de_key :: bytes
  de_timeout :: int
  de_decrypt_supported :: bool
  de_loaded :: bool
  de_stream_mode_enabled :: bool
  de_key_loaded :: bool
  de_buffer_pairs :: "int list"
  de_encrypt_calls :: int
  de_encrypt_bytes_in :: int
  de_encrypt_total :: int
  de_control_total :: int
  de_dma_transfer_total :: int
  de_tag_wait_total :: int
  de_session_start_count :: int
  de_key_load_count :: int

text \<open>\<^verbatim>\<open>AesGcmDmaEngine.__init__\<close> on the decoded key.\<close>

definition dma_engine_init :: "bytes \<Rightarrow> int \<Rightarrow> bool \<Rightarrow> dma_engine result" where
  "dma_engine_init key timeout dec =
     (if length key \<noteq> 32 then Inl ValueError
      else Inr \<lparr>de_key = key, de_timeout = timeout, de_decrypt_supported = dec, de_loaded = False,
        de_stream_mode_enabled = False, de_key_loaded = False, de_buffer_pairs = [],
        de_encrypt_calls = 0, de_encrypt_bytes_in = 0, de_encrypt_total = 0, de_control_total = 0,
        de_dma_transfer_total = 0, de_tag_wait_total = 0, de_session_start_count = 0,
        de_key_load_count = 0\<rparr>)"

text \<open>
  \<^verbatim>\<open>load\<close>: the bitstream is searched, the board's package imported, and the overlay loaded; the parameter
  \<open>overlay\<close> gives the IP instances of an overlay file, or the exception of loading it.
\<close>

definition dma_load :: "py_env \<Rightarrow> (string \<Rightarrow> string list result) \<Rightarrow> string \<Rightarrow> dma_engine \<Rightarrow> dma_engine result" where
  "dma_load pe overlay bitstream_path e =
     bind_r (resolve_path (pe_files pe) bitstream_path) (\<lambda>bitstream.
       if \<not> pf_exists (pe_files pe) bitstream then Inl FileNotFoundError
       else case fst (import_board_dma (pe_files pe) (pe_interp pe)) of
         Inl _ \<Rightarrow> Inl RuntimeError
       | Inr _ \<Rightarrow> bind_r (overlay (path_str bitstream)) (\<lambda>ips.
           if ''aes_gcm_0'' \<notin> set ips then Inl RuntimeError
           else if ''axi_dma_0'' \<notin> set ips then Inl RuntimeError
           else Inr (e\<lparr>de_stream_mode_enabled := False, de_key_loaded := False, de_loaded := True\<rparr>)))"

type_synonym ('a, 'd) drv = "dma_engine \<times> 'd \<Rightarrow> ('a result \<times> dma_engine \<times> 'd) option"

definition ret :: "'a \<Rightarrow> ('a, 'd) drv" where
  "ret x s = Some (Inr x, s)"

definition raise_d :: "py_error \<Rightarrow> ('a, 'd) drv" where
  "raise_d e s = Some (Inl e, s)"

definition seq_d :: "('a, 'd) drv \<Rightarrow> ('a \<Rightarrow> ('b, 'd) drv) \<Rightarrow> ('b, 'd) drv" where
  "seq_d m f s =
     (case m s of None \<Rightarrow> None | Some (Inl e, s') \<Rightarrow> Some (Inl e, s') | Some (Inr x, s') \<Rightarrow> f x s')"

definition get_engine :: "(dma_engine, 'd) drv" where
  "get_engine s = Some (Inr (fst s), s)"

definition upd_engine :: "(dma_engine \<Rightarrow> dma_engine) \<Rightarrow> (unit, 'd) drv" where
  "upd_engine f s = Some (Inr (), (f (fst s), snd s))"

definition reg_read :: "'d hw \<Rightarrow> int \<Rightarrow> (int, 'd) drv" where
  "reg_read hw a s = Some (Inr (fst (hw_read hw a (snd s))), (fst s, snd (hw_read hw a (snd s))))"

definition reg_write :: "'d hw \<Rightarrow> int \<Rightarrow> int \<Rightarrow> (unit, 'd) drv" where
  "reg_write hw a v s = Some (Inr (), (fst s, hw_write hw a v (snd s)))"

definition clock :: "'d hw \<Rightarrow> (int, 'd) drv" where
  "clock hw s = Some (Inr (fst (hw_clock hw (snd s))), (fst s, snd (hw_clock hw (snd s))))"

section \<open>Operations\<close>

definition pad_to_block :: "bytes \<Rightarrow> bytes" where
  "pad_to_block val =
     (if val = [] then val
      else let remainder = length val mod 16
           in if remainder = 0 then val else val @ replicate (16 - remainder) 0)"

definition status :: "'d hw \<Rightarrow> (int, 'd) drv" where
  "status hw = reg_read hw STATUS"

partial_function (option) wait_loop ::
  "'d hw \<Rightarrow> (int \<Rightarrow> bool) \<Rightarrow> int \<Rightarrow> int \<Rightarrow> dma_engine \<times> 'd \<Rightarrow> (unit result \<times> dma_engine \<times> 'd) option" where
  "wait_loop hw cond t0 timeout s =
     (let (st, d1) = hw_read hw STATUS (snd s)
      in if cond st then Some (Inr (), (fst s, d1))
         else let (t, d2) = hw_clock hw d1
              in if t - t0 > timeout
                 then Some (Inl TimeoutError, (fst s, snd (hw_read hw STATUS d2)))
                 else wait_loop hw cond t0 timeout (fst s, d2))"

definition wait_until :: "'d hw \<Rightarrow> (int \<Rightarrow> bool) \<Rightarrow> (unit, 'd) drv" where
  "wait_until hw cond =
     seq_d get_engine (\<lambda>e. seq_d (clock hw) (\<lambda>t0. wait_loop hw cond t0 (de_timeout e)))"

fun write_words :: "'d hw \<Rightarrow> int \<Rightarrow> bytes list \<Rightarrow> (unit, 'd) drv" where
  "write_words hw addr [] = ret ()"
| "write_words hw addr (w # ws) =
     seq_d (reg_write hw addr (from_bytes_be w)) (\<lambda>_. write_words hw (addr + 4) ws)"

definition word_slices :: "nat \<Rightarrow> bytes \<Rightarrow> bytes list" where
  "word_slices n bs = map (\<lambda>i. slice (i * 4) ((i + 1) * 4) bs) [0..<n]"

definition write_block :: "'d hw \<Rightarrow> int \<Rightarrow> bytes \<Rightarrow> (unit, 'd) drv" where
  "write_block hw base block16 =
     (if length block16 \<noteq> 16 then raise_d ValueError
      else write_words hw base (word_slices 4 block16))"

text \<open>\<^verbatim>\<open>word.to_bytes(4)\<close> raises if the register read is not a 32-bit value.\<close>

fun read_words :: "'d hw \<Rightarrow> int \<Rightarrow> nat \<Rightarrow> (bytes, 'd) drv" where
  "read_words hw addr 0 = ret []"
| "read_words hw addr (Suc n) =
     seq_d (reg_read hw addr) (\<lambda>w.
       case to_bytes_be 4 w of
         Inl e \<Rightarrow> raise_d e
       | Inr bs \<Rightarrow> seq_d (read_words hw (addr + 4) n) (\<lambda>rest. ret (bs @ rest)))"

definition read_block :: "'d hw \<Rightarrow> int \<Rightarrow> (bytes, 'd) drv" where
  "read_block hw base = read_words hw base 4"

definition write_key :: "'d hw \<Rightarrow> bytes \<Rightarrow> (unit, 'd) drv" where
  "write_key hw key = write_words hw KEY_BASE (word_slices 8 key)"

definition write_nonce :: "'d hw \<Rightarrow> bytes \<Rightarrow> (unit, 'd) drv" where
  "write_nonce hw nonce12 = write_words hw NONCE_BASE (word_slices 3 nonce12)"

definition write_lengths :: "'d hw \<Rightarrow> int \<Rightarrow> int \<Rightarrow> (unit, 'd) drv" where
  "write_lengths hw aad_len_bits pt_len_bits =
     seq_d (reg_write hw AAD_LEN_HI (drop_bit 32 aad_len_bits AND 0xFFFFFFFF)) (\<lambda>_.
     seq_d (reg_write hw AAD_LEN_LO (aad_len_bits AND 0xFFFFFFFF)) (\<lambda>_.
     seq_d (reg_write hw PT_LEN_HI (drop_bit 32 pt_len_bits AND 0xFFFFFFFF)) (\<lambda>_.
     reg_write hw PT_LEN_LO (pt_len_bits AND 0xFFFFFFFF))))"

definition set_stream_mode :: "'d hw \<Rightarrow> bool \<Rightarrow> (unit, 'd) drv" where
  "set_stream_mode hw enable =
     seq_d (reg_write hw CTRL CTRL_SET_STREAM) (\<lambda>_.
       if enable then wait_until hw (\<lambda>s. s AND STS_STREAM_MODE \<noteq> 0) else ret ())"

definition ensure_stream_mode_enabled :: "'d hw \<Rightarrow> (unit, 'd) drv" where
  "ensure_stream_mode_enabled hw =
     seq_d get_engine (\<lambda>e. if de_stream_mode_enabled e then ret ()
       else seq_d (set_stream_mode hw True) (\<lambda>_.
         upd_engine (\<lambda>e. e\<lparr>de_stream_mode_enabled := True\<rparr>)))"

definition load_key_and_wait :: "'d hw \<Rightarrow> (unit, 'd) drv" where
  "load_key_and_wait hw =
     seq_d (reg_write hw CTRL CTRL_LOAD_KEY) (\<lambda>_.
     seq_d (wait_until hw (\<lambda>s. s AND STS_KEYS_READY_MASK = STS_KEYS_READY_MASK)) (\<lambda>_.
     wait_until hw (\<lambda>s. s AND STS_H_VALID \<noteq> 0)))"

definition ensure_key_loaded :: "'d hw \<Rightarrow> (unit, 'd) drv" where
  "ensure_key_loaded hw =
     seq_d get_engine (\<lambda>e. if de_key_loaded e then ret ()
       else seq_d (write_key hw (de_key e)) (\<lambda>_.
         seq_d (load_key_and_wait hw) (\<lambda>_.
         upd_engine (\<lambda>e. e\<lparr>de_key_loaded := True, de_key_load_count := de_key_load_count e + 1\<rparr>))))"

definition start_session_and_wait_ready :: "'d hw \<Rightarrow> (unit, 'd) drv" where
  "start_session_and_wait_ready hw =
     seq_d (wait_until hw (\<lambda>s. s AND STS_SESSION_READY \<noteq> 0)) (\<lambda>_.
     seq_d (reg_write hw CTRL CTRL_START_SESSION) (\<lambda>_.
     seq_d (status hw) (\<lambda>s.
       if s AND STS_SESSION_DROP \<noteq> 0 then raise_d RuntimeError else ret ())))"

definition push_aad_block :: "'d hw \<Rightarrow> bytes \<Rightarrow> bool \<Rightarrow> (unit, 'd) drv" where
  "push_aad_block hw block is_last =
     seq_d (wait_until hw (\<lambda>s. s AND STS_AAD_READY \<noteq> 0)) (\<lambda>_.
     seq_d (write_block hw AAD_BASE block) (\<lambda>_.
     reg_write hw CTRL (CTRL_PUSH_AAD OR (if is_last then CTRL_AAD_LAST else 0))))"

fun push_aad_blocks :: "'d hw \<Rightarrow> bytes \<Rightarrow> nat \<Rightarrow> nat list \<Rightarrow> (unit, 'd) drv" where
  "push_aad_blocks hw padded n [] = ret ()"
| "push_aad_blocks hw padded n (i # is) =
     seq_d (push_aad_block hw (slice (i * 16) (i * 16 + 16) padded) (i = n - 1)) (\<lambda>_.
     push_aad_blocks hw padded n is)"

definition dma_call :: "('d \<Rightarrow> unit result \<times> 'd) \<Rightarrow> (unit, 'd) drv" where
  "dma_call f s = Some (fst (f (snd s)), (fst s, snd (f (snd s))))"

definition dma_wait :: "('d \<Rightarrow> (unit result \<times> 'd) option) \<Rightarrow> (unit, 'd) drv" where
  "dma_wait f s = map_option (\<lambda>(r, d). (r, (fst s, d))) (f (snd s))"

text \<open>The pool has one pair of buffers per length; a pair enters it when both allocations have succeeded.\<close>

definition get_dma_buffers :: "'d hw \<Rightarrow> nat \<Rightarrow> (unit, 'd) drv" where
  "get_dma_buffers hw payload_len =
     seq_d get_engine (\<lambda>e.
       if int payload_len \<in> set (de_buffer_pairs e) then ret ()
       else seq_d (dma_call (io_alloc (hw_dma hw) payload_len)) (\<lambda>_.
            seq_d (dma_call (io_alloc (hw_dma hw) payload_len)) (\<lambda>_.
            upd_engine (\<lambda>e. e\<lparr>de_buffer_pairs := de_buffer_pairs e @ [int payload_len]\<rparr>))))"

definition read_rx :: "'d hw \<Rightarrow> nat \<Rightarrow> (bytes, 'd) drv" where
  "read_rx hw n s = Some (Inr (map (io_rx (hw_dma hw) n (snd s)) [0..<n]), s)"

definition stream_pt_collect_ct_dma :: "'d hw \<Rightarrow> bytes \<Rightarrow> (bytes, 'd) drv" where
  "stream_pt_collect_ct_dma hw pt =
     seq_d (get_dma_buffers hw (length pt)) (\<lambda>_.
     seq_d (dma_call (io_recv (hw_dma hw) (length pt))) (\<lambda>_.
     seq_d (dma_call (io_send (hw_dma hw) pt)) (\<lambda>_.
     seq_d (dma_wait (io_send_wait (hw_dma hw))) (\<lambda>_.
     seq_d (dma_wait (io_recv_wait (hw_dma hw))) (\<lambda>_.
     read_rx hw (length pt))))))"

definition wait_tag :: "'d hw \<Rightarrow> (bytes, 'd) drv" where
  "wait_tag hw =
     seq_d (wait_until hw (\<lambda>s. s AND STS_TAG_VALID \<noteq> 0)) (\<lambda>_. read_block hw TAG_BASE)"

definition assert_no_drops :: "'d hw \<Rightarrow> (unit, 'd) drv" where
  "assert_no_drops hw =
     seq_d (status hw) (\<lambda>s.
       if s AND STS_AAD_DROP \<noteq> 0 then raise_d RuntimeError
       else if s AND STS_PT_DROP \<noteq> 0 then raise_d RuntimeError
       else if s AND STS_SESSION_DROP \<noteq> 0 then raise_d RuntimeError
       else if s AND STS_CT_FIFO_OVERFLOW \<noteq> 0 then raise_d RuntimeError
       else ret ())"

definition require_loaded :: "(unit, 'd) drv" where
  "require_loaded = seq_d get_engine (\<lambda>e. if \<not> de_loaded e then raise_d RuntimeError else ret ())"

text \<open>The second half of \<^verbatim>\<open>encrypt\<close>: the DMA transfer, the tag, the drop check and the statistics.\<close>

definition dma_finish :: "'d hw \<Rightarrow> bytes \<Rightarrow> int \<Rightarrow> (bytes \<times> bytes, 'd) drv" where
  "dma_finish hw plaintext call_start =
     (let padded_plaintext = pad_to_block plaintext in
     seq_d (clock hw) (\<lambda>dma_start.
     seq_d (stream_pt_collect_ct_dma hw padded_plaintext) (\<lambda>rx.
     let ciphertext = take (length plaintext) rx in
     seq_d (clock hw) (\<lambda>dma_end.
     seq_d (clock hw) (\<lambda>tag_start.
     seq_d (wait_tag hw) (\<lambda>tag.
     seq_d (clock hw) (\<lambda>tag_end.
     seq_d (assert_no_drops hw) (\<lambda>_.
     seq_d (clock hw) (\<lambda>call_end.
     let total_elapsed = call_end - call_start; dma_elapsed = dma_end - dma_start;
         tag_elapsed = tag_end - tag_start in
     seq_d (upd_engine (\<lambda>e. e\<lparr>de_encrypt_calls := de_encrypt_calls e + 1,
         de_encrypt_bytes_in := de_encrypt_bytes_in e + int (length plaintext),
         de_encrypt_total := de_encrypt_total e + total_elapsed,
         de_dma_transfer_total := de_dma_transfer_total e + dma_elapsed,
         de_tag_wait_total := de_tag_wait_total e + tag_elapsed,
         de_control_total := de_control_total e + max 0 (total_elapsed - dma_elapsed)\<rparr>)) (\<lambda>_.
     ret (ciphertext, tag)))))))))))"

definition dma_encrypt :: "'d hw \<Rightarrow> bytes \<Rightarrow> bytes \<Rightarrow> bytes \<Rightarrow> (bytes \<times> bytes, 'd) drv" where
  "dma_encrypt hw nonce aad plaintext =
     seq_d require_loaded (\<lambda>_.
     seq_d (clock hw) (\<lambda>call_start.
     if length nonce \<noteq> 12 then raise_d ValueError
     else if plaintext = [] then raise_d ValueError
     else
     seq_d (ensure_stream_mode_enabled hw) (\<lambda>_.
     seq_d (ensure_key_loaded hw) (\<lambda>_.
     let padded_aad = pad_to_block aad in
     seq_d (write_nonce hw nonce) (\<lambda>_.
     seq_d (write_lengths hw (int (length aad) * 8) (int (length plaintext) * 8)) (\<lambda>_.
     seq_d (start_session_and_wait_ready hw) (\<lambda>_.
     seq_d (upd_engine (\<lambda>e. e\<lparr>de_session_start_count := de_session_start_count e + 1\<rparr>)) (\<lambda>_.
     let aad_blocks = (if length aad > 0 then max 1 (length padded_aad div 16) else 0) in
     seq_d (push_aad_blocks hw padded_aad aad_blocks [0..<aad_blocks]) (\<lambda>_.
     dma_finish hw plaintext call_start)))))))))"

definition dma_decrypt :: "bytes \<Rightarrow> bytes \<Rightarrow> bytes \<Rightarrow> bytes \<Rightarrow> (bytes, 'd) drv" where
  "dma_decrypt nonce aad ciphertext tag =
     seq_d require_loaded (\<lambda>_.
     seq_d get_engine (\<lambda>e.
       if \<not> de_decrypt_supported e then raise_d RuntimeError else raise_d NotImplementedError))"

definition dma_close :: "dma_engine \<Rightarrow> dma_engine" where
  "dma_close e = e\<lparr>de_buffer_pairs := []\<rparr>"

definition reset_performance_stats :: "dma_engine \<Rightarrow> dma_engine" where
  "reset_performance_stats e = e\<lparr>de_encrypt_calls := 0, de_encrypt_bytes_in := 0,
     de_encrypt_total := 0, de_control_total := 0, de_dma_transfer_total := 0,
     de_tag_wait_total := 0, de_session_start_count := 0, de_key_load_count := 0\<rparr>"

text \<open>\<^verbatim>\<open>performance_stats\<close>: counters and averages as exact fractions; times are in the clock's unit.\<close>

definition avg_ms :: "int \<Rightarrow> int \<Rightarrow> rat" where
  "avg_ms tot calls = (if calls > 0 then of_int tot / of_int calls * 1000 else 0)"

definition performance_stats :: "dma_engine \<Rightarrow> (string \<times> rat) list" where
  "performance_stats e =
     [(''encrypt_calls'', of_int (de_encrypt_calls e)), (''encrypt_bytes_in'', of_int (de_encrypt_bytes_in e)),
      (''encrypt_total_s'', of_int (de_encrypt_total e)), (''dma_transfer_total_s'', of_int (de_dma_transfer_total e)),
      (''control_total_s'', of_int (de_control_total e)), (''tag_wait_total_s'', of_int (de_tag_wait_total e)),
      (''avg_encrypt_ms'', avg_ms (de_encrypt_total e) (de_encrypt_calls e)),
      (''avg_dma_ms'', avg_ms (de_dma_transfer_total e) (de_encrypt_calls e)),
      (''avg_control_ms'', avg_ms (de_control_total e) (de_encrypt_calls e)),
      (''avg_tag_wait_ms'', avg_ms (de_tag_wait_total e) (de_encrypt_calls e)),
      (''session_starts'', of_int (de_session_start_count e)), (''key_loads'', of_int (de_key_load_count e)),
      (''buffer_pool_entries'', of_int (int (length (de_buffer_pairs e))))]"

lemma performance_stats_average:
  assumes "0 < de_encrypt_calls e"
  shows "\<exists>a. map_of (performance_stats e) ''avg_encrypt_ms'' = Some a \<and>
     a * of_int (de_encrypt_calls e) = 1000 * of_int (de_encrypt_total e)"
  using assms by (simp add: performance_stats_def avg_ms_def)

lemma performance_stats_reset:
  "list_all (\<lambda>(n, v). n = ''buffer_pool_entries'' \<or> v = 0) (performance_stats (reset_performance_stats e))"
  by (simp add: performance_stats_def reset_performance_stats_def avg_ms_def)

section \<open>Termination\<close>

text \<open>
  The clock as the code relies on it: a reading gives the time, which neither a reading nor a register access moves
  back. A reading need not move it forward, but no value is read forever: \<open>stall\<close> bounds how many more readings may
  give the present time. The two DMA waits have no timeout, so that they return is a condition of its own.
\<close>

definition clock_runs :: "'d hw \<Rightarrow> ('d \<Rightarrow> int) \<Rightarrow> ('d \<Rightarrow> nat) \<Rightarrow> bool" where
  "clock_runs hw now stall \<longleftrightarrow>
     (\<forall>d. fst (hw_clock hw d) = now d) \<and>
     (\<forall>d. now d < now (snd (hw_clock hw d)) \<or>
        now d = now (snd (hw_clock hw d)) \<and> stall (snd (hw_clock hw d)) < stall d) \<and>
     (\<forall>a d. now d < now (snd (hw_read hw a d)) \<or>
        now d = now (snd (hw_read hw a d)) \<and> stall (snd (hw_read hw a d)) \<le> stall d)"

definition dma_waits_return :: "'d hw \<Rightarrow> bool" where
  "dma_waits_return hw \<longleftrightarrow> (\<forall>d. io_send_wait (hw_dma hw) d \<noteq> None \<and> io_recv_wait (hw_dma hw) d \<noteq> None)"

named_theorems drv_total_intros

definition drv_total :: "('a, 'd) drv \<Rightarrow> bool" where
  "drv_total m \<longleftrightarrow> (\<forall>s. m s \<noteq> None)"

lemma clock_runs_turn:
  assumes "clock_runs hw now stall" "hw_read hw STATUS d = (st, d1)" "hw_clock hw d1 = (t, d2)"
  shows "t = now d1" "now d \<le> t" "now d < now d2 \<or> now d = now d2 \<and> stall d2 < stall d"
proof -
  have c: "t = now d1" "now d1 < now d2 \<or> now d1 = now d2 \<and> stall d2 < stall d1"
    using assms(1,3) unfolding clock_runs_def by (metis fst_conv, metis snd_conv)
  have r: "now d < now d1 \<or> now d = now d1 \<and> stall d1 \<le> stall d"
    using assms(1,2) unfolding clock_runs_def by (metis snd_conv)
  show "t = now d1" by (rule c(1))
  show "now d \<le> t" using c(1) r by auto
  show "now d < now d2 \<or> now d = now d2 \<and> stall d2 < stall d" using c(2) r by auto
qed

lemma wait_loop_total:
  assumes "clock_runs hw now stall"
  shows "\<exists>r d'. wait_loop hw cond t0 timeout (e, d) = Some (r, e, d') \<and> (r = Inr () \<or> r = Inl TimeoutError)"
proof (induction d rule: wf_induct_rule [OF wf_measures [of "[\<lambda>d. nat (t0 + timeout + 1 - now d), stall]"]])
  case (1 d)
  obtain st d1 where r: "hw_read hw STATUS d = (st, d1)" by (cases "hw_read hw STATUS d")
  obtain t d2 where c: "hw_clock hw d1 = (t, d2)" by (cases "hw_clock hw d1")
  note turn = clock_runs_turn [OF assms r c]
  note unf = wait_loop.simps [of hw cond t0 timeout "(e, d)"]
  consider "cond st" | "\<not> cond st" "t - t0 > timeout" | "\<not> cond st" "\<not> t - t0 > timeout" by blast
  then show ?case
  proof cases
    case 1
    then show ?thesis unfolding unf by (simp add: r)
  next
    case 2
    then show ?thesis unfolding unf by (simp add: r c)
  next
    case 3
    then have "(d2, d) \<in> measures [\<lambda>d. nat (t0 + timeout + 1 - now d), stall]" using turn by auto
    from "1.IH" [OF this] 3 show ?thesis unfolding unf by (simp add: r c)
  qed
qed

lemma drv_total_basic [drv_total_intros]:
  "drv_total (ret x)" "drv_total (raise_d e)" "drv_total get_engine" "drv_total (upd_engine f)"
  "drv_total (reg_read hw a)" "drv_total (reg_write hw a v)" "drv_total (clock hw)" "drv_total (dma_call g)"
  "drv_total (read_rx hw n)"
  by (simp_all add: drv_total_def ret_def raise_d_def get_engine_def upd_engine_def reg_read_def
      reg_write_def clock_def dma_call_def read_rx_def)

lemma drv_total_seq [drv_total_intros]:
  assumes "drv_total m" and "\<And>x. drv_total (f x)"
  shows "drv_total (seq_d m f)"
  using assms unfolding drv_total_def seq_d_def
  by (fastforce split: option.split sum.split prod.split)

lemma drv_total_if [drv_total_intros]: "drv_total a \<Longrightarrow> drv_total b \<Longrightarrow> drv_total (if c then a else b)"
  by simp

lemma drv_total_Let [drv_total_intros]: "(\<And>x. drv_total (f x)) \<Longrightarrow> drv_total (let x = v in f x)"
  by simp

lemma drv_total_wait [drv_total_intros]:
  assumes "clock_runs hw now stall"
  shows "drv_total (wait_until hw cond)"
proof -
  have "drv_total (wait_loop hw cond t0 timeout)" for t0 timeout
    using wait_loop_total [OF assms, of cond t0 timeout] by (fastforce simp: drv_total_def)
  then show ?thesis unfolding wait_until_def by (intro drv_total_intros)
qed

lemma drv_total_write_words [drv_total_intros]: "drv_total (write_words hw a ws)"
  by (induction ws arbitrary: a) (auto intro: drv_total_intros)

lemma drv_total_read_words [drv_total_intros]: "drv_total (read_words hw a n)"
proof (induction n arbitrary: a)
  case (Suc n)
  have "drv_total (case to_bytes_be 4 w of Inl e \<Rightarrow> raise_d e
      | Inr bs \<Rightarrow> seq_d (read_words hw (a + 4) n) (\<lambda>rest. ret (bs @ rest)))" for w
    using Suc by (auto intro!: drv_total_intros split: sum.split)
  then show ?case by (auto intro!: drv_total_intros)
qed (simp add: drv_total_intros)

lemma drv_total_dma:
  assumes "dma_waits_return hw"
  shows "drv_total (stream_pt_collect_ct_dma hw pt)"
proof -
  have "drv_total (dma_wait (io_send_wait (hw_dma hw)))" "drv_total (dma_wait (io_recv_wait (hw_dma hw)))"
    using assms by (simp_all add: drv_total_def dma_wait_def dma_waits_return_def)
  then show ?thesis unfolding stream_pt_collect_ct_dma_def get_dma_buffers_def by (intro drv_total_intros)
qed

lemma drv_total_push_aad [drv_total_intros]:
  assumes "clock_runs hw now stall"
  shows "drv_total (push_aad_blocks hw padded n is)"
proof (induction "is")
  case (Cons i "is")
  have "drv_total (push_aad_block hw b l)" for b l
    unfolding push_aad_block_def write_block_def
    by (intro drv_total_intros drv_total_wait [OF assms])
  with Cons show ?case by (auto intro!: drv_total_intros)
qed (simp add: drv_total_intros)

lemmas driver_defs =
  ensure_stream_mode_enabled_def set_stream_mode_def ensure_key_loaded_def write_key_def
  load_key_and_wait_def write_nonce_def write_lengths_def start_session_and_wait_ready_def status_def
  wait_tag_def read_block_def assert_no_drops_def require_loaded_def dma_finish_def

lemma dma_encrypt_total:
  assumes "clock_runs hw now stall" "dma_waits_return hw"
  shows "drv_total (dma_encrypt hw nonce aad pt)"
  unfolding dma_encrypt_def driver_defs
  by (intro drv_total_intros drv_total_wait [OF assms(1)] drv_total_push_aad [OF assms(1)] drv_total_dma [OF assms(2)])

section \<open>What a successful call guarantees\<close>

definition drv_post :: "(dma_engine \<times> 'd \<Rightarrow> bool) \<Rightarrow> ('a, 'd) drv \<Rightarrow> ('a \<Rightarrow> dma_engine \<times> 'd \<Rightarrow> bool) \<Rightarrow> bool" where
  "drv_post P m Q \<longleftrightarrow> (\<forall>s x s'. P s \<longrightarrow> m s = Some (Inr x, s') \<longrightarrow> Q x s')"

lemma drv_postI: "(\<And>s x s'. P s \<Longrightarrow> m s = Some (Inr x, s') \<Longrightarrow> Q x s') \<Longrightarrow> drv_post P m Q"
  by (simp add: drv_post_def)

lemma seq_d_Inr:
  "seq_d m f s = Some (Inr y, s') \<longleftrightarrow> (\<exists>x s1. m s = Some (Inr x, s1) \<and> f x s1 = Some (Inr y, s'))"
  by (auto simp: seq_d_def split: option.splits sum.splits prod.splits)

lemma drv_post_seq:
  "drv_post P m R \<Longrightarrow> (\<And>x. drv_post (R x) (f x) Q) \<Longrightarrow> drv_post P (seq_d m f) Q"
  unfolding drv_post_def seq_d_Inr by blast

lemma drv_post_weaken: "drv_post P m R \<Longrightarrow> (\<And>x s. R x s \<Longrightarrow> Q x s) \<Longrightarrow> drv_post P m Q"
  by (auto simp: drv_post_def)

named_theorems drv_keeps_intros

text \<open>The calls that leave the engine's own fields alone.\<close>

definition drv_keeps :: "('a, 'd) drv \<Rightarrow> bool" where
  "drv_keeps m \<longleftrightarrow> (\<forall>s x s'. m s = Some (Inr x, s') \<longrightarrow> fst s' = fst s)"

lemma drv_keeps_basic [drv_keeps_intros]:
  "drv_keeps (ret x)" "drv_keeps (raise_d e)" "drv_keeps get_engine"
  "drv_keeps (reg_read hw a)" "drv_keeps (reg_write hw a v)" "drv_keeps (clock hw)" "drv_keeps (dma_call f)"
  "drv_keeps (dma_wait g)" "drv_keeps (read_rx hw n)"
  by (auto simp: drv_keeps_def ret_def raise_d_def get_engine_def reg_read_def reg_write_def clock_def dma_call_def
      dma_wait_def read_rx_def)

lemma drv_keeps_seq [drv_keeps_intros]:
  "drv_keeps m \<Longrightarrow> (\<And>x. drv_keeps (f x)) \<Longrightarrow> drv_keeps (seq_d m f)"
  unfolding drv_keeps_def seq_d_Inr by metis

lemma drv_keeps_if [drv_keeps_intros]: "drv_keeps a \<Longrightarrow> drv_keeps b \<Longrightarrow> drv_keeps (if c then a else b)"
  by simp

lemma wait_loop_keeps:
  assumes "wait_loop hw cond t0 timeout s = Some y"
  shows "fst (snd y) = fst s"
  using assms
proof (rule wait_loop.raw_induct [rotated])
  fix wl hw cond t0 timeout s y
  assume IH: "\<And>hw cond t0 timeout s y. wl hw cond t0 timeout s = Some y \<Longrightarrow> fst (snd y) = fst s"
    and eq: "(let (st, d1) = hw_read hw STATUS (snd s)
      in if cond st then Some (Inr (), fst s, d1)
         else let (t, d2) = hw_clock hw d1
              in if timeout < t - t0 then Some (Inl TimeoutError, fst s, snd (hw_read hw STATUS d2))
                 else wl hw cond t0 timeout (fst s, d2)) = Some y"
  then show "fst (snd y) = fst s"
    by (auto simp: Let_def dest!: IH split: prod.splits if_splits)
qed

lemma drv_keeps_wait [drv_keeps_intros]: "drv_keeps (wait_until hw cond)"
proof -
  have "drv_keeps (wait_loop hw cond t0 timeout)" for t0 timeout
    using wait_loop_keeps [of hw cond t0 timeout] by (fastforce simp: drv_keeps_def)
  then show ?thesis unfolding wait_until_def by (intro drv_keeps_intros)
qed

lemma drv_keeps_write_words [drv_keeps_intros]: "drv_keeps (write_words hw a ws)"
  by (induction ws arbitrary: a) (auto intro: drv_keeps_intros)

lemma drv_keeps_read_words [drv_keeps_intros]: "drv_keeps (read_words hw a n)"
proof (induction n arbitrary: a)
  case (Suc n)
  have "drv_keeps (case to_bytes_be 4 w of Inl e \<Rightarrow> raise_d e
      | Inr bs \<Rightarrow> seq_d (read_words hw (a + 4) n) (\<lambda>rest. ret (bs @ rest)))" for w
    using Suc by (auto intro!: drv_keeps_intros split: sum.split)
  then show ?case by (auto intro!: drv_keeps_intros)
qed (simp add: drv_keeps_intros)

lemma drv_keeps_push_aad [drv_keeps_intros]: "drv_keeps (push_aad_blocks hw padded n is)"
proof (induction "is")
  case (Cons i "is")
  have "drv_keeps (push_aad_block hw b l)" for b l
    unfolding push_aad_block_def write_block_def by (intro drv_keeps_intros)
  with Cons show ?case by (auto intro!: drv_keeps_intros)
qed (simp add: drv_keeps_intros)

lemma drv_post_keeps: "drv_keeps m \<Longrightarrow> drv_post (\<lambda>s. fst s = e) m (\<lambda>_ s. fst s = e)"
  by (auto simp: drv_keeps_def drv_post_def)

lemma read_words_length: "read_words hw a n s = Some (Inr bs, s') \<Longrightarrow> length bs = 4 * n"
proof (induction n arbitrary: a s bs s')
  case 0
  then show ?case by (simp add: ret_def)
next
  case (Suc n)
  then obtain w s1 s2 rest where "to_bytes_be 4 w = Inr (be_bytes 4 w)" "read_words hw (a + 4) n s1 = Some (Inr rest, s2)"
    "bs = be_bytes 4 w @ rest"
    by (auto simp: seq_d_Inr raise_d_def ret_def to_bytes_be_def split: if_splits sum.splits)
  with Suc.IH [OF this(2)] show ?case by simp
qed

text \<open>The engine after the stream mode, the key and the session are set up.\<close>

definition engine_ready :: "dma_engine \<Rightarrow> dma_engine" where
  "engine_ready e =
     (let e1 = e\<lparr>de_stream_mode_enabled := True\<rparr>
      in if de_key_loaded e then e1
         else e1\<lparr>de_key_loaded := True, de_key_load_count := de_key_load_count e + 1\<rparr>)"

lemma drv_post_get:
  "drv_post (\<lambda>s. fst s = e) (f e) Q \<Longrightarrow> drv_post (\<lambda>s. fst s = e) (seq_d get_engine f) Q"
  by (auto simp: drv_post_def seq_d_def get_engine_def)

lemma drv_post_upd: "drv_post (\<lambda>s. fst s = e) (upd_engine f) (\<lambda>_ s. fst s = f e)"
  by (auto simp: drv_post_def upd_engine_def)

lemma drv_post_keeps_seq:
  "drv_keeps m \<Longrightarrow> (\<And>x. drv_post (\<lambda>s. fst s = e) (f x) Q) \<Longrightarrow> drv_post (\<lambda>s. fst s = e) (seq_d m f) Q"
  by (rule drv_post_seq [OF drv_post_keeps])

lemma ensure_stream_post:
  "drv_post (\<lambda>s. fst s = e) (ensure_stream_mode_enabled hw) (\<lambda>_ s. fst s = e\<lparr>de_stream_mode_enabled := True\<rparr>)"
proof -
  have k: "drv_keeps (set_stream_mode hw True)" unfolding set_stream_mode_def by (intro drv_keeps_intros)
  have "drv_post (\<lambda>s. fst s = e) (if de_stream_mode_enabled e then ret () else
      seq_d (set_stream_mode hw True) (\<lambda>_. upd_engine (\<lambda>e. e\<lparr>de_stream_mode_enabled := True\<rparr>)))
      (\<lambda>_ s. fst s = e\<lparr>de_stream_mode_enabled := True\<rparr>)"
  proof (cases "de_stream_mode_enabled e")
    case True
    then show ?thesis by (auto simp: drv_post_def ret_def)
  next
    case False
    have "drv_post (\<lambda>s. fst s = e) (seq_d (set_stream_mode hw True)
        (\<lambda>_. upd_engine (\<lambda>e. e\<lparr>de_stream_mode_enabled := True\<rparr>))) (\<lambda>_ s. fst s = e\<lparr>de_stream_mode_enabled := True\<rparr>)"
      by (rule drv_post_keeps_seq [OF k drv_post_upd])
    with False show ?thesis by simp
  qed
  then show ?thesis unfolding ensure_stream_mode_enabled_def by (rule drv_post_get)
qed

lemma ensure_key_post:
  "drv_post (\<lambda>s. fst s = e\<lparr>de_stream_mode_enabled := True\<rparr>) (ensure_key_loaded hw) (\<lambda>_ s. fst s = engine_ready e)"
proof -
  let ?e = "e\<lparr>de_stream_mode_enabled := True\<rparr>"
  let ?u = "\<lambda>e. e\<lparr>de_key_loaded := True, de_key_load_count := de_key_load_count e + 1\<rparr>"
  have k: "drv_keeps (write_key hw key)" "drv_keeps (load_key_and_wait hw)" for key
    unfolding write_key_def load_key_and_wait_def by (intro drv_keeps_intros)+
  have "drv_post (\<lambda>s. fst s = ?e) (if de_key_loaded ?e then ret () else
      seq_d (write_key hw (de_key ?e)) (\<lambda>_. seq_d (load_key_and_wait hw) (\<lambda>_. upd_engine ?u)))
      (\<lambda>_ s. fst s = engine_ready e)"
  proof (cases "de_key_loaded e")
    case True
    then show ?thesis by (auto simp: drv_post_def ret_def engine_ready_def Let_def)
  next
    case False
    have "drv_post (\<lambda>s. fst s = ?e) (seq_d (write_key hw (de_key ?e))
        (\<lambda>_. seq_d (load_key_and_wait hw) (\<lambda>_. upd_engine ?u))) (\<lambda>_ s. fst s = ?u ?e)"
      by (intro drv_post_keeps_seq k drv_post_upd)
    with False show ?thesis by (simp add: engine_ready_def Let_def)
  qed
  then show ?thesis unfolding ensure_key_loaded_def by (rule drv_post_get)
qed

definition no_drops :: "int \<Rightarrow> bool" where
  "no_drops s \<longleftrightarrow> s AND STS_AAD_DROP = 0 \<and> s AND STS_PT_DROP = 0 \<and> s AND STS_SESSION_DROP = 0 \<and>
     s AND STS_CT_FIFO_OVERFLOW = 0"

lemma assert_no_drops_Inr:
  "assert_no_drops hw s = Some (Inr x, s') \<longleftrightarrow>
     no_drops (fst (hw_read hw STATUS (snd s))) \<and> s' = (fst s, snd (hw_read hw STATUS (snd s)))"
  by (auto simp: assert_no_drops_def status_def reg_read_def seq_d_def no_drops_def raise_d_def ret_def)

text \<open>The engine after a completed call, from the state \<open>e\<close> in which the transfer starts.\<close>

definition engine_done :: "dma_engine \<Rightarrow> bytes \<Rightarrow> int \<Rightarrow> int \<Rightarrow> int \<Rightarrow> dma_engine" where
  "engine_done e pt t_call t_dma t_tag =
     (let n = int (length (pad_to_block pt));
          e1 = (if n \<in> set (de_buffer_pairs e) then e else e\<lparr>de_buffer_pairs := de_buffer_pairs e @ [n]\<rparr>)
      in e1\<lparr>de_encrypt_calls := de_encrypt_calls e1 + 1,
            de_encrypt_bytes_in := de_encrypt_bytes_in e1 + int (length pt),
            de_encrypt_total := de_encrypt_total e1 + t_call,
            de_dma_transfer_total := de_dma_transfer_total e1 + t_dma,
            de_tag_wait_total := de_tag_wait_total e1 + t_tag,
            de_control_total := de_control_total e1 + max 0 (t_call - t_dma)\<rparr>)"

lemma length_pad_to_block: "length pt \<le> length (pad_to_block pt)"
proof (cases "pt = [] \<or> length pt mod 16 = 0")
  case False
  then have "pad_to_block pt = pt @ replicate (16 - length pt mod 16) 0"
    by (simp add: pad_to_block_def Let_def)
  then show ?thesis by (simp only: length_append le_add1)
qed (auto simp: pad_to_block_def)

lemma pad_to_block_aligned: "length (pad_to_block pt) mod 16 = 0"
proof (cases "length pt mod 16 = 0")
  case False
  then have "(length pt + (16 - length pt mod 16)) mod 16 = 0" by presburger
  with False show ?thesis by (auto simp: pad_to_block_def Let_def)
qed (simp add: pad_to_block_def Let_def)

lemma drv_keeps_wait_tag: "drv_keeps (wait_tag hw)"
  unfolding wait_tag_def read_block_def by (intro drv_keeps_intros)

lemma wait_tag_length: "wait_tag hw s = Some (Inr tag, s') \<Longrightarrow> length tag = 16"
  by (auto simp: wait_tag_def seq_d_Inr read_block_def dest: read_words_length)

text \<open>
  What a returned ciphertext and tag promise: the lengths, the statistics, and that the status read
  after the tag showed no drop flag.
\<close>

definition encrypted_ok :: "'d hw \<Rightarrow> dma_engine \<Rightarrow> bytes \<Rightarrow> bytes \<times> bytes \<Rightarrow> dma_engine \<times> 'd \<Rightarrow> bool" where
  "encrypted_ok hw e pt r s' \<longleftrightarrow>
     length (fst r) = length pt \<and> length (snd r) = 16 \<and>
     (\<exists>t_call t_dma t_tag. fst s' = engine_done e pt t_call t_dma t_tag) \<and>
     (\<exists>d1. no_drops (fst (hw_read hw STATUS d1)) \<and>
        snd s' = snd (hw_clock hw (snd (hw_read hw STATUS d1))))"

text \<open>The pool after a transfer of \<open>n\<close> bytes.\<close>

definition pooled :: "nat \<Rightarrow> dma_engine \<Rightarrow> dma_engine" where
  "pooled n e = (if int n \<in> set (de_buffer_pairs e) then e else e\<lparr>de_buffer_pairs := de_buffer_pairs e @ [int n]\<rparr>)"

lemma get_dma_buffers_post: "drv_post (\<lambda>s. fst s = e) (get_dma_buffers hw n) (\<lambda>_ s. fst s = pooled n e)"
proof (cases "int n \<in> set (de_buffer_pairs e)")
  case True
  then show ?thesis
    by (auto simp: get_dma_buffers_def drv_post_def seq_d_def get_engine_def ret_def pooled_def)
next
  case False
  let ?u = "\<lambda>e. e\<lparr>de_buffer_pairs := de_buffer_pairs e @ [int n]\<rparr>"
  have "drv_post (\<lambda>s. fst s = e) (seq_d (dma_call (io_alloc (hw_dma hw) n)) (\<lambda>_. seq_d (dma_call (io_alloc (hw_dma hw) n))
      (\<lambda>_. upd_engine ?u))) (\<lambda>_ s. fst s = ?u e)"
    by (intro drv_post_keeps_seq drv_keeps_intros drv_post_upd)
  then show ?thesis using False unfolding get_dma_buffers_def by (intro drv_post_get) (simp add: pooled_def)
qed

lemma stream_dma_post:
  assumes "stream_pt_collect_ct_dma hw pt (e, d) = Some (Inr ct, s')"
  shows "length ct = length pt \<and> fst s' = pooled (length pt) e"
proof -
  have "drv_post (\<lambda>s. fst s = e) (stream_pt_collect_ct_dma hw pt) (\<lambda>_ s. fst s = pooled (length pt) e)"
    unfolding stream_pt_collect_ct_dma_def
    by (rule drv_post_seq [OF get_dma_buffers_post]) (intro drv_post_keeps drv_keeps_intros)
  moreover have "length ct = length pt"
    using assms by (auto simp: stream_pt_collect_ct_dma_def seq_d_Inr read_rx_def)
  ultimately show ?thesis using assms unfolding drv_post_def by (metis fst_conv)
qed

lemma dma_finish_post:
  "drv_post (\<lambda>s. fst s = e) (dma_finish hw pt t0) (encrypted_ok hw e pt)"
proof (rule drv_postI)
  fix s :: "dma_engine \<times> 'a" and r s'
  assume e: "fst s = e" and run: "dma_finish hw pt t0 s = Some (Inr r, s')"
  obtain s1 s2 s3 s4 ct tag t1 t2 t3 where
    tr: "stream_pt_collect_ct_dma hw (pad_to_block pt) (e, s1) = Some (Inr ct, s2)"
    and wt: "wait_tag hw (fst s2, s3) = Some (Inr tag, s4)"
    and nd: "no_drops (fst (hw_read hw STATUS (snd (hw_clock hw (snd s4)))))"
    and r: "r = (take (length pt) ct, tag)"
    and s': "s' = ((fst s4)\<lparr>de_encrypt_calls := de_encrypt_calls (fst s4) + 1,
         de_encrypt_bytes_in := de_encrypt_bytes_in (fst s4) + int (length pt),
         de_encrypt_total := de_encrypt_total (fst s4) + t1,
         de_dma_transfer_total := de_dma_transfer_total (fst s4) + t2,
         de_tag_wait_total := de_tag_wait_total (fst s4) + t3,
         de_control_total := de_control_total (fst s4) + max 0 (t1 - t2)\<rparr>,
         snd (hw_clock hw (snd (hw_read hw STATUS (snd (hw_clock hw (snd s4)))))))"
    using run e unfolding dma_finish_def Let_def
    by (clarsimp simp: seq_d_Inr clock_def assert_no_drops_Inr upd_engine_def ret_def)
  have fin: "fst s4 = fst s2" using drv_keeps_wait_tag wt unfolding drv_keeps_def by (metis fst_conv)
  have ct: "length ct = length (pad_to_block pt)" and e2: "fst s2 = pooled (length (pad_to_block pt)) e"
    using stream_dma_post [OF tr] by simp_all
  have "fst s' = engine_done e pt t1 t2 t3" by (simp add: s' fin e2 engine_done_def pooled_def Let_def)
  then show "encrypted_ok hw e pt r s'"
    using ct length_pad_to_block [of pt] wait_tag_length [OF wt] nd
    unfolding encrypted_ok_def r s' by auto
qed

definition engine_session :: "dma_engine \<Rightarrow> dma_engine" where
  "engine_session e = (engine_ready e)\<lparr>de_session_start_count := de_session_start_count e + 1\<rparr>"

lemma engine_ready_session [simp]: "de_session_start_count (engine_ready e) = de_session_start_count e"
  by (simp add: engine_ready_def Let_def)

lemma dma_encrypt_post:
  "drv_post (\<lambda>s. fst s = e) (dma_encrypt hw nonce aad pt)
     (\<lambda>r s'. de_loaded e \<and> length nonce = 12 \<and> pt \<noteq> [] \<and> encrypted_ok hw (engine_session e) pt r s')"
proof (cases "de_loaded e \<and> length nonce = 12 \<and> pt \<noteq> []")
  case False
  have "\<not> (dma_encrypt hw nonce aad pt (e, d) = Some (Inr x, s'))" for d x s'
    using False by (auto simp: dma_encrypt_def require_loaded_def seq_d_def get_engine_def clock_def raise_d_def ret_def)
  then show ?thesis by (fastforce simp: drv_post_def)
next
  case True
  have k: "drv_keeps (write_nonce hw nonce)" "drv_keeps (write_lengths hw a b)"
    "drv_keeps (start_session_and_wait_ready hw)" "drv_keeps require_loaded" for a b
    unfolding driver_defs by (intro drv_keeps_intros)+
  have upd: "drv_post (\<lambda>s. fst s = engine_ready e)
      (upd_engine (\<lambda>e. e\<lparr>de_session_start_count := de_session_start_count e + 1\<rparr>))
      (\<lambda>_ s. fst s = engine_session e)"
    using drv_post_upd [of "engine_ready e" "\<lambda>e. e\<lparr>de_session_start_count := de_session_start_count e + 1\<rparr>"]
    by (simp add: engine_session_def)
  have n12: "\<not> length nonce \<noteq> 12" and pt: "pt \<noteq> []" using True by simp_all
  have "drv_post (\<lambda>s. fst s = e) (dma_encrypt hw nonce aad pt) (encrypted_ok hw (engine_session e) pt)"
    unfolding dma_encrypt_def Let_def if_not_P [OF n12] if_not_P [OF pt]
    by (intro drv_post_keeps_seq k drv_keeps_intros drv_post_seq [OF ensure_stream_post]
        drv_post_seq [OF ensure_key_post] drv_post_seq [OF upd] dma_finish_post)
  with True show ?thesis by (auto simp: drv_post_def)
qed

section \<open>The commands of a call\<close>

text \<open>A device with a record of its register writes, and the values written to the control register.\<close>

definition logs_writes :: "'d hw \<Rightarrow> ('d \<Rightarrow> (int \<times> int) list) \<Rightarrow> bool" where
  "logs_writes hw log_of \<longleftrightarrow>
     (\<forall>a v d. log_of (hw_write hw a v d) = log_of d @ [(a, v)]) \<and> (\<forall>a d. log_of (snd (hw_read hw a d)) = log_of d) \<and>
     (\<forall>d. log_of (snd (hw_clock hw d)) = log_of d) \<and> (\<forall>n d. log_of (snd (io_alloc (hw_dma hw) n d)) = log_of d) \<and>
     (\<forall>n d. log_of (snd (io_recv (hw_dma hw) n d)) = log_of d) \<and> (\<forall>bs d. log_of (snd (io_send (hw_dma hw) bs d)) = log_of d) \<and>
     (\<forall>d r d'. io_send_wait (hw_dma hw) d = Some (r, d') \<or> io_recv_wait (hw_dma hw) d = Some (r, d') \<longrightarrow> log_of d' = log_of d)"

definition commands :: "(int \<times> int) list \<Rightarrow> int list" where
  "commands ws = map snd (filter (\<lambda>(a, v). a = CTRL) ws)"

definition emits :: "('d \<Rightarrow> (int \<times> int) list) \<Rightarrow> ('a, 'd) drv \<Rightarrow> int list \<Rightarrow> bool" where
  "emits log_of m cs \<longleftrightarrow>
     (\<forall>s x s'. m s = Some (Inr x, s') \<longrightarrow> commands (log_of (snd s')) = commands (log_of (snd s)) @ cs)"

named_theorems silent_intros

lemma emits_basic [silent_intros]:
  "emits log_of (ret x) []" "emits log_of (raise_d e) []" "emits log_of get_engine []" "emits log_of (upd_engine f) []"
  "emits log_of (read_rx hw n) []"
  by (auto simp: emits_def ret_def raise_d_def get_engine_def upd_engine_def read_rx_def)

lemma emits_device [silent_intros]:
  assumes "logs_writes hw log_of"
  shows "emits log_of (reg_read hw a) []" "emits log_of (clock hw) []" "emits log_of (dma_call (io_alloc (hw_dma hw) n)) []"
    "emits log_of (dma_call (io_recv (hw_dma hw) n)) []" "emits log_of (dma_call (io_send (hw_dma hw) bs)) []"
    "emits log_of (dma_wait (io_send_wait (hw_dma hw))) []" "emits log_of (dma_wait (io_recv_wait (hw_dma hw))) []"
  using assms by (auto simp: emits_def logs_writes_def reg_read_def clock_def dma_call_def dma_wait_def)

lemma emits_write:
  assumes "logs_writes hw log_of"
  shows "emits log_of (reg_write hw a v) (if a = CTRL then [v] else [])"
  using assms by (auto simp: emits_def logs_writes_def reg_write_def commands_def)

lemma emits_seq: "emits log_of m cs \<Longrightarrow> (\<And>x. emits log_of (f x) ds) \<Longrightarrow> emits log_of (seq_d m f) (cs @ ds)"
  unfolding emits_def seq_d_Inr by fastforce

lemma silent_seq [silent_intros]: "emits log_of m [] \<Longrightarrow> (\<And>x. emits log_of (f x) ds) \<Longrightarrow> emits log_of (seq_d m f) ds"
  using emits_seq [of log_of m "[]" f ds] by simp

lemma emits_seq_silent: "emits log_of m cs \<Longrightarrow> (\<And>x. emits log_of (f x) []) \<Longrightarrow> emits log_of (seq_d m f) cs"
  using emits_seq [of log_of m cs f "[]"] by simp

lemma emits_if [silent_intros]: "emits log_of a cs \<Longrightarrow> emits log_of b cs \<Longrightarrow> emits log_of (if c then a else b) cs"
  by simp

lemma silent_wait [silent_intros]:
  assumes "logs_writes hw log_of"
  shows "emits log_of (wait_until hw cond) []"
proof -
  have loop: "logs_writes hw log_of \<longrightarrow> log_of (snd (snd y)) = log_of (snd s)" if "wait_loop hw cond t0 timeout s = Some y"
    for hw :: "'a hw" and cond t0 timeout s y
    using that
  proof (rule wait_loop.raw_induct [rotated])
    fix wl hw cond t0 timeout s y
    assume IH: "\<And>hw cond t0 timeout s y. wl hw cond t0 timeout s = Some y \<Longrightarrow>
        logs_writes hw log_of \<longrightarrow> log_of (snd (snd y)) = log_of (snd s)"
      and eq: "(let (st, d1) = hw_read hw STATUS (snd s)
        in if cond st then Some (Inr (), fst s, d1)
           else let (t, d2) = hw_clock hw d1
                in if timeout < t - t0 then Some (Inl TimeoutError, fst s, snd (hw_read hw STATUS d2))
                   else wl hw cond t0 timeout (fst s, d2)) = Some y"
    show "logs_writes hw log_of \<longrightarrow> log_of (snd (snd y)) = log_of (snd s)"
    proof
      assume w: "logs_writes hw log_of"
      have rd: "log_of (snd (hw_read hw a d)) = log_of d" "log_of (snd (hw_clock hw d)) = log_of d" for a d
        using w by (simp_all add: logs_writes_def)
      obtain st d1 where r: "hw_read hw STATUS (snd s) = (st, d1)" by (cases "hw_read hw STATUS (snd s)")
      obtain t d2 where c: "hw_clock hw d1 = (t, d2)" by (cases "hw_clock hw d1")
      have d: "log_of d1 = log_of (snd s)" "log_of d2 = log_of d1" using rd r c by (metis snd_conv)+
      show "log_of (snd (snd y)) = log_of (snd s)"
        using eq d w rd IH [of hw cond t0 timeout "(fst s, d2)" y] by (auto simp: r c split: if_splits)
    qed
  qed
  have "emits log_of (wait_loop hw cond t0 timeout) []" for t0 timeout
    using loop [of hw cond t0 timeout] assms by (fastforce simp: emits_def)
  then show ?thesis unfolding wait_until_def by (intro silent_intros assms)
qed

lemma silent_write_words:
  assumes "logs_writes hw log_of"
  shows "CTRL < addr \<Longrightarrow> emits log_of (write_words hw addr ws) []"
proof (induction ws arbitrary: addr)
  case (Cons w ws)
  have "emits log_of (reg_write hw addr (from_bytes_be w)) []" using emits_write [OF assms, of addr] Cons.prems by simp
  then show ?case using Cons.IH [of "addr + 4"] Cons.prems by (auto intro!: silent_intros)
qed (simp add: silent_intros)

lemma silent_read_words [silent_intros]:
  assumes "logs_writes hw log_of"
  shows "emits log_of (read_words hw addr n) []"
proof (induction n arbitrary: addr)
  case (Suc n)
  have "emits log_of (case to_bytes_be 4 w of Inl e \<Rightarrow> raise_d e
      | Inr bs \<Rightarrow> seq_d (read_words hw (addr + 4) n) (\<lambda>rest. ret (bs @ rest))) []" for w
    using Suc by (auto intro!: silent_intros split: sum.split)
  then show ?case using assms by (auto intro!: silent_intros)
qed (simp add: silent_intros)

definition push_commands :: "nat \<Rightarrow> nat list \<Rightarrow> int list" where
  "push_commands n is = map (\<lambda>i. CTRL_PUSH_AAD OR (if i = n - 1 then CTRL_AAD_LAST else 0)) is"

lemma emits_push_aad:
  assumes w: "logs_writes hw log_of"
  shows "emits log_of (push_aad_blocks hw padded n is) (push_commands n is)"
proof (induction "is")
  case (Cons i "is")
  have "emits log_of (push_aad_block hw b l) [CTRL_PUSH_AAD OR (if l then CTRL_AAD_LAST else 0)]" for b l
    unfolding push_aad_block_def write_block_def
    using emits_write [OF w, of CTRL "CTRL_PUSH_AAD OR (if l then CTRL_AAD_LAST else 0)"]
    by (intro silent_intros w silent_write_words) (simp_all add: CTRL_def AAD_BASE_def)
  from emits_seq [OF this Cons] show ?case by (simp add: push_commands_def)
qed (simp add: push_commands_def silent_intros)

lemmas register_addrs =
  CTRL_def STATUS_def KEY_BASE_def NONCE_BASE_def AAD_LEN_HI_def AAD_LEN_LO_def PT_LEN_HI_def PT_LEN_LO_def AAD_BASE_def TAG_BASE_def

lemma silent_setup:
  assumes w: "logs_writes hw log_of"
  shows "emits log_of (write_nonce hw nonce) []" "emits log_of (write_lengths hw a b) []" "emits log_of require_loaded []"
    "emits log_of (dma_finish hw pt t0) []" "emits log_of (write_key hw key) []"
proof -
  have reg: "emits log_of (reg_write hw x v) []" if "x \<noteq> CTRL" for x v using emits_write [OF w, of x v] that by simp
  show "emits log_of (write_nonce hw nonce) []" "emits log_of (write_key hw key) []"
    unfolding write_nonce_def write_key_def by (intro silent_write_words w; simp add: register_addrs)+
  show "emits log_of (write_lengths hw a b) []"
    unfolding write_lengths_def by (intro silent_intros reg; simp add: register_addrs)
  show "emits log_of require_loaded []" unfolding require_loaded_def by (intro silent_intros)
  show "emits log_of (dma_finish hw pt t0) []"
    unfolding dma_finish_def Let_def stream_pt_collect_ct_dma_def get_dma_buffers_def wait_tag_def read_block_def
      assert_no_drops_def status_def
    by (intro silent_intros w)
qed

lemma emits_session:
  assumes w: "logs_writes hw log_of"
  shows "emits log_of (set_stream_mode hw True) [CTRL_SET_STREAM]" "emits log_of (load_key_and_wait hw) [CTRL_LOAD_KEY]"
    "emits log_of (start_session_and_wait_ready hw) [CTRL_START_SESSION]"
proof -
  have c: "emits log_of (reg_write hw CTRL v) [v]" for v using emits_write [OF w, of CTRL v] by simp
  show "emits log_of (set_stream_mode hw True) [CTRL_SET_STREAM]"
    unfolding set_stream_mode_def by (intro emits_seq_silent c) (simp add: silent_wait [OF w])
  show "emits log_of (load_key_and_wait hw) [CTRL_LOAD_KEY]"
    unfolding load_key_and_wait_def by (intro emits_seq_silent c silent_wait w)
  show "emits log_of (start_session_and_wait_ready hw) [CTRL_START_SESSION]"
    unfolding start_session_and_wait_ready_def status_def
    by (rule silent_seq [OF silent_wait [OF w]]) (intro emits_seq_silent c silent_intros w)
qed

text \<open>From an engine \<open>e\<close>, the commands that have been given by a point of the call.\<close>

definition given :: "('d \<Rightarrow> (int \<times> int) list) \<Rightarrow> dma_engine \<Rightarrow> int list \<Rightarrow> dma_engine \<times> 'd \<Rightarrow> bool" where
  "given log_of e cs s \<longleftrightarrow> fst s = e \<and> commands (log_of (snd s)) = cs"

lemma given_emits:
  assumes "drv_post (\<lambda>s. fst s = e) m (\<lambda>_ s. fst s = e')" "emits log_of m ds"
  shows "drv_post (given log_of e cs) m (\<lambda>_. given log_of e' (cs @ ds))"
  using assms unfolding drv_post_def emits_def given_def by blast

lemma given_get: "drv_post (given log_of e cs) (f e) Q \<Longrightarrow> drv_post (given log_of e cs) (seq_d get_engine f) Q"
  by (auto simp: drv_post_def seq_d_def get_engine_def given_def)

lemma given_stream:
  assumes w: "logs_writes hw log_of"
  shows "drv_post (given log_of e cs) (ensure_stream_mode_enabled hw)
     (\<lambda>_. given log_of (e\<lparr>de_stream_mode_enabled := True\<rparr>) (cs @ (if de_stream_mode_enabled e then [] else [CTRL_SET_STREAM])))"
proof (cases "de_stream_mode_enabled e")
  case True
  then show ?thesis
    by (auto simp: ensure_stream_mode_enabled_def drv_post_def seq_d_def get_engine_def ret_def given_def)
next
  case False
  have k: "drv_keeps (set_stream_mode hw True)" unfolding set_stream_mode_def by (intro drv_keeps_intros)
  let ?u = "\<lambda>e. e\<lparr>de_stream_mode_enabled := True\<rparr>"
  have "drv_post (\<lambda>s. fst s = e) (seq_d (set_stream_mode hw True) (\<lambda>_. upd_engine ?u)) (\<lambda>_ s. fst s = ?u e)"
    by (intro drv_post_keeps_seq k drv_post_upd)
  from given_emits [OF this emits_seq_silent [OF emits_session(1) [OF w]]] False show ?thesis
    unfolding ensure_stream_mode_enabled_def by (intro given_get) (simp add: silent_intros)
qed

lemma given_key:
  assumes w: "logs_writes hw log_of"
  shows "drv_post (given log_of (e\<lparr>de_stream_mode_enabled := True\<rparr>) cs) (ensure_key_loaded hw)
     (\<lambda>_. given log_of (engine_ready e) (cs @ (if de_key_loaded e then [] else [CTRL_LOAD_KEY])))"
proof (cases "de_key_loaded e")
  case True
  then show ?thesis
    by (auto simp: ensure_key_loaded_def drv_post_def seq_d_def get_engine_def ret_def given_def engine_ready_def Let_def)
next
  case False
  have "emits log_of (seq_d (write_key hw (de_key e)) (\<lambda>_. seq_d (load_key_and_wait hw)
      (\<lambda>_. upd_engine (\<lambda>e. e\<lparr>de_key_loaded := True, de_key_load_count := de_key_load_count e + 1\<rparr>)))) [CTRL_LOAD_KEY]"
    by (intro silent_seq silent_setup w emits_seq_silent emits_session silent_intros)
  moreover have "drv_keeps (write_key hw (de_key e))" "drv_keeps (load_key_and_wait hw)"
    unfolding write_key_def load_key_and_wait_def by (intro drv_keeps_intros)+
  ultimately have "drv_post (given log_of (e\<lparr>de_stream_mode_enabled := True\<rparr>) cs) (seq_d (write_key hw (de_key e))
      (\<lambda>_. seq_d (load_key_and_wait hw)
      (\<lambda>_. upd_engine (\<lambda>e. e\<lparr>de_key_loaded := True, de_key_load_count := de_key_load_count e + 1\<rparr>))))
      (\<lambda>_. given log_of (engine_ready e) (cs @ [CTRL_LOAD_KEY]))"
    using False by (intro given_emits drv_post_keeps_seq)
      (auto simp: engine_ready_def Let_def drv_post_def upd_engine_def)
  with False show ?thesis unfolding ensure_key_loaded_def by (intro given_get) simp
qed

lemma aad_block_count: "(if length aad > 0 then max 1 (length (pad_to_block aad) div 16) else 0) = (length aad + 15) div 16"
proof -
  obtain q m where n: "length aad = 16 * q + m" "m < 16"
    by (metis mult_div_mod_eq mod_less_divisor zero_less_numeral)
  have "length (pad_to_block aad) = (if m = 0 then 16 * q else 16 * q + 16)"
    using n by (auto simp: pad_to_block_def Let_def)
  moreover have "(16 * q + m + 15) div 16 = (if m = 0 then q else q + 1)"
    using n(2) div_mult_self4 [of 16 "m + 15" q] by (auto simp: add.assoc div_nat_eqI)
  ultimately show ?thesis using n(1) by auto
qed

lemma dma_encrypt_commands:
  assumes w: "logs_writes hw log_of" and call: "de_loaded e" "length nonce = 12" "pt \<noteq> []"
  shows "drv_post (given log_of e cs) (dma_encrypt hw nonce aad pt) (\<lambda>_ s. commands (log_of (snd s)) =
     cs @ (if de_stream_mode_enabled e then [] else [CTRL_SET_STREAM]) @ (if de_key_loaded e then [] else [CTRL_LOAD_KEY]) @
     CTRL_START_SESSION # push_commands ((length aad + 15) div 16) [0..<(length aad + 15) div 16])"
proof -
  let ?n = "(length aad + 15) div 16"
  let ?s = "if de_stream_mode_enabled e then [] else [CTRL_SET_STREAM]"
  let ?k = "if de_key_loaded e then [] else [CTRL_LOAD_KEY]"
  have k: "drv_keeps require_loaded" unfolding require_loaded_def by (intro drv_keeps_intros)
  have start: "drv_post (given log_of e cs) m (\<lambda>_. given log_of e cs)" if "drv_keeps m" "emits log_of m []" for m :: "('x, 'a) drv"
    using given_emits [OF drv_post_keeps [OF that(1)] that(2), of e cs] by simp
  let ?rest = "\<lambda>t0. seq_d (write_nonce hw nonce) (\<lambda>_. seq_d (write_lengths hw (int (length aad) * 8) (int (length pt) * 8)) (\<lambda>_.
     seq_d (start_session_and_wait_ready hw) (\<lambda>_.
     seq_d (upd_engine (\<lambda>e. e\<lparr>de_session_start_count := de_session_start_count e + 1\<rparr>)) (\<lambda>_.
     seq_d (push_aad_blocks hw (pad_to_block aad) ?n [0..<?n]) (\<lambda>_. dma_finish hw pt t0)))))"
  have "emits log_of (?rest t0) ([CTRL_START_SESSION] @ push_commands ?n [0..<?n])" for t0
    by (intro silent_seq silent_setup w emits_seq emits_session emits_seq_silent emits_push_aad silent_intros)
  then have rest: "drv_post (given log_of (engine_ready e) cs') (?rest t0) (\<lambda>_ s. commands (log_of (snd s)) =
      cs' @ CTRL_START_SESSION # push_commands ?n [0..<?n])" for t0 cs'
    by (force simp: drv_post_def emits_def given_def)
  have n12: "\<not> length nonce \<noteq> 12" using call(2) by simp
  show ?thesis
    unfolding dma_encrypt_def Let_def if_not_P [OF n12] if_not_P [OF call(3)] aad_block_count
    by (rule drv_post_seq [OF start [OF k silent_setup(3) [OF w]]],
        rule drv_post_seq [OF start [OF drv_keeps_basic(6) emits_device(2) [OF w]]],
        rule drv_post_seq [OF given_stream [OF w]], rule drv_post_seq [OF given_key [OF w]],
        rule drv_post_weaken [OF rest], simp)
qed

section \<open>Registers\<close>

text \<open>A bank of plain registers: a read returns the last value written and changes nothing.\<close>

definition reg_file :: "'d hw \<Rightarrow> ('d \<Rightarrow> int \<Rightarrow> int) \<Rightarrow> bool" where
  "reg_file hw view \<longleftrightarrow> (\<forall>a d. hw_read hw a d = (view d a, d)) \<and>
     (\<forall>a v d. view (hw_write hw a v d) = (view d)(a := v))"

lemma write_words_view:
  assumes "reg_file hw view"
  shows "\<exists>d'. write_words hw addr ws (e, d) = Some (Inr (), e, d') \<and>
     (\<forall>i < length ws. view d' (addr + 4 * int i) = from_bytes_be (ws ! i)) \<and>
     (\<forall>a. a < addr \<longrightarrow> view d' a = view d a) \<and>
     (\<forall>a. addr + 4 * int (length ws) \<le> a \<longrightarrow> view d' a = view d a)"
proof (induction ws arbitrary: addr d)
  case Nil
  then show ?case by (simp add: ret_def)
next
  case (Cons w ws)
  let ?d = "hw_write hw addr (from_bytes_be w) d"
  obtain d' where d': "write_words hw (addr + 4) ws (e, ?d) = Some (Inr (), e, d')"
    "\<forall>i < length ws. view d' (addr + 4 + 4 * int i) = from_bytes_be (ws ! i)"
    "\<forall>a. a < addr + 4 \<longrightarrow> view d' a = view ?d a"
    "\<forall>a. addr + 4 + 4 * int (length ws) \<le> a \<longrightarrow> view d' a = view ?d a"
    using Cons by blast
  have v: "view ?d = (view d)(addr := from_bytes_be w)" using assms by (simp add: reg_file_def)
  have i: "view d' (addr + 4 * int i) = from_bytes_be ((w # ws) ! i)" if "i < length (w # ws)" for i
  proof (cases i)
    case 0
    then show ?thesis using d'(3) v by simp
  next
    case (Suc j)
    then show ?thesis using d'(2) that by (simp add: algebra_simps)
  qed
  have "write_words hw addr (w # ws) (e, d) = Some (Inr (), e, d')"
    using d'(1) by (simp add: seq_d_def reg_write_def)
  moreover have "\<forall>a. a < addr \<longrightarrow> view d' a = view d a" using d'(3) v by simp
  moreover have "\<forall>a. addr + 4 * int (length (w # ws)) \<le> a \<longrightarrow> view d' a = view d a" using d'(4) v by simp
  ultimately show ?case using i by blast
qed

lemma read_words_view:
  assumes "reg_file hw view" and "\<forall>i < n. 0 \<le> view d (addr + 4 * int i) \<and> view d (addr + 4 * int i) < 2 ^ 32"
  shows "read_words hw addr n (e, d) =
     Some (Inr (concat (map (\<lambda>i. be_bytes 4 (view d (addr + 4 * int i))) [0..<n])), e, d)"
  using assms(2)
proof (induction n arbitrary: addr)
  case 0
  then show ?case by (simp add: ret_def)
next
  case (Suc n)
  have 0: "0 \<le> view d addr \<and> view d addr < 2 ^ 32" using Suc.prems [rule_format, of 0] by simp
  have "\<forall>i < n. 0 \<le> view d (addr + 4 + 4 * int i) \<and> view d (addr + 4 + 4 * int i) < 2 ^ 32"
  proof (intro allI impI)
    fix i assume "i < n"
    then show "0 \<le> view d (addr + 4 + 4 * int i) \<and> view d (addr + 4 + 4 * int i) < 2 ^ 32"
      using Suc.prems [rule_format, of "Suc i"] by (simp add: algebra_simps)
  qed
  note r = Suc.IH [OF this]
  have m: "map (\<lambda>i. be_bytes 4 (view d (addr + 4 * int i))) [0..<Suc n] =
      be_bytes 4 (view d addr) # map (\<lambda>i. be_bytes 4 (view d (addr + 4 + 4 * int i))) [0..<n]"
    unfolding map_upt_Suc by (simp add: algebra_simps)
  have "reg_read hw addr (e, d) = Some (Inr (view d addr), e, d)"
    using assms(1) by (simp add: reg_read_def reg_file_def)
  then show ?case
    unfolding m using 0 r by (simp add: seq_d_def to_bytes_be_def ret_def)
qed

lemma word_slices_concat: "length bs = 4 * n \<Longrightarrow> concat (word_slices n bs) = bs"
proof (induction n arbitrary: bs)
  case 0
  then show ?case by (simp add: word_slices_def)
next
  case (Suc n)
  have "slice (4 + x * 4) (8 + x * 4) bs = slice (x * 4) (4 + x * 4) (drop 4 bs)" for x
    by (simp add: slice_def drop_take add.commute [of "x * 4" 4])
  then have "word_slices (Suc n) bs = take 4 bs # word_slices n (drop 4 bs)"
    unfolding word_slices_def map_upt_Suc by (simp add: slice_def [of 0] add.commute)
  then show ?case using Suc by simp
qed

lemma word_slices_nth:
  "i < n \<Longrightarrow> length bs = 4 * n \<Longrightarrow> length (word_slices n bs ! i) = 4"
  by (simp add: word_slices_def length_slice)

lemma slices_in_registers:
  assumes "length bs = 4 * n" and "\<forall>i < n. view d (addr + 4 * int i) = from_bytes_be (word_slices n bs ! i)"
  shows "concat (map (\<lambda>i. be_bytes 4 (view d (addr + 4 * int i))) [0..<n]) = bs"
    and "\<forall>i < n. 0 \<le> view d (addr + 4 * int i) \<and> view d (addr + 4 * int i) < 2 ^ 32"
proof -
  have l: "length (word_slices n bs) = n" by (simp add: word_slices_def)
  have "map (\<lambda>i. be_bytes 4 (view d (addr + 4 * int i))) [0..<n] = word_slices n bs"
  proof (rule nth_equalityI)
    fix i assume "i < length (map (\<lambda>i. be_bytes 4 (view d (addr + 4 * int i))) [0..<n])"
    then have i: "i < n" by simp
    have "be_bytes 4 (from_bytes_be (word_slices n bs ! i)) = word_slices n bs ! i"
      using be_bytes_from [of "word_slices n bs ! i"] word_slices_nth [OF i assms(1)] by simp
    with i assms(2) show "map (\<lambda>i. be_bytes 4 (view d (addr + 4 * int i))) [0..<n] ! i = word_slices n bs ! i"
      by simp
  qed (simp add: l)
  then show "concat (map (\<lambda>i. be_bytes 4 (view d (addr + 4 * int i))) [0..<n]) = bs"
    using word_slices_concat [OF assms(1)] by simp
  show "\<forall>i < n. 0 \<le> view d (addr + 4 * int i) \<and> view d (addr + 4 * int i) < 2 ^ 32"
  proof (intro allI impI)
    fix i assume i: "i < n"
    have "from_bytes_be (word_slices n bs ! i) < 256 ^ 4"
      using from_bytes_be_lt [of "word_slices n bs ! i"] word_slices_nth [OF i assms(1)] by simp
    then show "0 \<le> view d (addr + 4 * int i) \<and> view d (addr + 4 * int i) < 2 ^ 32"
      using assms(2) i by simp
  qed
qed

lemma split_64:
  fixes n :: int
  assumes "0 \<le> n" and "n < 2 ^ 64"
  shows "(drop_bit 32 n AND 0xFFFFFFFF) * 2 ^ 32 + (n AND 0xFFFFFFFF) = n"
proof -
  have m: "(0xFFFFFFFF :: int) = mask 32" by (simp add: mask_eq_exp_minus_1)
  have lo: "n AND 0xFFFFFFFF = n mod 2 ^ 32" unfolding m by (simp add: take_bit_eq_mask [symmetric] take_bit_eq_mod)
  have "n div 2 ^ 32 < 2 ^ 32" using assms by simp
  moreover have "0 \<le> n div 2 ^ 32" using assms by simp
  ultimately have hi: "drop_bit 32 n AND 0xFFFFFFFF = n div 2 ^ 32"
    unfolding m by (simp add: take_bit_eq_mask [symmetric] take_bit_eq_mod drop_bit_eq_div)
  show ?thesis unfolding lo hi by simp
qed

section \<open>Properties\<close>

text \<open>
  C24. The polling loops of encryption end. When no clock value is read forever and the two DMA waits, which the code does
  not bound, return, \<^verbatim>\<open>encrypt\<close> ends for every engine state, every answer of the registers and every input, with a result or
  an exception: each of its polling loops is left at the latest when the timeout has passed.
\<close>

theorem dma_encrypt_terminates:
  assumes "clock_runs hw now stall" and "dma_waits_return hw"
  shows "\<exists>r e' d'. dma_encrypt hw nonce aad pt (e, d) = Some (r, e', d')"
proof -
  have "dma_encrypt hw nonce aad pt (e, d) \<noteq> None"
    using dma_encrypt_total [OF assms] by (simp add: drv_total_def)
  then show ?thesis by auto
qed

text \<open>A core that answers nothing, and a coarse clock: it shows every value three times.\<close>

definition dead_board :: "int hw" where
  "dead_board = \<lparr>hw_read = (\<lambda>_ d. (0, d)), hw_write = (\<lambda>_ _ d. d), hw_clock = (\<lambda>d. (d div 3, d + 1)), hw_dma = idle_dma\<rparr>"

lemma dead_board_clock: "clock_runs dead_board (\<lambda>d. d div 3) (\<lambda>d. nat (2 - d mod 3))"
proof -
  have 1: "d div 3 < (d + 1) div 3 \<or> d div 3 = (d + 1) div 3 \<and> (d + 1) mod 3 = d mod 3 + 1 \<and> d mod 3 < 2" for d :: int
    by presburger
  have "d div 3 < (d + 1) div 3 \<or> d div 3 = (d + 1) div 3 \<and> nat (2 - (d + 1) mod 3) < nat (2 - d mod 3)" for d :: int
    using 1 [of d] by (elim disjE conjE) simp_all
  then show ?thesis by (simp add: clock_runs_def dead_board_def)
qed

definition demo_engine :: dma_engine where
  "demo_engine = \<lparr>de_key = replicate 32 1, de_timeout = 5, de_decrypt_supported = False, de_loaded = True,
     de_stream_mode_enabled = False, de_key_loaded = False, de_buffer_pairs = [],
     de_encrypt_calls = 0, de_encrypt_bytes_in = 0, de_encrypt_total = 0, de_control_total = 0,
     de_dma_transfer_total = 0, de_tag_wait_total = 0, de_session_start_count = 0, de_key_load_count = 0\<rparr>"

lemma demo_engine_loads:
  "bind_r (dma_engine_init (replicate 32 1) 5 False) 
     (dma_load demo_py (\<lambda>_. Inr [''aes_gcm_0'', ''axi_dma_0'']) ''a.bit'') = Inr demo_engine"
proof -
  have 1: "resolve_path demo_files ''a.bit'' = Inr (path_of ''/home/x/os/pynq/overlays/tx/a.bit'')"
    using bitstream_searches_differ by blast
  have 2: "pf_exists demo_files (path_of ''/home/x/os/pynq/overlays/tx/a.bit'')" by code_simp
  have "case fst (import_board_dma demo_files demo_interp) of Inr _ \<Rightarrow> True | Inl _ \<Rightarrow> False" by code_simp
  then obtain m where "fst (import_board_dma demo_files demo_interp) = Inr m" by (auto split: sum.splits)
  with 1 2 show ?thesis by (simp add: dma_engine_init_def dma_load_def demo_engine_def demo_py_def)
qed

theorem dma_encrypt_terminates_witness:
  "\<exists>r e' d'. dma_encrypt dead_board (replicate 12 0) [] [1, 2, 3] (demo_engine, 0) = Some (r, e', d')"
  by (rule dma_encrypt_terminates [OF dead_board_clock]) (simp add: dma_waits_return_def dead_board_def idle_dma_def)

text \<open>The condition on the waits is needed: a wait for the send channel that hangs leaves \<^verbatim>\<open>encrypt\<close> without a result.\<close>

lemma dma_wait_hangs:
  assumes "\<And>d. io_send_wait (hw_dma hw) d = None"
  shows "dma_encrypt hw nonce aad pt s \<noteq> Some (Inr r, s')"
  by (auto simp: dma_encrypt_def dma_finish_def stream_pt_collect_ct_dma_def seq_d_Inr dma_wait_def assms Let_def raise_d_def
      split: if_splits)

text \<open>
  C25. What a returned ciphertext means. If \<^verbatim>\<open>encrypt\<close> returns a pair, the engine was loaded, the nonce
  had 12 bytes and the plaintext was not empty; the ciphertext is as long as the plaintext and the tag
  has 16 bytes; calls, bytes and session starts are counted once; and the status read after the tag had no drop or
  overflow flag set. The commands written to the control register during the call are exactly these, in this order:
  stream mode and key load, each only when it was not set up before, one session start, and one command for each
  block of associated data, the last one marked. Afterwards stream mode and key are noted as set up.
\<close>

theorem dma_encrypt_result:
  assumes "logs_writes hw log_of" and "dma_encrypt hw nonce aad pt (e, d) = Some (Inr (ct, tag), e', d')"
  shows "de_loaded e \<and> length nonce = 12 \<and> pt \<noteq> [] \<and> length ct = length pt \<and> length tag = 16 \<and>
     de_stream_mode_enabled e' \<and> de_key_loaded e' \<and>
     de_key_load_count e' = de_key_load_count e + (if de_key_loaded e then 0 else 1) \<and>
     de_encrypt_calls e' = de_encrypt_calls e + 1 \<and>
     de_encrypt_bytes_in e' = de_encrypt_bytes_in e + int (length pt) \<and>
     de_session_start_count e' = de_session_start_count e + 1 \<and>
     (\<exists>d1. no_drops (fst (hw_read hw STATUS d1)) \<and> d' = snd (hw_clock hw (snd (hw_read hw STATUS d1)))) \<and>
     commands (log_of d') = commands (log_of d) @
       (if de_stream_mode_enabled e then [] else [CTRL_SET_STREAM]) @ (if de_key_loaded e then [] else [CTRL_LOAD_KEY]) @
       CTRL_START_SESSION # map (\<lambda>i. CTRL_PUSH_AAD OR (if i = (length aad + 15) div 16 - 1 then CTRL_AAD_LAST else 0))
         [0..<(length aad + 15) div 16]"
proof -
  have p: "de_loaded e" "length nonce = 12" "pt \<noteq> []"
    and ok: "encrypted_ok hw (engine_session e) pt (ct, tag) (e', d')"
    using dma_encrypt_post [of e hw nonce aad pt] assms(2) unfolding drv_post_def by force+
  obtain a b c where e': "e' = engine_done (engine_session e) pt a b c"
    using ok by (auto simp: encrypted_ok_def)
  have "de_stream_mode_enabled e' \<and> de_key_loaded e' \<and>
     de_key_load_count e' = de_key_load_count e + (if de_key_loaded e then 0 else 1) \<and>
     de_encrypt_calls e' = de_encrypt_calls e + 1 \<and>
     de_encrypt_bytes_in e' = de_encrypt_bytes_in e + int (length pt) \<and>
     de_session_start_count e' = de_session_start_count e + 1"
    by (simp add: e' engine_done_def engine_session_def engine_ready_def Let_def)
  moreover have "given log_of e (commands (log_of d)) (e, d)" by (simp add: given_def)
  note dma_encrypt_commands [OF assms(1) p, of "commands (log_of d)" aad, unfolded drv_post_def push_commands_def, rule_format,
      OF this assms(2)]
  ultimately show ?thesis using p ok by (simp add: encrypted_ok_def)
qed

text \<open>A board whose status always reports every ready flag and no drop flag, and which keeps its writes.\<close>

definition ready_board :: "(int \<times> (int \<times> int) list) hw" where
  "ready_board = \<lparr>hw_read = (\<lambda>a d. (if a = STATUS then 0x2113F else 7, d)), hw_write = (\<lambda>a v (n, ws). (n, ws @ [(a, v)])),
     hw_clock = (\<lambda>(n, ws). (n, n + 1, ws)), hw_dma = idle_dma\<lparr>io_rx := \<lambda>_ _ i. 254 - of_nat i\<rparr>\<rparr>"

lemma ready_board_log: "logs_writes ready_board snd"
  by (auto simp: logs_writes_def ready_board_def idle_dma_def)

lemma ready_board_wait:
  "cond 0x2113F \<Longrightarrow> wait_until ready_board cond (e, n, ws) = Some (Inr (), e, n + 1, ws)"
  by (simp add: wait_until_def seq_d_def get_engine_def clock_def ready_board_def wait_loop.simps)

lemma ready_board_ops [simp]:
  "reg_write ready_board a v (e, n, ws) = Some (Inr (), e, n, ws @ [(a, v)])"
  "clock ready_board (e, n, ws) = Some (Inr n, e, n + 1, ws)"
  by (simp_all add: reg_write_def clock_def ready_board_def)

lemma ready_board_write_words: "\<exists>ws'. write_words ready_board a bs (e, n, ws) = Some (Inr (), e, n, ws')"
  by (induction bs arbitrary: a ws) (simp_all add: seq_d_def ret_def)

lemma ready_board_status [simp]: "reg_read ready_board STATUS s = Some (Inr 0x2113F, s)"
  by (cases s) (simp add: reg_read_def ready_board_def)

lemma ready_board_tag: "read_words ready_board TAG_BASE 4 s = Some (Inr (concat (replicate 4 [0, 0, 0, 7])), s)"
proof -
  have b: "to_bytes_be 4 7 = Inr [0, 0, 0, 7]" by code_simp
  have r: "read_words ready_board a n s = Some (Inr (concat (replicate n [0, 0, 0, 7])), s)" if "STATUS < a" for a n
    using that
  proof (induction n arbitrary: a)
    case (Suc n)
    have "reg_read ready_board a s = Some (Inr 7, s)"
      using Suc.prems by (cases s) (auto simp: reg_read_def ready_board_def)
    then show ?case using Suc.IH [of "a + 4"] Suc.prems by (simp add: seq_d_def b ret_def)
  qed (simp add: ret_def)
  show ?thesis by (rule r) (simp add: TAG_BASE_def STATUS_def)
qed

lemmas status_bits =
  STS_KEYS_READY_MASK_def STS_SESSION_READY_def STS_AAD_READY_def STS_H_VALID_def STS_TAG_VALID_def
  STS_AAD_DROP_def STS_PT_DROP_def STS_SESSION_DROP_def STS_STREAM_MODE_def STS_CT_FIFO_OVERFLOW_def

lemma ready_board_waits:
  "wait_until ready_board (\<lambda>s. s AND STS_STREAM_MODE \<noteq> 0) (e, n, ws) = Some (Inr (), e, n + 1, ws)"
  "wait_until ready_board (\<lambda>s. s AND STS_KEYS_READY_MASK = STS_KEYS_READY_MASK) (e, n, ws) = Some (Inr (), e, n + 1, ws)"
  "wait_until ready_board (\<lambda>s. s AND STS_H_VALID \<noteq> 0) (e, n, ws) = Some (Inr (), e, n + 1, ws)"
  "wait_until ready_board (\<lambda>s. s AND STS_SESSION_READY \<noteq> 0) (e, n, ws) = Some (Inr (), e, n + 1, ws)"
  "wait_until ready_board (\<lambda>s. s AND STS_TAG_VALID \<noteq> 0) (e, n, ws) = Some (Inr (), e, n + 1, ws)"
  by (rule ready_board_wait; simp add: status_bits)+

lemma ready_board_finish:
  "\<exists>e' d'. dma_finish ready_board [1, 2, 3] t (e, d) = Some (Inr ([254, 253, 252], concat (replicate 4 [0, 0, 0, 7])), e', d')"
proof -
  have nd: "assert_no_drops ready_board s = Some (Inr (), s)" for s
    by (simp add: assert_no_drops_def status_def seq_d_def ret_def) (simp add: status_bits)
  have pad: "pad_to_block [1, 2, 3] = [1, 2, 3] @ replicate 13 0" by (simp add: pad_to_block_def Let_def)
  have st: "\<exists>e'. stream_pt_collect_ct_dma ready_board (pad_to_block [1, 2, 3]) (e, d) =
      Some (Inr (map (\<lambda>i. 254 - of_nat i) [0..<16]), e', d)" for e d
    by (simp add: stream_pt_collect_ct_dma_def get_dma_buffers_def seq_d_def get_engine_def upd_engine_def dma_call_def
        dma_wait_def read_rx_def ready_board_def idle_dma_def ret_def pad)
  have ct: "take (Suc (Suc (Suc 0))) (map (\<lambda>i. 254 - of_nat i) [0..<16]) = ([254, 253, 252] :: bytes)"
    by (simp add: upt_conv_Cons)
  obtain n ws where d: "d = (n, ws)" by (cases d)
  obtain e' where "stream_pt_collect_ct_dma ready_board (pad_to_block [1, 2, 3]) (e, n + 1, ws) =
      Some (Inr (map (\<lambda>i. 254 - of_nat i) [0..<16]), e', n + 1, ws)" using st by blast
  then show ?thesis
    unfolding dma_finish_def Let_def d
    by (simp add: seq_d_def wait_tag_def read_block_def ready_board_waits nd ready_board_tag ret_def upd_engine_def ct
        del: upt.simps)
qed

lemma ready_board_run:
  "\<exists>e' d'. dma_encrypt ready_board (replicate 12 0) [] [1, 2, 3] (demo_engine, 0, []) =
     Some (Inr ([254, 253, 252], concat (replicate 4 [0, 0, 0, 7])), e', d')"
proof -
  have ss: "start_session_and_wait_ready ready_board (e, n, ws) = Some (Inr (), e, n + 1, ws @ [(CTRL, CTRL_START_SESSION)])" for e n ws
    by (simp add: start_session_and_wait_ready_def status_def seq_d_def ready_board_waits ret_def) (simp add: status_bits)
  have nonce: "\<exists>ws'. write_nonce ready_board (replicate 12 0) (e, n, ws) = Some (Inr (), e, n, ws')" for e n ws
    unfolding write_nonce_def by (rule ready_board_write_words)
  have key: "\<exists>n' ws'. ensure_key_loaded ready_board (e, n, ws) = Some (Inr (), engine_ready e, n', ws')"
    if "de_stream_mode_enabled e" "\<not> de_key_loaded e" for e n ws
    using that ready_board_write_words [of KEY_BASE "word_slices 8 (de_key e)" e n ws]
    by (auto simp: ensure_key_loaded_def seq_d_def get_engine_def write_key_def load_key_and_wait_def ready_board_waits
        upd_engine_def engine_ready_def Let_def)
  have stream: "ensure_stream_mode_enabled ready_board (demo_engine, n, ws) =
      Some (Inr (), demo_engine\<lparr>de_stream_mode_enabled := True\<rparr>, n + 1, ws @ [(CTRL, CTRL_SET_STREAM)])" for n ws
    by (simp add: ensure_stream_mode_enabled_def seq_d_def get_engine_def set_stream_mode_def ready_board_waits upd_engine_def
        demo_engine_def)
  obtain n1 ws1 where k: "ensure_key_loaded ready_board (demo_engine\<lparr>de_stream_mode_enabled := True\<rparr>, 2, [(CTRL, CTRL_SET_STREAM)]) =
      Some (Inr (), engine_ready (demo_engine\<lparr>de_stream_mode_enabled := True\<rparr>), n1, ws1)"
    using key [of "demo_engine\<lparr>de_stream_mode_enabled := True\<rparr>" 2 "[(CTRL, CTRL_SET_STREAM)]"] by (auto simp: demo_engine_def)
  obtain ws2 where n: "write_nonce ready_board (replicate 12 0) (engine_ready (demo_engine\<lparr>de_stream_mode_enabled := True\<rparr>), n1, ws1) =
      Some (Inr (), engine_ready (demo_engine\<lparr>de_stream_mode_enabled := True\<rparr>), n1, ws2)" using nonce by blast
  have l: "de_loaded demo_engine" by (simp add: demo_engine_def)
  show ?thesis
    using ready_board_finish [of 0] k n
    by (simp add: dma_encrypt_def require_loaded_def seq_d_def get_engine_def upd_engine_def ret_def ss stream l
        write_lengths_def Let_def)
qed

theorem dma_encrypt_result_witness:
  "\<exists>e' d'. dma_encrypt ready_board (replicate 12 0) [] [1, 2, 3] (demo_engine, 0, []) =
     Some (Inr ([254, 253, 252], concat (replicate 4 [0, 0, 0, 7])), e', d') \<and>
     de_key_loaded e' \<and> de_key_load_count e' = 1 \<and> de_encrypt_bytes_in e' = 3 \<and>
     commands (snd d') = [CTRL_SET_STREAM, CTRL_LOAD_KEY, CTRL_START_SESSION]"
proof -
  obtain e' d' where r: "dma_encrypt ready_board (replicate 12 0) [] [1, 2, 3] (demo_engine, 0, []) =
     Some (Inr ([254, 253, 252], concat (replicate 4 [0, 0, 0, 7])), e', d')"
    using ready_board_run by blast
  from dma_encrypt_result [OF ready_board_log r] r show ?thesis by (simp add: demo_engine_def commands_def)
qed

text \<open>
  Block registers round-trip. On plain registers, writing a 16-byte block and reading it back
  gives the block, for every base address, and leaves the engine as it was.
\<close>

theorem block_roundtrip:
  assumes "reg_file hw view" and "length b = 16"
  shows "\<exists>d'. seq_d (write_block hw base b) (\<lambda>_. read_block hw base) (e, d) = Some (Inr b, e, d')"
proof -
  have l4: "length b = 4 * 4" using assms(2) by simp
  obtain d' where w: "write_words hw base (word_slices 4 b) (e, d) = Some (Inr (), e, d')"
    and v: "\<forall>i < 4. view d' (base + 4 * int i) = from_bytes_be (word_slices 4 b ! i)"
    using write_words_view [OF assms(1), of base "word_slices 4 b" e d] by (auto simp: word_slices_def)
  note s = slices_in_registers [of b 4 view d' base, OF l4 v]
  have "read_block hw base (e, d') = Some (Inr b, e, d')"
    using read_words_view [OF assms(1) s(2), of e] s(1) by (simp add: read_block_def)
  with w assms(2) show ?thesis by (simp add: write_block_def seq_d_def)
qed

definition reg_board :: "(int \<Rightarrow> int) hw" where
  "reg_board = \<lparr>hw_read = (\<lambda>a d. (d a, d)), hw_write = (\<lambda>a v d. d(a := v)), hw_clock = (\<lambda>d. (0, d)),
     hw_dma = idle_dma\<rparr>"

lemma reg_board_file: "reg_file reg_board (\<lambda>d. d)"
  by (simp add: reg_file_def reg_board_def)

theorem block_roundtrip_witness:
  "\<exists>d'. seq_d (write_block reg_board AAD_BASE (replicate 16 9)) (\<lambda>_. read_block reg_board AAD_BASE)
     (demo_engine, \<lambda>_. 0) = Some (Inr (replicate 16 9), demo_engine, d')"
  by (rule block_roundtrip [OF reg_board_file]) simp

text \<open>
  Session registers. Writing nonce and lengths on plain registers leaves the 12 nonce bytes in
  the three nonce words, and each 64-bit bit length in its high and low word, without truncation.
\<close>

theorem session_registers:
  assumes "reg_file hw view" and "length nonce = 12"
    and "0 \<le> aad_bits" "aad_bits < 2 ^ 64" and "0 \<le> pt_bits" "pt_bits < 2 ^ 64"
  shows "\<exists>d'. seq_d (write_nonce hw nonce) (\<lambda>_. write_lengths hw aad_bits pt_bits) (e, d) = Some (Inr (), e, d') \<and>
     concat (map (\<lambda>i. be_bytes 4 (view d' (NONCE_BASE + 4 * int i))) [0..<3]) = nonce \<and>
     view d' AAD_LEN_HI * 2 ^ 32 + view d' AAD_LEN_LO = aad_bits \<and>
     view d' PT_LEN_HI * 2 ^ 32 + view d' PT_LEN_LO = pt_bits"
proof -
  have l: "length nonce = 4 * 3" using assms(2) by simp
  obtain d1 where w: "write_words hw NONCE_BASE (word_slices 3 nonce) (e, d) = Some (Inr (), e, d1)"
    and v: "\<forall>i < 3. view d1 (NONCE_BASE + 4 * int i) = from_bytes_be (word_slices 3 nonce ! i)"
    using write_words_view [OF assms(1), of NONCE_BASE "word_slices 3 nonce" e d] by (auto simp: word_slices_def)
  let ?d = "hw_write hw PT_LEN_LO (pt_bits AND 0xFFFFFFFF) (hw_write hw PT_LEN_HI (drop_bit 32 pt_bits AND 0xFFFFFFFF)
    (hw_write hw AAD_LEN_LO (aad_bits AND 0xFFFFFFFF) (hw_write hw AAD_LEN_HI (drop_bit 32 aad_bits AND 0xFFFFFFFF) d1)))"
  have vd: "view ?d = (view d1)(AAD_LEN_HI := drop_bit 32 aad_bits AND 0xFFFFFFFF, AAD_LEN_LO := aad_bits AND 0xFFFFFFFF,
      PT_LEN_HI := drop_bit 32 pt_bits AND 0xFFFFFFFF, PT_LEN_LO := pt_bits AND 0xFFFFFFFF)"
    using assms(1) by (simp add: reg_file_def)
  have run: "seq_d (write_nonce hw nonce) (\<lambda>_. write_lengths hw aad_bits pt_bits) (e, d) = Some (Inr (), e, ?d)"
    using w by (simp add: write_nonce_def write_lengths_def seq_d_def reg_write_def)
  have "\<forall>i < 3. view ?d (NONCE_BASE + 4 * int i) = from_bytes_be (word_slices 3 nonce ! i)"
    using v unfolding vd by (auto simp: NONCE_BASE_def AAD_LEN_HI_def AAD_LEN_LO_def PT_LEN_HI_def PT_LEN_LO_def)
  from slices_in_registers(1) [of nonce 3 view ?d NONCE_BASE, OF l this]
  have n: "concat (map (\<lambda>i. be_bytes 4 (view ?d (NONCE_BASE + 4 * int i))) [0..<3]) = nonce" .
  have "view ?d AAD_LEN_HI * 2 ^ 32 + view ?d AAD_LEN_LO = aad_bits"
    "view ?d PT_LEN_HI * 2 ^ 32 + view ?d PT_LEN_LO = pt_bits"
    unfolding vd using split_64 [OF assms(3,4)] split_64 [OF assms(5,6)]
    by (simp_all add: AAD_LEN_HI_def AAD_LEN_LO_def PT_LEN_HI_def PT_LEN_LO_def)
  with run n show ?thesis by blast
qed

theorem session_registers_witness:
  "\<exists>d'. seq_d (write_nonce reg_board [0, 0, 0, 1, 0, 0, 0, 0, 0, 0, 0, 9])
       (\<lambda>_. write_lengths reg_board 320 0x123456789A) (demo_engine, \<lambda>_. 0) = Some (Inr (), demo_engine, d') \<and>
     d' PT_LEN_HI * 2 ^ 32 + d' PT_LEN_LO = 0x123456789A"
  using session_registers [OF reg_board_file, of "[0, 0, 0, 1, 0, 0, 0, 0, 0, 0, 0, 9]" 320 "0x123456789A" demo_engine "\<lambda>_. 0"]
  by auto

text \<open>
  Refused calls leave the core alone. On an engine that is not loaded \<^verbatim>\<open>encrypt\<close> and \<^verbatim>\<open>decrypt\<close> raise
  before any hardware access; a nonce of the wrong length or an empty plaintext raises after one
  clock reading; \<^verbatim>\<open>decrypt\<close> never reaches the hardware in this overlay.
\<close>

theorem dma_refusals:
  "dma_encrypt hw nonce aad pt (e\<lparr>de_loaded := False\<rparr>, d) = Some (Inl RuntimeError, e\<lparr>de_loaded := False\<rparr>, d) \<and>
   (length nonce = 12 \<and> pt \<noteq> [] \<or>
      dma_encrypt hw nonce aad pt (e\<lparr>de_loaded := True\<rparr>, d) =
        Some (Inl ValueError, e\<lparr>de_loaded := True\<rparr>, snd (hw_clock hw d))) \<and>
   dma_decrypt nonce aad ct tag (e, d) =
     Some (Inl (if de_loaded e \<and> de_decrypt_supported e then NotImplementedError else RuntimeError), e, d)"
  by (simp add: dma_encrypt_def dma_decrypt_def require_loaded_def seq_d_def get_engine_def raise_d_def ret_def clock_def)

end
