(* ===== verification/Crypto.thy ===== *)
theory Crypto
  imports Aes_Dma
begin

text \<open>
  \<^verbatim>\<open>pc/runtime/aes_gcm_sw.py\<close> (\<^verbatim>\<open>AesGcmSoftware\<close>, the receiver's cipher) and \<^verbatim>\<open>pynq/runtime/crypto.py\<close>
  (\<^verbatim>\<open>CryptoAdapter\<close>, the sender's choice between plaintext, software and DMA).

  \<^verbatim>\<open>AESGCM\<close> of the cryptography package is not part of the repository: its two calls are the
  parameters \<open>enc\<close> and \<open>dec\<close> (key, nonce, data, associated data), and what the code relies on is the
  predicate \<open>aesgcm_spec\<close>, the package's documented behaviour: data and associated data below \<open>2 ^ 31\<close> bytes are encrypted (longer
  ones may raise \<^verbatim>\<open>OverflowError\<close>), the output is the ciphertext, as long as the plaintext, followed by a 16-byte tag,
  and decrypting it gives the plaintext back.
\<close>

type_synonym aead = "bytes \<Rightarrow> bytes \<Rightarrow> bytes \<Rightarrow> bytes \<Rightarrow> bytes result"

definition aesgcm_spec :: "aead \<Rightarrow> aead \<Rightarrow> bool" where
  "aesgcm_spec enc dec \<longleftrightarrow>
     (\<forall>key nonce data aad. length key = 32 \<longrightarrow> length nonce = 12 \<longrightarrow>
        (length data < 2 ^ 31 \<and> length aad < 2 ^ 31 \<longrightarrow> (\<exists>blob. enc key nonce data aad = Inr blob)) \<and>
        (\<forall>blob. enc key nonce data aad = Inr blob \<longrightarrow>
           length blob = length data + 16 \<and> dec key nonce blob aad = Inr data))"

section \<open>pc/runtime/aes_gcm_sw.py\<close>

record aes_gcm_software =
  sw_key :: bytes

text \<open>The flag says whether the cryptography package can be imported.\<close>

definition aes_gcm_software_init :: "bool \<Rightarrow> bytes \<Rightarrow> aes_gcm_software result" where
  "aes_gcm_software_init importable key =
     (if length key \<noteq> 32 then Inl ValueError
      else if \<not> importable then Inl RuntimeError
      else Inr \<lparr>sw_key = key\<rparr>)"

text \<open>The slices \<^verbatim>\<open>blob[:-16]\<close> and \<^verbatim>\<open>blob[-16:]\<close>.\<close>

definition all_but_16 :: "bytes \<Rightarrow> bytes" where
  "all_but_16 blob = take (length blob - 16) blob"

definition last_16 :: "bytes \<Rightarrow> bytes" where
  "last_16 blob = drop (length blob - 16) blob"

definition sw_encrypt :: "aead \<Rightarrow> aes_gcm_software \<Rightarrow> bytes \<Rightarrow> bytes \<Rightarrow> bytes \<Rightarrow> (bytes \<times> bytes) result" where
  "sw_encrypt enc sw nonce aad plaintext =
     bind_r (enc (sw_key sw) nonce plaintext aad) (\<lambda>blob. Inr (all_but_16 blob, last_16 blob))"

definition sw_decrypt :: "aead \<Rightarrow> aes_gcm_software \<Rightarrow> bytes \<Rightarrow> bytes \<Rightarrow> bytes \<Rightarrow> bytes \<Rightarrow> bytes result" where
  "sw_decrypt dec sw nonce aad ciphertext tag = dec (sw_key sw) nonce (ciphertext @ tag) aad"

section \<open>pynq/runtime/crypto.py\<close>

record crypto_adapter =
  ca_mode :: string
  ca_key_hex :: string
  ca_bitstream_path :: string
  ca_sw :: "bytes option"
  ca_dma :: "dma_engine option"

definition crypto_adapter_init :: "string \<Rightarrow> string \<Rightarrow> string \<Rightarrow> crypto_adapter" where
  "crypto_adapter_init mode key_hex bitstream_path =
     \<lparr>ca_mode = mode, ca_key_hex = key_hex, ca_bitstream_path = bitstream_path, ca_sw = None, ca_dma = None\<rparr>"

text \<open>
  What \<^verbatim>\<open>load\<close> finds on the board: files and modules, what loading an overlay file gives, the
  cryptography package, and the DMA timeout of 5 seconds in the clock's unit.
\<close>

record board =
  bd_env :: py_env
  bd_overlay :: "string \<Rightarrow> string list result"
  bd_cryptography :: bool
  bd_timeout :: int

definition adapter_load :: "board \<Rightarrow> crypto_adapter \<Rightarrow> unit result \<times> crypto_adapter" where
  "adapter_load b a =
     (if ca_mode a = ''none'' then (Inr (), a)
      else if ca_mode a = ''dma'' then
        (case bind_r (bytes_fromhex (ca_key_hex a)) (\<lambda>key. dma_engine_init key (bd_timeout b) False) of
           Inl e \<Rightarrow> (Inl e, a)
         | Inr eng \<Rightarrow>
             (case dma_load (bd_env b) (bd_overlay b) (ca_bitstream_path a) eng of
                Inl e \<Rightarrow> (Inl e, a\<lparr>ca_dma := Some eng\<rparr>)
              | Inr eng' \<Rightarrow> (Inr (), a\<lparr>ca_dma := Some eng'\<rparr>)))
      else if ca_mode a = ''aesgcm'' then
        (if \<not> bd_cryptography b then (Inl ImportError, a)
         else case bytes_fromhex (ca_key_hex a) of
           Inl e \<Rightarrow> (Inl e, a)
         | Inr key \<Rightarrow> if length key \<noteq> 32 then (Inl ValueError, a)
                      else (Inr (), a\<lparr>ca_sw := Some key\<rparr>))
      else (Inl ValueError, a))"

text \<open>An adapter call runs against the device; \<open>None\<close> is a driver loop that never ends.\<close>

type_synonym ('a, 'd) adapter_call = "crypto_adapter \<times> 'd \<Rightarrow> ('a result \<times> crypto_adapter \<times> 'd) option"

definition with_dma :: "('a, 'd) drv \<Rightarrow> ('a, 'd) adapter_call" where
  "with_dma call s =
     (case ca_dma (fst s) of
        None \<Rightarrow> Some (Inl AssertionError, s)
      | Some eng \<Rightarrow> (case call (eng, snd s) of
            None \<Rightarrow> None
          | Some (r, eng', d') \<Rightarrow> Some (r, (fst s)\<lparr>ca_dma := Some eng'\<rparr>, d')))"

definition adapter_encrypt :: "'d hw \<Rightarrow> aead \<Rightarrow> bytes \<Rightarrow> bytes \<Rightarrow> bytes \<Rightarrow>
    (bytes \<times> bytes, 'd) adapter_call" where
  "adapter_encrypt hw enc nonce aad payload s =
     (if ca_mode (fst s) = ''none'' then Some (Inr (payload, replicate 16 0), s)
      else if ca_mode (fst s) = ''dma'' then with_dma (dma_encrypt hw nonce aad payload) s
      else case ca_sw (fst s) of
        None \<Rightarrow> Some (Inl AssertionError, s)
      | Some key \<Rightarrow>
          Some (bind_r (enc key nonce payload aad) (\<lambda>blob. Inr (all_but_16 blob, last_16 blob)), s))"

definition adapter_decrypt :: "aead \<Rightarrow> bytes \<Rightarrow> bytes \<Rightarrow> bytes \<Rightarrow> bytes \<Rightarrow> (bytes, 'd) adapter_call" where
  "adapter_decrypt dec nonce aad payload tag s =
     (if ca_mode (fst s) = ''none'' then Some (Inr payload, s)
      else if ca_mode (fst s) = ''dma'' then with_dma (dma_decrypt nonce aad payload tag) s
      else case ca_sw (fst s) of
        None \<Rightarrow> Some (Inl AssertionError, s)
      | Some key \<Rightarrow> Some (dec key nonce (payload @ tag) aad, s))"

definition adapter_close :: "crypto_adapter \<Rightarrow> crypto_adapter" where
  "adapter_close a =
     (case ca_dma a of None \<Rightarrow> a | Some eng \<Rightarrow> a\<lparr>ca_dma := Some (dma_close eng)\<rparr>)"

section \<open>The sealing contract\<close>

text \<open>
  What the sender and the receiver rely on: sealing under a 12-byte nonce always succeeds with a
  ciphertext as long as the plaintext and a 16-byte tag, and opening it under the same nonce and
  associated data gives the plaintext back.
\<close>

locale sealed_channel =
  fixes seal :: "bytes \<Rightarrow> bytes \<Rightarrow> bytes \<Rightarrow> (bytes \<times> bytes) result"
    and unseal :: "bytes \<Rightarrow> bytes \<Rightarrow> bytes \<Rightarrow> bytes \<Rightarrow> bytes result"
  assumes seal_ok: "length nonce = 12 \<Longrightarrow> length pt < 2 ^ 31 \<Longrightarrow> length aad < 2 ^ 31 \<Longrightarrow> \<exists>ct tag. seal nonce aad pt = Inr (ct, tag)"
    and seal_lengths: "length nonce = 12 \<Longrightarrow> seal nonce aad pt = Inr (ct, tag) \<Longrightarrow> length ct = length pt \<and> length tag = 16"
    and unseal_seal: "length nonce = 12 \<Longrightarrow> seal nonce aad pt = Inr (ct, tag) \<Longrightarrow> unseal nonce aad ct tag = Inr pt"
begin

lemma seal_unseal:
  assumes "length nonce = 12" and "length pt < 2 ^ 31" and "length aad < 2 ^ 31"
  shows "\<exists>ct tag. seal nonce aad pt = Inr (ct, tag) \<and> length ct = length pt \<and> length tag = 16 \<and>
      unseal nonce aad ct tag = Inr pt"
  using seal_ok [OF assms] seal_lengths [OF assms(1)] unseal_seal [OF assms(1)] by blast

lemma seal_inj:
  assumes "length nonce = 12" and "seal nonce aad p = Inr c" and "seal nonce aad q = Inr c"
  shows "p = q"
  by (cases c) (metis sum.inject(2) assms unseal_seal)

end

lemma split_blob: "all_but_16 blob @ last_16 blob = blob"
  by (simp add: all_but_16_def last_16_def)

lemma length_last_16: "16 \<le> length blob \<Longrightarrow> length (last_16 blob) = 16"
  by (simp add: last_16_def)

lemma length_all_but_16: "length (all_but_16 blob) = length blob - 16"
  by (simp add: all_but_16_def)

lemmas blob_simps = split_blob length_last_16 length_all_but_16

lemma sw_sealed_channel:
  assumes "aesgcm_spec enc dec" and "length (sw_key sw) = 32"
  shows "sealed_channel (sw_encrypt enc sw) (sw_decrypt dec sw)"
proof
  fix nonce aad pt :: bytes assume n: "length nonce = 12"
  show "\<exists>ct tag. sw_encrypt enc sw nonce aad pt = Inr (ct, tag)" if l: "length pt < 2 ^ 31" "length aad < 2 ^ 31"
  proof -
    obtain blob where "enc (sw_key sw) nonce pt aad = Inr blob" using assms n l unfolding aesgcm_spec_def by blast
    then show ?thesis by (simp add: sw_encrypt_def)
  qed
  fix ct tag assume "sw_encrypt enc sw nonce aad pt = Inr (ct, tag)"
  then obtain blob where b: "enc (sw_key sw) nonce pt aad = Inr blob" "ct = all_but_16 blob" "tag = last_16 blob"
    by (auto simp: sw_encrypt_def bind_r_eq_Inr)
  then have "length blob = length pt + 16" "dec (sw_key sw) nonce blob aad = Inr pt"
    using assms n unfolding aesgcm_spec_def by blast+
  with b show "length ct = length pt \<and> length tag = 16" "sw_decrypt dec sw nonce aad ct tag = Inr pt"
    by (simp_all add: sw_decrypt_def blob_simps)
qed

text \<open>The adapter's plaintext mode meets the contract whatever the device and the cipher are.\<close>

interpretation plain_mode: sealed_channel
  "\<lambda>nonce aad pt. fst (the (adapter_encrypt hw enc nonce aad pt (crypto_adapter_init ''none'' k bpath, d)))"
  "\<lambda>nonce aad ct tag. fst (the (adapter_decrypt dec nonce aad ct tag (crypto_adapter_init ''none'' k bpath, d)))"
  by unfold_locales (auto simp: adapter_encrypt_def adapter_decrypt_def crypto_adapter_init_def)

text \<open>A loaded software adapter behaves as the receiver's \<^verbatim>\<open>AesGcmSoftware\<close> with the same key.\<close>

definition sw_ready :: "bytes \<Rightarrow> crypto_adapter \<Rightarrow> bool" where
  "sw_ready key a \<longleftrightarrow> ca_mode a = ''aesgcm'' \<and> ca_sw a = Some key \<and> ca_dma a = None \<and> length key = 32"

lemma adapter_encrypt_sw:
  "sw_ready key a \<Longrightarrow>
     adapter_encrypt hw enc nonce aad pt (a, d) = Some (sw_encrypt enc \<lparr>sw_key = key\<rparr> nonce aad pt, a, d)"
  by (simp add: adapter_encrypt_def sw_ready_def sw_encrypt_def)

lemma adapter_load_sw:
  assumes "bytes_fromhex hex = Inr key" and "length key = 32" and "bd_cryptography b"
  shows "\<exists>a. adapter_load b (crypto_adapter_init ''aesgcm'' hex bpath) = (Inr (), a) \<and> sw_ready key a"
  using assms by (simp add: adapter_load_def crypto_adapter_init_def sw_ready_def)

section \<open>A concrete cipher\<close>

text \<open>
  A stand-in that meets \<open>aesgcm_spec\<close>: the data is masked with a byte and the tag is a checksum of all
  four inputs, verified on decryption. It shows that the hypothesis can hold.
\<close>

definition demo_tag :: "bytes \<Rightarrow> bytes \<Rightarrow> bytes \<Rightarrow> bytes \<Rightarrow> bytes" where
  "demo_tag key nonce data aad =
     replicate 16 (sum_list key + sum_list nonce + sum_list data + sum_list aad)"

definition demo_enc :: aead where
  "demo_enc key nonce data aad = Inr (map (\<lambda>b. 255 - b) data @ demo_tag key nonce data aad)"

definition demo_dec :: aead where
  "demo_dec key nonce blob aad =
     (let data = map (\<lambda>b. 255 - b) (all_but_16 blob)
      in if last_16 blob = demo_tag key nonce data aad then Inr data else Inl InvalidTag)"

lemma demo_aesgcm_spec: "aesgcm_spec demo_enc demo_dec"
proof -
  have t: "length (demo_tag key nonce data aad) = 16" for key nonce data aad
    by (simp add: demo_tag_def)
  then have "all_but_16 (xs @ demo_tag key nonce data aad) = xs"
    and "last_16 (xs @ demo_tag key nonce data aad) = demo_tag key nonce data aad"
    for xs key nonce data aad
    by (simp_all add: all_but_16_def last_16_def)
  then show ?thesis
    using t by (simp add: aesgcm_spec_def demo_enc_def demo_dec_def Let_def o_def)
qed

end
