(* ===== verification/Rx_Main.thy ===== *)
theory Rx_Main
  imports Reassembly Nonce_Validator Crypto
begin

text \<open>
  \<^verbatim>\<open>pc/runtime/main_rx.py\<close>: the receiver. One datagram goes through padding removal, format detection
  (OSV datagram with a clear header, or PL packet whose header is encrypted too), header checks, the
  nonce filter, the key id check, decryption and reassembly. Everything the loop changes is in
  \<open>rx_state\<close>; the frames handed to \<^verbatim>\<open>display.show\<close> are recorded in order.
\<close>

section \<open>Definitions\<close>

definition rx_nonce :: "int \<Rightarrow> bytes result" where
  "rx_nonce counter = bind_r (to_bytes_be 8 counter) (\<lambda>c. Inr ([0, 0, 0, 1] @ c))"

definition strip_transport_padding :: "bytes \<Rightarrow> bytes result" where
  "strip_transport_padding datagram =
     (if length datagram \<noteq> TRANSPORT_SLOT_BYTES then Inl ValueError
      else if list_ex (\<lambda>b. b \<noteq> 0) (drop AUTHENTICATED_BODY_BYTES datagram) then Inl ValueError
      else Inr (take AUTHENTICATED_BODY_BYTES datagram))"

record rx_state =
  rx_reasm :: frame_reassembler
  rx_validator :: nonce_validator
  rx_completed :: int
  rx_dropped :: int
  rx_shown :: "bytes list"

definition is_pl_format :: "bytes \<Rightarrow> bool" where
  "is_pl_format datagram \<longleftrightarrow> 40 \<le> length datagram \<and> slice 0 2 datagram \<noteq> [0x4F, 0x56]"

text \<open>The body of the PL branch: any exception in it drops the datagram.\<close>

definition open_pl :: "aead \<Rightarrow> aes_gcm_software \<Rightarrow> bytes \<Rightarrow> (packet_header \<times> bytes \<times> bytes) result" where
  "open_pl dec sw datagram =
     (if length datagram < 8 + 16 then Inl ValueError
      else let nonce_prefix = from_bytes_be (slice 0 8 datagram);
               pl_ct = drop 8 (all_but_16 datagram);
               pl_tag = last_16 datagram
           in bind_r (rx_nonce nonce_prefix) (\<lambda>n.
              bind_r (sw_decrypt dec sw n [] pl_ct pl_tag) (\<lambda>pl_plain.
              if length pl_plain < 40 then Inl ValueError
              else bind_r (unpack_header (take 40 pl_plain)) (\<lambda>h. Inr (h, drop 40 pl_plain, pl_tag)))))"

text \<open>From the wire to a parsed header: padding, format detection, parsing.\<close>

definition rx_parse :: "aead \<Rightarrow> aes_gcm_software \<Rightarrow> bytes \<Rightarrow>
    (bool \<times> packet_header \<times> bytes \<times> bytes) result" where
  "rx_parse dec sw datagram0 =
     bind_r (if length datagram0 = TRANSPORT_SLOT_BYTES then strip_transport_padding datagram0
             else Inr datagram0) (\<lambda>datagram.
       if is_pl_format datagram
       then bind_r (open_pl dec sw datagram) (\<lambda>x. Inr (True, x))
       else bind_r (split_datagram datagram) (\<lambda>x. Inr (False, x)))"

definition rx_plain :: "aead \<Rightarrow> aes_gcm_software \<Rightarrow> bool \<Rightarrow> packet_header \<Rightarrow> bytes \<Rightarrow> bytes \<Rightarrow> bytes result" where
  "rx_plain dec sw pl h payload tag =
     (if pl then Inr payload
      else bind_r (pack_header h) (\<lambda>aad.
           bind_r (rx_nonce (nonce_counter h)) (\<lambda>n. sw_decrypt dec sw n aad payload tag)))"

definition rx_drop :: "rx_state \<Rightarrow> unit result \<times> rx_state" where
  "rx_drop s = (Inr (), s\<lparr>rx_dropped := rx_dropped s + 1\<rparr>)"

text \<open>The last part of the turn: reassemble; a completed frame is counted and shown.\<close>

definition rx_deliver :: "rx_state \<Rightarrow> packet_header \<Rightarrow> bytes \<Rightarrow> unit result \<times> rx_state" where
  "rx_deliver s h p =
     (case push (rx_reasm s) h p of
        (Inl e, r) \<Rightarrow> (Inl e, s\<lparr>rx_reasm := r\<rparr>)
      | (Inr None, r) \<Rightarrow> (Inr (), s\<lparr>rx_reasm := r\<rparr>)
      | (Inr (Some frame), r) \<Rightarrow> (Inr (), s\<lparr>rx_reasm := r, rx_completed := rx_completed s + 1,
                                            rx_shown := rx_shown s @ [frame]\<rparr>))"

text \<open>
  One turn of the receive loop on a received datagram. Only \<^verbatim>\<open>reasm.push\<close> is outside a handler; an
  exception there would leave the loop. \<^verbatim>\<open>display.show\<close> is called with the completed frame and its
  exceptions are caught.
\<close>

definition rx_step :: "aead \<Rightarrow> aes_gcm_software \<Rightarrow> bool \<Rightarrow> int \<Rightarrow> rx_state \<Rightarrow> bytes \<Rightarrow>
    unit result \<times> rx_state" where
  "rx_step dec sw strict kid s datagram =
     (case rx_parse dec sw datagram of
        Inl _ \<Rightarrow> rx_drop s
      | Inr (pl, h, payload, tag) \<Rightarrow>
          if validate_header h \<noteq> [] then rx_drop s
          else let (ok, v) = validate_and_track (rx_validator s) (nonce_counter h);
                   s1 = s\<lparr>rx_validator := v\<rparr>
               in if \<not> ok \<and> strict then rx_drop s1
                  else if key_id h \<noteq> kid then rx_drop s1
                  else case rx_plain dec sw pl h payload tag of
                    Inl _ \<Rightarrow> rx_drop s1
                  | Inr plain \<Rightarrow> rx_deliver s1 h plain)"

text \<open>
  The receive loop over what the socket delivers. The list is what arrives; when it ends while
  frames are still wanted, \<^verbatim>\<open>recvfrom\<close> is still waiting.
\<close>

datatype recv_event = Datagram bytes | RecvTimeout

datatype rx_outcome = RxDone | RxTimeout | RxWaiting | RxRaised py_error

fun rx_loop :: "aead \<Rightarrow> aes_gcm_software \<Rightarrow> bool \<Rightarrow> int \<Rightarrow> int \<Rightarrow> rx_state \<Rightarrow> recv_event list \<Rightarrow>
    rx_outcome \<times> rx_state" where
  "rx_loop dec sw strict kid max_frames s [] =
     (if rx_completed s < max_frames then RxWaiting else RxDone, s)"
| "rx_loop dec sw strict kid max_frames s (RecvTimeout # evs) =
     (if rx_completed s < max_frames then RxTimeout else RxDone, s)"
| "rx_loop dec sw strict kid max_frames s (Datagram dg # evs) =
     (if rx_completed s < max_frames
      then case rx_step dec sw strict kid s dg of
             (Inl e, s') \<Rightarrow> (RxRaised e, s')
           | (Inr _, s') \<Rightarrow> rx_loop dec sw strict kid max_frames s' evs
      else (RxDone, s))"

text \<open>\<^verbatim>\<open>parse_args\<close> and its defaults, and the configuration entries \<^verbatim>\<open>main\<close> uses.\<close>

record rx_args =
  rxa_config_dir :: string
  rxa_key_hex :: string
  rxa_max_frames :: int
  rxa_display_mode :: string
  rxa_strict_nonce :: bool

definition rx_default_args :: "string option \<Rightarrow> rx_args" where
  "rx_default_args env_key =
     \<lparr>rxa_config_dir = ''config'',
      rxa_key_hex = (case env_key of
          None \<Rightarrow> ''000102030405060708090A0B0C0D0E0F000102030405060708090A0B0C0D0E0F''
        | Some k \<Rightarrow> k),
      rxa_max_frames = 120, rxa_display_mode = ''opencv'', rxa_strict_nonce = False\<rparr>"

record rx_config =
  rxc_key_id :: int
  rxc_replay_window :: int

definition rx_init :: "bool \<Rightarrow> int \<Rightarrow> rx_state" where
  "rx_init strict window =
     \<lparr>rx_reasm = reassembler_init 8,
      rx_validator = nonce_validator_init window (if strict then Some 0 else None),
      rx_completed = 0, rx_dropped = 0, rx_shown = []\<rparr>"

text \<open>
  \<^verbatim>\<open>main\<close>: a failed configuration load exits with status 1; the key and key id checks raise. The
  outcome is the loop's, with the final state.
\<close>

definition rx_main :: "aead \<Rightarrow> bool \<Rightarrow> rx_config result \<Rightarrow> rx_args \<Rightarrow> recv_event list \<Rightarrow>
    (rx_outcome \<times> rx_state) result" where
  "rx_main dec importable config args evs =
     (case config of
        Inl e \<Rightarrow> Inl (if e = FileNotFoundError \<or> e = YAMLError then SystemExit else e)
      | Inr cfg \<Rightarrow>
          if rxa_key_hex args = [] then Inl ValueError
          else bind_r (bytes_fromhex (rxa_key_hex args)) (\<lambda>key.
            if length key \<noteq> 32 then Inl ValueError
            else if \<not> (0 < rxc_key_id cfg \<and> rxc_key_id cfg < 256) then Inl ValueError
            else bind_r (aes_gcm_software_init importable key) (\<lambda>sw.
              if rxa_display_mode args \<noteq> ''opencv'' \<and> rxa_display_mode args \<noteq> ''headless''
              then Inl ValueError
              else Inr (rx_loop dec sw (rxa_strict_nonce args) (rxc_key_id cfg) (rxa_max_frames args)
                     (rx_init (rxa_strict_nonce args) (rxc_replay_window cfg)) evs))))"

section \<open>Parsing\<close>

lemma rx_nonce_defined: "0 \<le> c \<Longrightarrow> c < 2 ^ 64 \<Longrightarrow> rx_nonce c = Inr ([0, 0, 0, 1] @ be_bytes 8 c)"
  by (simp add: rx_nonce_def to_bytes_be_def)

lemma rx_nonce_length: "rx_nonce c = Inr n \<Longrightarrow> length n = 12"
  by (auto simp: rx_nonce_def to_bytes_be_def split: if_splits)

lemma be_bytes_2: "be_bytes 2 0x4F56 = [0x4F, 0x56]"
  by code_simp

lemma pack_header_magic:
  assumes "pack_header h = Inr bs" and "magic h = MAGIC"
  shows "take 2 bs = [0x4F, 0x56]"
proof -
  obtain rest where "bs = be_bytes 2 (magic h) @ rest"
    using assms(1) unfolding pack_header_def header_struct header_values_def
    by (auto simp: bind_r_eq_Inr simp del: be_bytes.simps split: if_splits)
  then show ?thesis using assms(2) be_bytes_2 by (simp add: MAGIC_def)
qed

lemma build_datagram_length:
  assumes "build_datagram h ct tag = Inr dg"
  shows "length dg = 40 + length ct + length tag"
  using assms pack_header_length
  by (fastforce simp: build_datagram_def bind_r_eq_Inr HEADER_SIZE_BYTES_def split: if_splits)

lemma build_datagram_not_pl:
  assumes "build_datagram h ct tag = Inr dg" and "magic h = MAGIC"
  shows "\<not> is_pl_format dg"
proof -
  from assms(1) obtain hb where hb: "pack_header h = Inr hb" and dg: "dg = hb @ ct @ tag"
    by (auto simp: build_datagram_def bind_r_eq_Inr split: if_splits)
  have "length hb = 40" using pack_header_length [OF hb] by (simp add: HEADER_SIZE_BYTES_def)
  with pack_header_magic [OF hb assms(2)] show ?thesis
    by (simp add: is_pl_format_def slice_def dg)
qed

lemma rx_parse_osv:
  assumes "build_datagram h ct tag = Inr dg" and "magic h = MAGIC"
    and "length dg \<noteq> TRANSPORT_SLOT_BYTES"
  shows "rx_parse dec sw dg = Inr (False, h, ct, tag)"
  using assms build_datagram_not_pl [OF assms(1,2)] split_build [OF assms(1)]
  by (simp add: rx_parse_def)

text \<open>
  A datagram is accepted as a header and a plaintext when it parses, its header passes the checks
  and carries the expected key id, and decryption succeeds.
\<close>

definition accepts :: "aead \<Rightarrow> aes_gcm_software \<Rightarrow> int \<Rightarrow> bytes \<Rightarrow> packet_header \<Rightarrow> bytes \<Rightarrow> bool" where
  "accepts dec sw kid dg h p \<longleftrightarrow>
     (\<exists>pl payload tag. rx_parse dec sw dg = Inr (pl, h, payload, tag) \<and> validate_header h = [] \<and>
        key_id h = kid \<and> rx_plain dec sw pl h payload tag = Inr p)"

lemma rx_step_accepts:
  assumes "accepts dec sw kid dg h p"
  shows "rx_step dec sw strict kid s dg =
     (if \<not> fst (validate_and_track (rx_validator s) (nonce_counter h)) \<and> strict
      then rx_drop (s\<lparr>rx_validator := snd (validate_and_track (rx_validator s) (nonce_counter h))\<rparr>)
      else rx_deliver (s\<lparr>rx_validator := snd (validate_and_track (rx_validator s) (nonce_counter h))\<rparr>) h p)"
proof -
  from assms obtain pl payload tag where "rx_parse dec sw dg = Inr (pl, h, payload, tag)"
      "validate_header h = []" "key_id h = kid" "rx_plain dec sw pl h payload tag = Inr p"
    unfolding accepts_def by blast
  then show ?thesis by (simp add: rx_step_def case_prod_beta Let_def)
qed

lemma rx_step_rejects:
  assumes "\<And>h p. \<not> accepts dec sw kid dg h p"
  shows "\<exists>v. rx_step dec sw strict kid s dg = rx_drop (s\<lparr>rx_validator := v\<rparr>) \<and>
     (v = rx_validator s \<or> (\<exists>n. v = snd (validate_and_track (rx_validator s) n)))"
proof (cases "rx_parse dec sw dg")
  case (Inl e)
  then show ?thesis by (intro exI [of _ "rx_validator s"]) (simp add: rx_step_def)
next
  case (Inr x)
  obtain pl h payload tag where p: "rx_parse dec sw dg = Inr (pl, h, payload, tag)"
    using Inr by (cases x) auto
  let ?t = "validate_and_track (rx_validator s) (nonce_counter h)"
  consider "validate_header h \<noteq> []"
    | "validate_header h = []" "key_id h \<noteq> kid"
    | e where "validate_header h = []" "key_id h = kid" "rx_plain dec sw pl h payload tag = Inl e"
    using assms p unfolding accepts_def by (metis sum.exhaust)
  then show ?thesis
  proof cases
    case 1
    with p show ?thesis by (intro exI [of _ "rx_validator s"]) (simp add: rx_step_def)
  next
    case 2
    with p show ?thesis by (intro exI [of _ "snd ?t"]) (auto simp: rx_step_def case_prod_beta Let_def)
  next
    case 3
    with p show ?thesis by (intro exI [of _ "snd ?t"]) (auto simp: rx_step_def case_prod_beta Let_def)
  qed
qed

lemma rx_step_cases:
  obtains (drop) v where "rx_step dec sw strict kid s dg = rx_drop (s\<lparr>rx_validator := v\<rparr>)"
      "v = rx_validator s \<or> (\<exists>n. v = snd (validate_and_track (rx_validator s) n))"
  | (deliver) h p where "accepts dec sw kid dg h p"
      "rx_step dec sw strict kid s dg =
        rx_deliver (s\<lparr>rx_validator := snd (validate_and_track (rx_validator s) (nonce_counter h))\<rparr>) h p"
      "\<not> strict \<or> fst (validate_and_track (rx_validator s) (nonce_counter h))"
proof (cases "\<exists>h p. accepts dec sw kid dg h p")
  case True
  then obtain h p where a: "accepts dec sw kid dg h p" by blast
  let ?t = "validate_and_track (rx_validator s) (nonce_counter h)"
  show ?thesis
  proof (cases "\<not> fst ?t \<and> strict")
    case True
    with rx_step_accepts [OF a, of strict s] show ?thesis by (intro drop [of "snd ?t"]) auto
  next
    case False
    with rx_step_accepts [OF a, of strict s] show ?thesis by (intro deliver [OF a]) auto
  qed
next
  case False
  with rx_step_rejects [of dec sw kid dg strict s] show ?thesis using drop by blast
qed

section \<open>Invariant and history\<close>

definition rx_inv :: "rx_state \<Rightarrow> bool" where
  "rx_inv s \<longleftrightarrow> reasm_inv (rx_reasm s) \<and> seen_bounded (rx_validator s)"

lemma rx_init_inv: "rx_inv (rx_init strict w)"
  using reassembler_init_inv [of 8]
  by (simp add: rx_inv_def rx_init_def seen_bounded_def nonce_validator_init_def)

lemma rx_drop_simps [simp]:
  "fst (rx_drop s) = Inr ()"
  "snd (rx_drop s) = s\<lparr>rx_dropped := rx_dropped s + 1\<rparr>"
  by (simp_all add: rx_drop_def)

lemma rx_deliver_reasm:
  assumes "reasm_inv (rx_reasm s)"
  shows "fst (rx_deliver s h p) = Inr ()"
    and "rx_reasm (snd (rx_deliver s h p)) = snd (push (rx_reasm s) h p)"
    and "rx_validator (snd (rx_deliver s h p)) = rx_validator s"
    and "rx_dropped (snd (rx_deliver s h p)) = rx_dropped s"
    and "rx_shown (snd (rx_deliver s h p)) =
      rx_shown s @ (case fst (push (rx_reasm s) h p) of Inr (Some f) \<Rightarrow> [f] | _ \<Rightarrow> [])"
    and "rx_completed (snd (rx_deliver s h p)) =
      rx_completed s + (case fst (push (rx_reasm s) h p) of Inr (Some f) \<Rightarrow> 1 | _ \<Rightarrow> 0)"
proof -
  obtain out where "fst (push (rx_reasm s) h p) = Inr out" using push_total [OF assms] by blast
  then obtain r where "push (rx_reasm s) h p = (Inr out, r)" by (metis prod.collapse)
  then show "fst (rx_deliver s h p) = Inr ()"
    and "rx_reasm (snd (rx_deliver s h p)) = snd (push (rx_reasm s) h p)"
    and "rx_validator (snd (rx_deliver s h p)) = rx_validator s"
    and "rx_dropped (snd (rx_deliver s h p)) = rx_dropped s"
    and "rx_shown (snd (rx_deliver s h p)) =
      rx_shown s @ (case fst (push (rx_reasm s) h p) of Inr (Some f) \<Rightarrow> [f] | _ \<Rightarrow> [])"
    and "rx_completed (snd (rx_deliver s h p)) =
      rx_completed s + (case fst (push (rx_reasm s) h p) of Inr (Some f) \<Rightarrow> 1 | _ \<Rightarrow> 0)"
    by (cases out; simp add: rx_deliver_def)+
qed

lemma rx_step_inv:
  assumes "rx_inv s"
  shows "rx_inv (snd (rx_step dec sw strict kid s dg))"
proof (cases rule: rx_step_cases [of dec sw strict kid s dg])
  case (drop v)
  then show ?thesis using assms validate_bounded by (auto simp: rx_inv_def)
next
  case (deliver h p)
  then show ?thesis
    using assms by (simp add: rx_inv_def rx_deliver_reasm push_inv validate_bounded)
qed

lemma rx_step_total: "rx_inv s \<Longrightarrow> fst (rx_step dec sw strict kid s dg) = Inr ()"
  by (cases rule: rx_step_cases [of dec sw strict kid s dg])
    (simp_all add: rx_inv_def rx_deliver_reasm)

interpretation rx: invariant_machine "rx_step dec sw strict kid" rx_inv
  by unfold_locales (rule rx_step_inv)

text \<open>
  What a run of the receiver amounts to: the list of packets it pushed. Every pushed packet was
  accepted from a received datagram, every other datagram was dropped, and the frames shown are
  the frames the pushes returned.
\<close>

definition shown_frames :: "bytes option result list \<Rightarrow> bytes list" where
  "shown_frames outs = concat (map (\<lambda>out. case out of Inr (Some f) \<Rightarrow> [f] | _ \<Rightarrow> []) outs)"

lemma shown_frames_snoc [simp]:
  "shown_frames (outs @ [out]) = shown_frames outs @ (case out of Inr (Some f) \<Rightarrow> [f] | _ \<Rightarrow> [])"
  by (simp add: shown_frames_def)

abbreviation rx_run :: "aead \<Rightarrow> aes_gcm_software \<Rightarrow> bool \<Rightarrow> int \<Rightarrow> rx_state \<Rightarrow> bytes list \<Rightarrow> rx_state" where
  "rx_run dec sw strict kid s dgs \<equiv> snd (run_outs (rx_step dec sw strict kid) s dgs)"

definition rx_history :: "aead \<Rightarrow> aes_gcm_software \<Rightarrow> int \<Rightarrow> bytes list \<Rightarrow> (packet_header \<times> bytes) list \<Rightarrow>
    rx_state \<Rightarrow> bool" where
  "rx_history dec sw kid dgs H s \<longleftrightarrow>
     rx_reasm s = snd (run_outs push_packet (reassembler_init 8) H) \<and>
     rx_shown s = shown_frames (fst (run_outs push_packet (reassembler_init 8) H)) \<and>
     rx_completed s = int (length (rx_shown s)) \<and>
     rx_dropped s + int (length H) = int (length dgs) \<and>
     (\<forall>hp \<in> set H. \<exists>dg \<in> set dgs. accepts dec sw kid dg (fst hp) (snd hp))"

lemma rx_history_push:
  assumes "rx_history dec sw kid dgs H s" and "accepts dec sw kid dg h p"
  shows "rx_history dec sw kid (dgs @ [dg]) (H @ [(h, p)]) (snd (rx_deliver (s\<lparr>rx_validator := v\<rparr>) h p))"
proof -
  have "reasm_inv (snd (run_outs push_packet (reassembler_init 8) H))"
    by (rule reasm.run_inv) (simp add: reassembler_init_inv)
  with assms(1) have i: "reasm_inv (rx_reasm (s\<lparr>rx_validator := v\<rparr>))" by (simp add: rx_history_def)
  show ?thesis
    using assms unfolding rx_history_def rx_deliver_reasm [OF i]
    by (auto simp: run_outs_append push_packet_def split: sum.split option.split)
qed

lemma rx_history_drop:
  "rx_history dec sw kid dgs H s \<Longrightarrow>
     rx_history dec sw kid (dgs @ [dg]) H (snd (rx_drop (s\<lparr>rx_validator := v\<rparr>)))"
  by (auto simp: rx_history_def)

lemma rx_history_init: "rx_history dec sw kid [] [] (rx_init strict w)"
  by (simp add: rx_history_def rx_init_def shown_frames_def)

lemma rx_run_history:
  "\<exists>H. rx_history dec sw kid dgs H (rx_run dec sw strict kid (rx_init strict' w) dgs)"
proof (induction dgs rule: rev_induct)
  case Nil
  show ?case by (auto intro: rx_history_init)
next
  case (snoc dg dgs)
  then obtain H where H: "rx_history dec sw kid dgs H (rx_run dec sw strict kid (rx_init strict' w) dgs)" ..
  show ?case
  proof (cases rule: rx_step_cases [of dec sw strict kid "rx_run dec sw strict kid (rx_init strict' w) dgs" dg])
    case (drop v)
    with rx_history_drop [OF H] show ?thesis by (auto simp: run_outs_append)
  next
    case (deliver h p)
    with rx_history_push [OF H deliver(1)] show ?thesis by (auto simp: run_outs_append)
  qed
qed

section \<open>The loop as a run\<close>

definition datagrams :: "recv_event list \<Rightarrow> bytes list" where
  "datagrams evs = concat (map (\<lambda>e. case e of Datagram dg \<Rightarrow> [dg] | RecvTimeout \<Rightarrow> []) evs)"

lemma datagrams_simps [simp]:
  "datagrams [] = []"
  "datagrams (Datagram dg # evs) = dg # datagrams evs"
  "datagrams (RecvTimeout # evs) = datagrams evs"
  by (simp_all add: datagrams_def)

lemma rx_loop_step:
  assumes "rx_inv s" and "rx_completed s < m"
  shows "rx_loop dec sw strict kid m s (Datagram dg # evs) =
     rx_loop dec sw strict kid m (snd (rx_step dec sw strict kid s dg)) evs"
  using rx_step_total [OF assms(1), of dec sw strict kid dg] assms(2)
  by (cases "rx_step dec sw strict kid s dg") simp

lemma rx_step_completed:
  assumes "rx_inv s"
  shows "rx_completed (snd (rx_step dec sw strict kid s dg)) \<le> rx_completed s + 1"
proof (cases rule: rx_step_cases [of dec sw strict kid s dg])
  case (drop v)
  then show ?thesis by simp
next
  case (deliver h p)
  then show ?thesis using assms by (auto simp: rx_inv_def rx_deliver_reasm split: sum.split option.split)
qed

text \<open>
  The loop never raises, stops at the frame limit, and its final state is the state after a prefix
  of the datagrams that arrived.
\<close>

lemma rx_loop_run:
  assumes "rx_inv s"
  shows "(\<exists>k. snd (rx_loop dec sw strict kid m s evs) = rx_run dec sw strict kid s (take k (datagrams evs))) \<and>
     (\<forall>e. fst (rx_loop dec sw strict kid m s evs) \<noteq> RxRaised e) \<and>
     rx_completed (snd (rx_loop dec sw strict kid m s evs)) \<le> max m (rx_completed s)"
  using assms
proof (induction evs arbitrary: s)
  case Nil
  then show ?case by simp
next
  case (Cons ev evs)
  show ?case
  proof (cases "rx_completed s < m \<and> ev \<noteq> RecvTimeout")
    case False
    then have "rx_loop dec sw strict kid m s (ev # evs) =
        (if rx_completed s < m then RxTimeout else RxDone, s)"
      by (cases ev) auto
    then show ?thesis by (auto intro: exI [of _ 0])
  next
    case True
    then obtain dg where ev: "ev = Datagram dg" by (cases ev) auto
    let ?s = "snd (rx_step dec sw strict kid s dg)"
    have l: "rx_loop dec sw strict kid m s (ev # evs) = rx_loop dec sw strict kid m ?s evs"
      using rx_loop_step Cons.prems True ev by simp
    have "max m (rx_completed ?s) \<le> max m (rx_completed s)"
      using True rx_step_completed [OF Cons.prems, of dec sw strict kid dg] by simp
    moreover obtain k where "snd (rx_loop dec sw strict kid m ?s evs) =
        rx_run dec sw strict kid ?s (take k (datagrams evs))"
      using Cons.IH [OF rx_step_inv [OF Cons.prems]] by blast
    then have "snd (rx_loop dec sw strict kid m ?s evs) =
        rx_run dec sw strict kid s (take (Suc k) (datagrams (ev # evs)))"
      by (simp add: ev)
    ultimately show ?thesis
      unfolding l using Cons.IH [OF rx_step_inv [OF Cons.prems]] order_trans by blast
  qed
qed

text \<open>
  Which datagrams a run of the loop handles: all before the first timeout, unless the frame limit stops it earlier.
\<close>

definition before_timeout :: "recv_event list \<Rightarrow> bytes list" where
  "before_timeout evs = datagrams (takeWhile (\<lambda>ev. ev \<noteq> RecvTimeout) evs)"

lemma rx_loop_handles:
  assumes "rx_inv s"
  shows "\<exists>k. snd (rx_loop dec sw strict kid m s evs) = rx_run dec sw strict kid s (take k (before_timeout evs)) \<and>
     (fst (rx_loop dec sw strict kid m s evs) = RxDone \<or> length (before_timeout evs) \<le> k) \<and>
     (fst (rx_loop dec sw strict kid m s evs) = RxDone \<longleftrightarrow> m \<le> rx_completed (snd (rx_loop dec sw strict kid m s evs)))"
  using assms
proof (induction evs arbitrary: s)
  case Nil
  then show ?case by (simp add: before_timeout_def)
next
  case (Cons ev evs)
  show ?case
  proof (cases "rx_completed s < m \<and> ev \<noteq> RecvTimeout")
    case False
    then have "rx_loop dec sw strict kid m s (ev # evs) = (if rx_completed s < m then RxTimeout else RxDone, s)"
      by (cases ev) auto
    with False show ?thesis by (intro exI [of _ 0]) (auto simp: before_timeout_def)
  next
    case True
    then obtain dg where ev: "ev = Datagram dg" by (cases ev) auto
    let ?s = "snd (rx_step dec sw strict kid s dg)"
    have l: "rx_loop dec sw strict kid m s (ev # evs) = rx_loop dec sw strict kid m ?s evs"
      using rx_loop_step Cons.prems True ev by simp
    have b: "before_timeout (ev # evs) = dg # before_timeout evs" by (simp add: before_timeout_def ev)
    obtain k where "snd (rx_loop dec sw strict kid m ?s evs) = rx_run dec sw strict kid ?s (take k (before_timeout evs))"
      "fst (rx_loop dec sw strict kid m ?s evs) = RxDone \<or> length (before_timeout evs) \<le> k"
      "fst (rx_loop dec sw strict kid m ?s evs) = RxDone \<longleftrightarrow> m \<le> rx_completed (snd (rx_loop dec sw strict kid m ?s evs))"
      using Cons.IH [OF rx_step_inv [OF Cons.prems]] by blast
    then show ?thesis unfolding l b by (intro exI [of _ "Suc k"]) simp
  qed
qed

lemma rx_loop_history:
  "\<exists>H dgs. set dgs \<subseteq> set (datagrams evs) \<and>
     rx_history dec sw kid dgs H (snd (rx_loop dec sw strict kid m (rx_init strict w) evs))"
proof -
  obtain k where "snd (rx_loop dec sw strict kid m (rx_init strict w) evs) =
      rx_run dec sw strict kid (rx_init strict w) (take k (datagrams evs))"
    using rx_loop_run [OF rx_init_inv] by blast
  then show ?thesis
    using rx_run_history [of dec sw kid "take k (datagrams evs)" strict strict w] set_take_subset
    by metis
qed

lemma set_shown_frames: "f \<in> set (shown_frames outs) \<longleftrightarrow> Inr (Some f) \<in> set outs"
  by (induction outs) (auto simp: shown_frames_def split: sum.splits option.splits)

lemma shown_frames_replicate [simp]: "shown_frames (replicate k (Inr None)) = []"
  by (induction k) (simp_all add: shown_frames_def)

lemma run_outs_take: "fst (run_outs f s (take k xs)) = take k (fst (run_outs f s xs))"
  by (induction xs arbitrary: k s) (auto simp: take_Cons split: nat.split)

lemma output_provenance:
  assumes "j < length H" "fst (run_outs push_packet (reassembler_init m) H) ! j = Inr (Some f)" "H ! j = (h, p)" "0 \<le> m"
  shows "0 < segment_count h \<and> (\<exists>F. f = concat (map F [0..segment_count h - 1]) \<and>
    (\<forall>i \<in> {0..<segment_count h}. \<exists>h'. (h', F i) \<in> set (take (Suc j) H) \<and>
       header_key h' = header_key h \<and> segment_count h' = segment_count h \<and> segment_id h' = i))"
proof -
  have t: "take (Suc j) H = take j H @ [(h, p)]" using assms(1,3) by (simp add: take_Suc_conv_app_nth)
  have "fst (run_outs push_packet (reassembler_init m) (take j H @ [(h, p)])) ! length (take j H) = Inr (Some f)"
    using assms(1,2) run_outs_take [of push_packet "reassembler_init m" "Suc j" H] by (simp add: t)
  from push_provenance [OF assms(4) this] show ?thesis by (simp add: t)
qed

lemma shown_provenance:
  assumes "f \<in> set (shown_frames (fst (run_outs push_packet (reassembler_init 8) H)))"
  shows "\<exists>F k n. 0 < n \<and> f = concat (map F [0..n - 1]) \<and>
     (\<forall>i \<in> {0..<n}. \<exists>h. (h, F i) \<in> set H \<and> header_key h = k \<and> segment_count h = n \<and> segment_id h = i)"
proof -
  let ?outs = "fst (run_outs push_packet (reassembler_init 8) H)"
  from assms have "Inr (Some f) \<in> set ?outs" by (simp add: set_shown_frames)
  then obtain j where j: "j < length H" "?outs ! j = Inr (Some f)"
    by (auto simp: in_set_conv_nth)
  obtain h p where "H ! j = (h, p)" by (cases "H ! j")
  from output_provenance [OF j this] obtain F where "0 < segment_count h" "f = concat (map F [0..segment_count h - 1])"
    "\<forall>i \<in> {0..<segment_count h}. \<exists>h'. (h', F i) \<in> set (take (Suc j) H) \<and>
       header_key h' = header_key h \<and> segment_count h' = segment_count h \<and> segment_id h' = i" by auto
  then show ?thesis
    by (intro exI [of _ F] exI [of _ "header_key h"] exI [of _ "segment_count h"]) (blast dest: in_set_takeD)
qed

lemma history_frame:
  assumes "rx_history dec sw kid dgs H s" and "f \<in> set (rx_shown s)"
  shows "\<exists>F k n. 0 < n \<and> f = concat (map F [0..n - 1]) \<and>
     (\<forall>i \<in> {0..<n}. \<exists>dg \<in> set dgs. \<exists>h. accepts dec sw kid dg h (F i) \<and>
        header_key h = k \<and> segment_count h = n \<and> segment_id h = i)"
proof -
  have acc: "\<exists>dg \<in> set dgs. accepts dec sw kid dg h' q" if "(h', q) \<in> set H" for h' q
    using assms(1) that unfolding rx_history_def by fastforce
  obtain F k n where "0 < n" "f = concat (map F [0..n - 1])"
    "\<forall>i \<in> {0..<n}. \<exists>h. (h, F i) \<in> set H \<and> header_key h = k \<and> segment_count h = n \<and> segment_id h = i"
    using assms shown_provenance [of f H] by (auto simp: rx_history_def)
  then show ?thesis by (intro exI [of _ F] exI [of _ k] exI [of _ n]) (blast dest: acc)
qed

section \<open>Strict mode and replays\<close>

lemma validate_latest_mono: "latest_nonce v \<le> latest_nonce (snd (validate_and_track v n))"
  by (simp add: validate_and_track_def)

lemma validate_strict:
  assumes "reorder_window v = 0" and "fst (validate_and_track v n)"
  shows "latest_nonce v < n \<and> latest_nonce (snd (validate_and_track v n)) = n"
  using assms by (auto simp: validate_and_track_def split: if_splits)

definition strict_history :: "(packet_header \<times> bytes) list \<Rightarrow> rx_state \<Rightarrow> bool" where
  "strict_history H s \<longleftrightarrow> reorder_window (rx_validator s) = 0 \<and>
     sorted_wrt (<) (map (nonce_counter \<circ> fst) H) \<and>
     (\<forall>hp \<in> set H. nonce_counter (fst hp) \<le> latest_nonce (rx_validator s))"

lemma rx_strict_history:
  "\<exists>H. rx_history dec sw kid dgs H (rx_run dec sw True kid (rx_init True w) dgs) \<and>
     strict_history H (rx_run dec sw True kid (rx_init True w) dgs)"
proof (induction dgs rule: rev_induct)
  case Nil
  show ?case
  proof (intro exI conjI)
    show "rx_history dec sw kid [] [] (rx_run dec sw True kid (rx_init True w) [])"
      using rx_history_init by simp
    show "strict_history [] (rx_run dec sw True kid (rx_init True w) [])"
      by (simp add: strict_history_def rx_init_def nonce_validator_init_def)
  qed
next
  case (snoc dg dgs)
  let ?s = "rx_run dec sw True kid (rx_init True w) dgs"
  obtain H where H: "rx_history dec sw kid dgs H ?s" and S: "strict_history H ?s" using snoc by blast
  have ri: "reasm_inv (rx_reasm ?s)" using rx.run_inv [OF rx_init_inv] by (simp add: rx_inv_def)
  show ?case
  proof (cases rule: rx_step_cases [of dec sw True kid ?s dg])
    case (drop v)
    then have "latest_nonce (rx_validator ?s) \<le> latest_nonce v"
      and "reorder_window v = reorder_window (rx_validator ?s)"
      using validate_latest_mono by auto
    then have "strict_history H (snd (rx_drop (?s\<lparr>rx_validator := v\<rparr>)))"
      using S by (auto simp: strict_history_def intro: order_trans)
    with rx_history_drop [OF H, of dg v] drop show ?thesis by (auto simp: run_outs_append)
  next
    case (deliver h p)
    let ?t = "validate_and_track (rx_validator ?s) (nonce_counter h)"
    have n: "latest_nonce (rx_validator ?s) < nonce_counter h" "latest_nonce (snd ?t) = nonce_counter h"
      using validate_strict deliver(3) S by (auto simp: strict_history_def)
    then have "strict_history (H @ [(h, p)]) (snd (rx_deliver (?s\<lparr>rx_validator := snd ?t\<rparr>) h p))"
      using S ri by (auto simp: strict_history_def rx_deliver_reasm sorted_wrt_append intro: order_trans)
    with rx_history_push [OF H deliver(1), of "snd ?t"] deliver(2) show ?thesis
      by (auto simp: run_outs_append)
  qed
qed

section \<open>What is delivered\<close>

lemma validate_fresh:
  assumes "seen_bounded v" and "latest_nonce v < n"
  shows "fst (validate_and_track v n)" and "latest_nonce (snd (validate_and_track v n)) = n"
proof -
  have "n \<notin> fst ` set (seen_nonces v)" using assms unfolding seen_bounded_def by auto
  with assms(2) show "fst (validate_and_track v n)" and "latest_nonce (snd (validate_and_track v n)) = n"
    by (simp_all add: validate_and_track_def)
qed

text \<open>
  The header of a datagram that gets as far as the nonce filter, and the packet of a datagram that passes every check but that
  filter.
\<close>

definition rx_header :: "aead \<Rightarrow> aes_gcm_software \<Rightarrow> bytes \<Rightarrow> packet_header option" where
  "rx_header dec sw dg =
     (case rx_parse dec sw dg of Inr (_, h, _, _) \<Rightarrow> if validate_header h = [] then Some h else None | Inl _ \<Rightarrow> None)"

definition rx_packet :: "aead \<Rightarrow> aes_gcm_software \<Rightarrow> int \<Rightarrow> bytes \<Rightarrow> (packet_header \<times> bytes) option" where
  "rx_packet dec sw kid dg =
     (case rx_parse dec sw dg of
        Inl _ \<Rightarrow> None
      | Inr (pl, h, payload, tag) \<Rightarrow>
          if validate_header h = [] \<and> key_id h = kid
          then (case rx_plain dec sw pl h payload tag of Inl _ \<Rightarrow> None | Inr p \<Rightarrow> Some (h, p)) else None)"

lemma rx_packet_accepts: "rx_packet dec sw kid dg = Some (h, p) \<longleftrightarrow> accepts dec sw kid dg h p"
  by (auto simp: rx_packet_def accepts_def split: sum.splits prod.splits if_splits)

text \<open>The packets a run delivers to the reassembler, from the datagrams and the nonce filter alone.\<close>

fun rx_delivered :: "aead \<Rightarrow> aes_gcm_software \<Rightarrow> bool \<Rightarrow> int \<Rightarrow> nonce_validator \<Rightarrow> bytes list \<Rightarrow> (packet_header \<times> bytes) list" where
  "rx_delivered dec sw strict kid v [] = []"
| "rx_delivered dec sw strict kid v (dg # dgs) =
     (case rx_header dec sw dg of
        None \<Rightarrow> rx_delivered dec sw strict kid v dgs
      | Some h \<Rightarrow>
          (let (ok, v') = validate_and_track v (nonce_counter h)
           in (if ok \<or> \<not> strict then (case rx_packet dec sw kid dg of None \<Rightarrow> [] | Some hp \<Rightarrow> [hp]) else []) @
              rx_delivered dec sw strict kid v' dgs))"

text \<open>
  The same for a strict receiver without its validator: a packet is delivered when its nonce is above every nonce of an
  earlier valid header.
\<close>

fun strict_packets :: "aead \<Rightarrow> aes_gcm_software \<Rightarrow> int \<Rightarrow> int \<Rightarrow> bytes list \<Rightarrow> (packet_header \<times> bytes) list" where
  "strict_packets dec sw kid high [] = []"
| "strict_packets dec sw kid high (dg # dgs) =
     (case rx_header dec sw dg of
        None \<Rightarrow> strict_packets dec sw kid high dgs
      | Some h \<Rightarrow>
          if nonce_counter h \<le> high then strict_packets dec sw kid high dgs
          else (case rx_packet dec sw kid dg of None \<Rightarrow> [] | Some hp \<Rightarrow> [hp]) @
               strict_packets dec sw kid (nonce_counter h) dgs)"

lemma rx_packet_header: "rx_packet dec sw kid dg = Some (h, p) \<Longrightarrow> rx_header dec sw dg = Some h"
  by (auto simp: rx_packet_def rx_header_def split: sum.splits prod.splits if_splits)

text \<open>One turn in these terms.\<close>

lemma rx_step_by_header:
  "rx_step dec sw strict kid s dg =
     (case rx_header dec sw dg of
        None \<Rightarrow> rx_drop s
      | Some h \<Rightarrow>
          let s1 = s\<lparr>rx_validator := snd (validate_and_track (rx_validator s) (nonce_counter h))\<rparr>
          in (case rx_packet dec sw kid dg of
                Some (h, p) \<Rightarrow>
                  if fst (validate_and_track (rx_validator s) (nonce_counter h)) \<or> \<not> strict then rx_deliver s1 h p else rx_drop s1
              | None \<Rightarrow> rx_drop s1))"
  by (auto simp: rx_step_def rx_header_def rx_packet_def Let_def case_prod_beta split: sum.splits prod.splits)

text \<open>
  A run from any state: the reassembler has got exactly the delivered packets, the frames shown are what it returned for
  them, and every other datagram is counted as dropped.
\<close>

lemma rx_run_delivered:
  fixes dec sw strict kid s dgs
  defines "D \<equiv> rx_delivered dec sw strict kid (rx_validator s) dgs" and "s' \<equiv> rx_run dec sw strict kid s dgs"
  assumes "rx_inv s"
  shows "rx_reasm s' = snd (run_outs push_packet (rx_reasm s) D) \<and>
     rx_shown s' = rx_shown s @ shown_frames (fst (run_outs push_packet (rx_reasm s) D)) \<and>
     rx_completed s' = rx_completed s + int (length (rx_shown s')) - int (length (rx_shown s)) \<and>
     rx_dropped s' = rx_dropped s + int (length dgs) - int (length D)"
  using assms(3) unfolding assms(1,2)
proof (induction dgs arbitrary: s)
  case Nil
  then show ?case by (simp add: shown_frames_def)
next
  case (Cons dg dgs)
  let ?s = "snd (rx_step dec sw strict kid s dg)"
  note IH = Cons.IH [OF rx_step_inv [OF Cons.prems, of dec sw strict kid dg]]
  show ?case
  proof (cases "rx_header dec sw dg")
    case None
    then show ?thesis using IH by (simp add: rx_step_by_header)
  next
    case (Some h)
    let ?t = "validate_and_track (rx_validator s) (nonce_counter h)"
    have ri: "reasm_inv (rx_reasm (s\<lparr>rx_validator := snd ?t\<rparr>))" using Cons.prems by (simp add: rx_inv_def)
    consider (drop) "?s = s\<lparr>rx_validator := snd ?t, rx_dropped := rx_dropped s + 1\<rparr>"
        "rx_delivered dec sw strict kid (rx_validator s) (dg # dgs) = rx_delivered dec sw strict kid (snd ?t) dgs"
      | (deliver) p where "?s = snd (rx_deliver (s\<lparr>rx_validator := snd ?t\<rparr>) h p)"
        "rx_delivered dec sw strict kid (rx_validator s) (dg # dgs) = (h, p) # rx_delivered dec sw strict kid (snd ?t) dgs"
      using Some by (cases "rx_packet dec sw kid dg"; cases "fst ?t \<or> \<not> strict")
        (auto simp: rx_step_by_header Let_def case_prod_beta dest!: rx_packet_header)
    then show ?thesis
    proof cases
      case drop
      then show ?thesis using IH by (simp add: Some)
    next
      case deliver
      note f = rx_deliver_reasm [OF ri, of h p, folded deliver(1)]
      show ?thesis
        using IH unfolding deliver(2) f
        by (auto simp: f push_packet_def shown_frames_def split: sum.split option.split)
    qed
  qed
qed

lemma strict_delivered:
  "seen_bounded v \<Longrightarrow> reorder_window v = 0 \<Longrightarrow>
     rx_delivered dec sw True kid v dgs = strict_packets dec sw kid (latest_nonce v) dgs"
proof (induction dgs arbitrary: v)
  case (Cons dg dgs)
  show ?case
  proof (cases "rx_header dec sw dg")
    case None
    then show ?thesis using Cons by simp
  next
    case (Some h)
    let ?t = "validate_and_track v (nonce_counter h)"
    have "fst ?t \<longleftrightarrow> latest_nonce v < nonce_counter h"
      using validate_fresh(1) [OF Cons.prems(1)] validate_strict [OF Cons.prems(2)] by blast
    moreover have "latest_nonce (snd ?t) = (if fst ?t then nonce_counter h else latest_nonce v)"
      using validate_strict [OF Cons.prems(2), of "nonce_counter h"] by (auto simp: validate_and_track_def)
    moreover have "reorder_window (snd ?t) = 0" using Cons.prems(2) by simp
    ultimately show ?thesis
      using Cons.IH [OF validate_bounded [OF Cons.prems(1), of "nonce_counter h"]] Some
      by (auto simp: case_prod_beta Let_def not_le)
  qed
qed simp

lemma strict_packets_sorted: "sorted_wrt (<) (high # map (nonce_counter \<circ> fst) (strict_packets dec sw kid high dgs))"
proof (induction dgs arbitrary: high)
  case (Cons dg dgs)
  show ?case
  proof (cases "rx_header dec sw dg")
    case None
    then show ?thesis using Cons.IH by simp
  next
    case (Some h)
    have later: "nonce_counter h < nonce_counter (fst x)" if "x \<in> set (strict_packets dec sw kid (nonce_counter h) dgs)" for x
      using Cons.IH [of "nonce_counter h"] that by simp
    show ?thesis
      using Cons.IH [of high] Cons.IH [of "nonce_counter h"] later Some
      by (cases "rx_packet dec sw kid dg") (auto simp: comp_def dest: rx_packet_header intro: less_trans [OF _ later])
  qed
qed simp

section \<open>A frame in order\<close>

text \<open>
  Datagrams accepted with strictly increasing nonces above the high-water mark are all delivered:
  the receiver's run is the reassembler's run on their packets.
\<close>

lemma rx_run_accepted:
  assumes "rx_inv s" and "list_all2 (\<lambda>dg hp. accepts dec sw kid dg (fst hp) (snd hp)) dgs ps"
    and "sorted_wrt (<) (latest_nonce (rx_validator s) # map (nonce_counter \<circ> fst) ps)"
  shows "rx_reasm (rx_run dec sw strict kid s dgs) = snd (run_outs push_packet (rx_reasm s) ps) \<and>
     rx_shown (rx_run dec sw strict kid s dgs) =
       rx_shown s @ shown_frames (fst (run_outs push_packet (rx_reasm s) ps)) \<and>
     rx_completed (rx_run dec sw strict kid s dgs) =
       rx_completed s + int (length (shown_frames (fst (run_outs push_packet (rx_reasm s) ps)))) \<and>
     rx_dropped (rx_run dec sw strict kid s dgs) = rx_dropped s \<and>
     latest_nonce (rx_validator (rx_run dec sw strict kid s dgs)) =
       last (latest_nonce (rx_validator s) # map (nonce_counter \<circ> fst) ps)"
  using assms
proof (induction ps arbitrary: s dgs)
  case Nil
  then show ?case by (simp add: shown_frames_def)
next
  case (Cons hp ps)
  obtain h p where hp: "hp = (h, p)" by (cases hp)
  from Cons.prems(2) obtain dg dgs' where d: "dgs = dg # dgs'" "accepts dec sw kid dg h p"
    and ds: "list_all2 (\<lambda>dg hp. accepts dec sw kid dg (fst hp) (snd hp)) dgs' ps"
    by (auto simp: list_all2_Cons2 hp)
  let ?v = "snd (validate_and_track (rx_validator s) (nonce_counter h))"
  let ?s = "snd (rx_step dec sw strict kid s dg)"
  have ri: "reasm_inv (rx_reasm (s\<lparr>rx_validator := ?v\<rparr>))" using Cons.prems(1) by (simp add: rx_inv_def)
  have sb: "seen_bounded (rx_validator s)" using Cons.prems(1) by (simp add: rx_inv_def)
  have lt: "latest_nonce (rx_validator s) < nonce_counter h" using Cons.prems(3) by (simp add: hp)
  note vf = validate_fresh [OF sb lt]
  have st: "?s = snd (rx_deliver (s\<lparr>rx_validator := ?v\<rparr>) h p)"
    using rx_step_accepts [OF d(2), of strict s] vf(1) by simp
  note f = rx_deliver_reasm [OF ri, of h p, folded st]
  have "sorted_wrt (<) (latest_nonce (rx_validator ?s) # map (nonce_counter \<circ> fst) ps)"
    using Cons.prems(3) vf(2) f(3) by (simp add: hp comp_def)
  from Cons.IH [OF rx_step_inv [OF Cons.prems(1)] ds this] show ?case
    using f vf(2) by (auto simp: d hp push_packet_def shown_frames_def split: sum.split option.split)
qed

lemma rx_loop_prefix:
  assumes "rx_inv s" and "\<forall>k < length dgs. rx_completed (rx_run dec sw strict kid s (take k dgs)) < m"
  shows "rx_loop dec sw strict kid m s (map Datagram dgs @ evs) =
     rx_loop dec sw strict kid m (rx_run dec sw strict kid s dgs) evs"
  using assms
proof (induction dgs arbitrary: s)
  case Nil
  then show ?case by simp
next
  case (Cons dg dgs)
  let ?s = "snd (rx_step dec sw strict kid s dg)"
  have "rx_completed s < m" using Cons.prems(2) by force
  then have 1: "rx_loop dec sw strict kid m s (map Datagram (dg # dgs) @ evs) =
      rx_loop dec sw strict kid m ?s (map Datagram dgs @ evs)"
    using rx_loop_step [OF Cons.prems(1)] by simp
  have "\<forall>k < length dgs. rx_completed (rx_run dec sw strict kid ?s (take k dgs)) < m"
    using Cons.prems(2) by (metis (no_types) Suc_less_eq length_Cons run_outs.simps(2) snd_conv take_Suc_Cons)
  from Cons.IH [OF rx_step_inv [OF Cons.prems(1)] this] 1 show ?case by simp
qed

section \<open>PL packets\<close>

lemma be_bytes_Cons: "be_bytes (Suc k) n = word_of_int (n div 256 ^ k) # be_bytes k n"
proof (induction k arbitrary: n)
  case 0
  show ?case by simp
next
  case (Suc k)
  have "n div 256 div 256 ^ k = n div 256 ^ Suc k" by (simp add: zdiv_zmult2_eq)
  then show ?case using Suc [of "n div 256"] by simp
qed

text \<open>What the hardware sender puts on the wire: nonce prefix, ciphertext of header and payload, tag.\<close>

definition pl_body :: "aead \<Rightarrow> aes_gcm_software \<Rightarrow> int \<Rightarrow> packet_header \<Rightarrow> bytes \<Rightarrow> bytes result" where
  "pl_body enc sw n h p =
     bind_r (pack_header h) (\<lambda>hb.
     bind_r (rx_nonce n) (\<lambda>nonce.
     bind_r (sw_encrypt enc sw nonce [] (hb @ p)) (\<lambda>(ct, tag). Inr (be_bytes 8 n @ ct @ tag))))"

lemma open_pl_body:
  assumes spec: "aesgcm_spec enc dec" and key: "length (sw_key sw) = 32"
    and n: "0 \<le> n" "n < 2 ^ 56" and body: "pl_body enc sw n h p = Inr body"
  shows "\<exists>tag. open_pl dec sw body = Inr (h, p, tag)" and "is_pl_format body"
    and "length body = 64 + length p"
proof -
  note ch = sw_sealed_channel [OF spec key]
  have n64: "n < 256 ^ 8" using n(2) by simp
  let ?nonce = "[0, 0, 0, 1] @ be_bytes 8 n"
  have nonce: "rx_nonce n = Inr ?nonce" using n(1) n64 by (simp add: rx_nonce_def to_bytes_be_def)
  from body obtain hb ct tag where hb: "pack_header h = Inr hb"
    and enc: "sw_encrypt enc sw ?nonce [] (hb @ p) = Inr (ct, tag)"
    and b: "body = be_bytes 8 n @ ct @ tag"
    by (auto simp: pl_body_def bind_r_eq_Inr nonce)
  have len: "length hb = 40" using pack_header_length [OF hb] by (simp add: HEADER_SIZE_BYTES_def)
  have ct: "length ct = 40 + length p" and tag: "length tag = 16"
    using sealed_channel.seal_lengths [OF ch _ enc] len by simp_all
  have dec: "sw_decrypt dec sw ?nonce [] ct tag = Inr (hb @ p)"
    using sealed_channel.unseal_seal [OF ch _ enc] by simp
  have hd: "unpack_header hb = Inr h" using unpack_pack_append [OF hb, of "[]"] by simp
  have parts: "all_but_16 body = be_bytes 8 n @ ct" "last_16 body = tag"
    using tag by (simp_all add: b all_but_16_def last_16_def)
  show "\<exists>tag. open_pl dec sw body = Inr (h, p, tag)"
    using n(1) n64 ct tag len nonce [simplified]
    by (simp add: open_pl_def parts [unfolded b] b slice_def from_be_bytes_id Let_def dec [simplified] hd)
  show "length body = 64 + length p" by (simp add: b ct tag)
  have "n div 256 ^ 7 = 0" using n by simp
  then have "be_bytes 8 n = 0 # be_bytes 7 n"
    using be_bytes_Cons [of 7 n] by simp
  then show "is_pl_format body" by (simp add: is_pl_format_def b slice_def ct)
qed

section \<open>Edge cases\<close>

lemma strip_transport_padding_slot:
  "length body = AUTHENTICATED_BODY_BYTES \<Longrightarrow>
     strip_transport_padding (body @ replicate TRANSPORT_PADDING_BYTES 0) = Inr body"
  by (simp add: strip_transport_padding_def osv_consts list_ex_iff)

lemma rx_step_unparsed: "rx_parse dec sw dg = Inl e \<Longrightarrow> rx_step dec sw strict kid s dg = rx_drop s"
  by (simp add: rx_step_def)

lemma slot_sized_osv_unparsed:
  assumes b: "build_datagram h ct tag = Inr dg" and m: "magic h = MAGIC"
    and l: "length dg = TRANSPORT_SLOT_BYTES"
  shows "\<exists>e. rx_parse dec sw dg = Inl e"
proof (cases "strip_transport_padding dg")
  case (Inl e)
  then show ?thesis by (simp add: rx_parse_def l)
next
  case (Inr body)
  then have body: "body = take 1384 dg"
    by (simp add: strip_transport_padding_def osv_consts split: if_splits)
  from b obtain hb where hb: "pack_header h = Inr hb" and dg: "dg = hb @ ct @ tag"
    and lens: "int (length ct) = payload_length h" "int (length tag) = tag_length h"
    by (auto simp: build_datagram_def bind_r_eq_Inr split: if_splits)
  have hl: "length hb = 40" using pack_header_length [OF hb] by (simp add: HEADER_SIZE_BYTES_def)
  have l': "length dg = 1408" using l by (simp add: osv_consts)
  have bd: "body = hb @ take 1344 (ct @ tag)" by (simp add: body dg hl)
  have bl: "length body = 1384" using l' by (simp add: body)
  have np: "\<not> is_pl_format body"
    using pack_header_magic [OF hb m] hl by (simp add: is_pl_format_def slice_def bd)
  have "unpack_header body = Inr h" unfolding bd by (rule unpack_pack_append [OF hb])
  moreover have "length body \<noteq> HEADER_SIZE_BYTES + nat (payload_length h) + nat (tag_length h)"
    using bl l' by (simp add: dg hl HEADER_SIZE_BYTES_def lens [symmetric])
  ultimately have "split_datagram body = Inl ValueError" by (simp add: split_datagram_def Let_def)
  then show ?thesis using np Inr by (simp add: rx_parse_def l)
qed

lemma push_single:
  assumes "reasm_inv r" and "frames r = []" and "segment_count h = 1" and "segment_id h = 0"
  shows "push r h p = (Inr (Some p), r)"
proof -
  have st: "pushed_state r h p = \<lparr>fs_segment_count = 1, fs_segments = [(0, p)]\<rparr>"
    using assms by (simp add: pushed_state_def frame_slot_def store_segment_def)
  have "frame_complete (pushed_state r h p)"
    by (simp add: st frame_complete_iff) auto
  from push_complete [OF assms(1) this] show ?thesis
    using assms by (simp add: st)
qed

section \<open>A concrete exchange\<close>

definition demo_sw :: aes_gcm_software where
  "demo_sw = \<lparr>sw_key = replicate 32 7\<rparr>"

definition demo_rx_header :: "int \<Rightarrow> packet_header" where
  "demo_rx_header n = default_header\<lparr>payload_type := 1, key_id := 1, payload_length := 3, nonce_counter := n\<rparr>"

definition demo_datagram :: "int \<Rightarrow> bytes \<Rightarrow> bytes" where
  "demo_datagram n p =
     (case bind_r (pack_header (demo_rx_header n)) (\<lambda>aad.
           bind_r (rx_nonce n) (\<lambda>nonce.
           bind_r (sw_encrypt demo_enc demo_sw nonce aad p) (\<lambda>(ct, tag).
           build_datagram (demo_rx_header n) ct tag))) of
        Inr dg \<Rightarrow> dg | Inl _ \<Rightarrow> [])"

lemma demo_accepts: "accepts demo_dec demo_sw 1 (demo_datagram 1 [10, 20, 30]) (demo_rx_header 1) [10, 20, 30]"
proof -
  have "case rx_parse demo_dec demo_sw (demo_datagram 1 [10, 20, 30]) of
      Inr (pl, h, ct, tag) \<Rightarrow> h = demo_rx_header 1 \<and> rx_plain demo_dec demo_sw pl h ct tag = Inr [10, 20, 30]
    | Inl _ \<Rightarrow> False"
    by code_simp
  moreover have "validate_header (demo_rx_header 1) = [] \<and> key_id (demo_rx_header 1) = 1" by code_simp
  ultimately show ?thesis by (auto simp: accepts_def split: sum.splits prod.splits)
qed

section \<open>Properties\<close>

text \<open>
  C3. Authenticity. Whatever datagrams arrive, every frame the receive loop shows is the
  concatenation of segments each of which came out of a received datagram whose header passed the
  checks, carries the configured key id, and whose payload passed decryption with the session key;
  all of them agree on session, stream, frame and segment count, and each stands at its own position.
\<close>

theorem rx_frames_authentic:
  assumes "f \<in> set (rx_shown (snd (rx_loop dec sw strict kid m (rx_init strict w) evs)))"
  shows "\<exists>F k n. 0 < n \<and> f = concat (map F [0..n - 1]) \<and>
     (\<forall>i \<in> {0..<n}. \<exists>dg \<in> set (datagrams evs). \<exists>h. accepts dec sw kid dg h (F i) \<and>
        header_key h = k \<and> segment_count h = n \<and> segment_id h = i)"
proof -
  obtain H dgs where sub: "set dgs \<subseteq> set (datagrams evs)"
    and "rx_history dec sw kid dgs H (snd (rx_loop dec sw strict kid m (rx_init strict w) evs))"
    using rx_loop_history by blast
  from history_frame [OF this(2) assms] obtain F k n where "0 < n" "f = concat (map F [0..n - 1])"
    "\<forall>i \<in> {0..<n}. \<exists>dg \<in> set dgs. \<exists>h. accepts dec sw kid dg h (F i) \<and>
        header_key h = k \<and> segment_count h = n \<and> segment_id h = i" by blast
  with sub show ?thesis by (intro exI [of _ F] exI [of _ k] exI [of _ n]) blast
qed

lemma demo_shown:
  "[10, 20, 30] \<in> set (rx_shown (snd (rx_loop demo_dec demo_sw True 1 5 (rx_init True 1024)
     [Datagram [1, 2, 3], Datagram (demo_datagram 1 [10, 20, 30]), RecvTimeout])))"
  by code_simp

theorem rx_frames_authentic_witness:
  "\<exists>F k n. 0 < n \<and> [10, 20, 30] = concat (map F [0..n - 1]) \<and>
     (\<forall>i \<in> {0..<n}. \<exists>dg \<in> set (datagrams [Datagram [1, 2, 3], Datagram (demo_datagram 1 [10, 20, 30]), RecvTimeout]).
        \<exists>h. accepts demo_dec demo_sw 1 dg h (F i) \<and>
        header_key h = k \<and> segment_count h = n \<and> segment_id h = i)"
  by (rule rx_frames_authentic [OF demo_shown])

text \<open>
  C12. The loop is safe and its counters are exact. For every sequence of events the receive loop never ends with an
  exception and never counts more frames than \<^verbatim>\<open>max_frames\<close>. It handles the datagrams before the first timeout, all of them
  unless it is done at the frame limit; from those the reassembler gets exactly the packets that pass the header checks, the
  key id, the decryption and, in strict mode, the nonce filter; the frames shown are what the reassembler returns
  for them and are counted one by one; and the drop counter is the number of all the other datagrams.
\<close>

theorem rx_loop_safe:
  "(\<forall>e. fst (rx_loop dec sw strict kid m (rx_init strict w) evs) \<noteq> RxRaised e) \<and>
   rx_completed (snd (rx_loop dec sw strict kid m (rx_init strict w) evs)) \<le> max m 0 \<and>
   (fst (rx_loop dec sw strict kid m (rx_init strict w) evs) = RxDone \<longleftrightarrow>
      m \<le> rx_completed (snd (rx_loop dec sw strict kid m (rx_init strict w) evs))) \<and>
   (\<exists>k D. (fst (rx_loop dec sw strict kid m (rx_init strict w) evs) = RxDone \<or> length (before_timeout evs) \<le> k) \<and>
      D = rx_delivered dec sw strict kid (rx_validator (rx_init strict w)) (take k (before_timeout evs)) \<and>
      rx_shown (snd (rx_loop dec sw strict kid m (rx_init strict w) evs)) =
        shown_frames (fst (run_outs push_packet (reassembler_init 8) D)) \<and>
      rx_completed (snd (rx_loop dec sw strict kid m (rx_init strict w) evs)) =
        int (length (rx_shown (snd (rx_loop dec sw strict kid m (rx_init strict w) evs)))) \<and>
      rx_dropped (snd (rx_loop dec sw strict kid m (rx_init strict w) evs)) =
        int (length (take k (before_timeout evs))) - int (length D))"
proof -
  let ?s = "snd (rx_loop dec sw strict kid m (rx_init strict w) evs)"
  note r = rx_loop_run [OF rx_init_inv, of dec sw strict kid m strict w evs]
  have i: "rx_completed (rx_init strict w) = 0" "rx_dropped (rx_init strict w) = 0" "rx_shown (rx_init strict w) = []"
    "rx_reasm (rx_init strict w) = reassembler_init 8" by (simp_all add: rx_init_def)
  obtain k where k: "?s = rx_run dec sw strict kid (rx_init strict w) (take k (before_timeout evs))"
    "fst (rx_loop dec sw strict kid m (rx_init strict w) evs) = RxDone \<or> length (before_timeout evs) \<le> k"
    "fst (rx_loop dec sw strict kid m (rx_init strict w) evs) = RxDone \<longleftrightarrow> m \<le> rx_completed ?s"
    using rx_loop_handles [OF rx_init_inv] by blast
  note d = rx_run_delivered [OF rx_init_inv, of dec sw strict kid strict w "take k (before_timeout evs)", folded k(1),
      unfolded i append_Nil]
  have "rx_completed ?s \<le> max m 0" using r i(1) by simp
  then show ?thesis using r k(2,3) d by (intro conjI exI [of _ k] exI) auto
qed

text \<open>
  C11. Strict mode admits no replay. With \<^verbatim>\<open>--strict-nonce\<close>, over any datagrams, the packets that reach the reassembler are
  those of the datagrams that pass every check and whose nonce is above all nonces of earlier valid headers
  (\<open>strict_packets\<close>, which knows nothing of the validator); so their nonces strictly increase and no datagram gets
  through twice. The frames shown are the frames the reassembler returns for exactly those packets, and all other
  datagrams are counted as dropped.
\<close>

theorem rx_strict_no_replay:
  "sorted_wrt (<) (map (nonce_counter \<circ> fst) (strict_packets dec sw kid 0 dgs)) \<and>
   rx_reasm (rx_run dec sw True kid (rx_init True w) dgs) =
     snd (run_outs push_packet (reassembler_init 8) (strict_packets dec sw kid 0 dgs)) \<and>
   rx_shown (rx_run dec sw True kid (rx_init True w) dgs) =
     shown_frames (fst (run_outs push_packet (reassembler_init 8) (strict_packets dec sw kid 0 dgs))) \<and>
   rx_dropped (rx_run dec sw True kid (rx_init True w) dgs) =
     int (length dgs) - int (length (strict_packets dec sw kid 0 dgs))"
proof -
  let ?v = "rx_validator (rx_init True w)"
  have "latest_nonce ?v = 0" "reorder_window ?v = 0" "seen_bounded ?v"
    by (simp_all add: rx_init_def nonce_validator_init_def seen_bounded_def)
  then have s: "rx_delivered dec sw True kid ?v dgs = strict_packets dec sw kid 0 dgs" using strict_delivered by metis
  show ?thesis
    using rx_run_delivered [OF rx_init_inv, of dec sw True kid True w dgs, unfolded s] strict_packets_sorted [of 0 dec sw kid dgs]
    by (simp add: rx_init_def comp_def)
qed

text \<open>
  C22. A replay is shown again in the default mode. Without \<^verbatim>\<open>--strict-nonce\<close> a rejected nonce only
  prints a warning: a one-segment datagram received twice is decrypted, reassembled and shown twice,
  and nothing is counted as dropped.
\<close>

theorem default_mode_shows_replay:
  assumes "accepts dec sw kid dg h p" and "segment_count h = 1" and "segment_id h = 0"
  shows "rx_shown (rx_run dec sw False kid (rx_init False w) [dg, dg]) = [p, p] \<and>
     rx_dropped (rx_run dec sw False kid (rx_init False w) [dg, dg]) = 0"
proof -
  have e: "reasm_inv r \<Longrightarrow> frames r = [] \<Longrightarrow> push r h p = (Inr (Some p), r)" for r
    by (rule push_single [OF _ _ assms(2,3)])
  show ?thesis
    using reassembler_init_inv [of 8]
    by (simp add: rx_step_accepts [OF assms(1)] rx_deliver_def rx_init_def e reassembler_init_def)
qed

theorem default_mode_shows_replay_witness:
  "rx_shown (rx_run demo_dec demo_sw False 1 (rx_init False 1024)
     [demo_datagram 1 [10, 20, 30], demo_datagram 1 [10, 20, 30]]) = [[10, 20, 30], [10, 20, 30]]"
  using default_mode_shows_replay [OF demo_accepts, of 1024]
  by (simp add: demo_rx_header_def default_header_def)

text \<open>
  C23. An OSV datagram of slot size is always lost. A well-formed datagram with a clear header whose
  total length is 1408 bytes (payload 1352 with a 16-byte tag) is taken for a padded slot and dropped,
  whatever it contains: either its tail is not zero, or the shortened datagram no longer parses.
\<close>

theorem slot_sized_osv_dropped:
  assumes "build_datagram h ct tag = Inr dg" and "magic h = MAGIC" and "length dg = TRANSPORT_SLOT_BYTES"
  shows "rx_step dec sw strict kid s dg = (Inr (), s\<lparr>rx_dropped := rx_dropped s + 1\<rparr>)"
proof -
  obtain e where "rx_parse dec sw dg = Inl e" using slot_sized_osv_unparsed [OF assms] by blast
  then show ?thesis by (simp add: rx_step_unparsed rx_drop_def)
qed

definition demo_slot_header :: packet_header where
  "demo_slot_header = default_header\<lparr>payload_type := 1, key_id := 1, payload_length := 1352\<rparr>"

lemma demo_slot_fits: "header_fits demo_slot_header"
  by (simp add: header_fits_def demo_slot_header_def default_header_def MAGIC_def VERSION_def)

theorem slot_sized_osv_dropped_witness:
  "\<exists>dg. build_datagram demo_slot_header (replicate 1352 5) (replicate 16 0) = Inr dg \<and>
     rx_step demo_dec demo_sw True 1 (rx_init True 1024) dg =
       (Inr (), (rx_init True 1024)\<lparr>rx_dropped := rx_dropped (rx_init True 1024) + 1\<rparr>)"
proof -
  obtain hb where hb: "pack_header demo_slot_header = Inr hb" using pack_header_fits [OF demo_slot_fits] by blast
  let ?dg = "hb @ replicate 1352 5 @ replicate 16 0"
  have b: "build_datagram demo_slot_header (replicate 1352 5) (replicate 16 0) = Inr ?dg"
    using hb by (simp add: build_datagram_def demo_slot_header_def default_header_def)
  have "rx_step demo_dec demo_sw True 1 (rx_init True 1024) ?dg =
       (Inr (), (rx_init True 1024)\<lparr>rx_dropped := rx_dropped (rx_init True 1024) + 1\<rparr>)"
    by (rule slot_sized_osv_dropped [OF b])
      (simp_all add: pack_header_length [OF hb] HEADER_SIZE_BYTES_def TRANSPORT_SLOT_BYTES_def demo_slot_header_def default_header_def)
  with b show ?thesis by blast
qed

text \<open>
  C17. PL slots decode. A full hardware slot (8-byte nonce prefix below \<open>2\<^sup>5\<^sup>6\<close>, header and 1320-byte
  payload sealed with empty associated data, 24 zero bytes of padding) parses back to exactly the
  header and payload that were sealed, and the padding is removed before decryption.
\<close>

theorem rx_decodes_pl_slot:
  assumes "aesgcm_spec enc dec" and "length (sw_key sw) = 32" and "0 \<le> n" and "n < 2 ^ 56"
    and "pl_body enc sw n h p = Inr body" and "length p = 1320"
  shows "\<exists>tag. rx_parse dec sw (body @ replicate TRANSPORT_PADDING_BYTES 0) = Inr (True, h, p, tag)"
proof -
  note o = open_pl_body [OF assms(1-5)]
  have l: "length body = AUTHENTICATED_BODY_BYTES" using o(3) assms(6) by (simp add: osv_consts)
  then have s: "length (body @ replicate TRANSPORT_PADDING_BYTES 0) = TRANSPORT_SLOT_BYTES"
    by (simp add: osv_consts)
  show ?thesis
    using o(1,2) unfolding rx_parse_def s strip_transport_padding_slot [OF l] by auto
qed

lemma demo_pl_body: "\<exists>body. pl_body demo_enc demo_sw 1 (demo_rx_header 1) (replicate 1320 9) = Inr body"
proof -
  have "header_fits (demo_rx_header 1)"
    by (simp add: header_fits_def demo_rx_header_def default_header_def MAGIC_def VERSION_def)
  then obtain hb where "pack_header (demo_rx_header 1) = Inr hb" using pack_header_fits by blast
  then show ?thesis by (simp add: pl_body_def rx_nonce_defined sw_encrypt_def demo_enc_def)
qed

theorem rx_decodes_pl_slot_witness:
  "\<exists>body tag. pl_body demo_enc demo_sw 1 (demo_rx_header 1) (replicate 1320 9) = Inr body \<and>
     rx_parse demo_dec demo_sw (body @ replicate TRANSPORT_PADDING_BYTES 0)
       = Inr (True, demo_rx_header 1, replicate 1320 9, tag)"
proof -
  obtain body where b: "pl_body demo_enc demo_sw 1 (demo_rx_header 1) (replicate 1320 9) = Inr body"
    using demo_pl_body by blast
  have "\<exists>tag. rx_parse demo_dec demo_sw (body @ replicate TRANSPORT_PADDING_BYTES 0)
      = Inr (True, demo_rx_header 1, replicate 1320 9, tag)"
    by (rule rx_decodes_pl_slot [OF demo_aesgcm_spec _ _ _ b]) (simp_all add: demo_sw_def)
  with b show ?thesis by blast
qed

end
