(* ===== verification/Tx_Source.thy ===== *)
theory Tx_Source
  imports Packet_Schema
begin

text \<open>
  The sender's helpers of \<^verbatim>\<open>pynq/runtime/main.py\<close>: cutting a frame into segments, the 96-bit nonce, the
  synthetic test frame and the \<^verbatim>\<open>NonceTracker\<close>. The lemmas show that segmentation loses nothing, that
  nonces are injective in their counter, and the exact sequence the tracker produces, wrap included.
\<close>

section \<open>Definitions\<close>

text \<open>\<^verbatim>\<open>range(i, stop, step)\<close> for a positive step.\<close>

function py_range :: "nat \<Rightarrow> nat \<Rightarrow> nat \<Rightarrow> nat list" where
  "py_range i stop step = (if i < stop \<and> 0 < step then i # py_range (i + step) stop step else [])"
  by pat_completeness auto
termination
  by (relation "measure (\<lambda>(i, stop, step). stop - i)") auto

declare py_range.simps [simp del]

text \<open>A zero step makes \<^verbatim>\<open>range\<close> raise; a negative one makes it empty.\<close>

definition segment_frame :: "bytes \<Rightarrow> int \<Rightarrow> bytes list result" where
  "segment_frame frame segment_bytes =
     (if segment_bytes = 0 then Inl ValueError
      else if segment_bytes < 0 then Inr []
      else Inr (map (\<lambda>idx. slice idx (idx + nat segment_bytes) frame)
                    (py_range 0 (length frame) (nat segment_bytes))))"

definition tx_nonce :: "int \<Rightarrow> bytes result" where
  "tx_nonce counter = bind_r (to_bytes_be 8 counter) (\<lambda>c. Inr ([0, 0, 0, 1] @ c))"

definition synthetic_frame :: "int \<Rightarrow> int \<Rightarrow> bytes" where
  "synthetic_frame frame_bytes fid =
     (let seed = fid AND 0xFF
      in map (\<lambda>i. word_of_int ((seed + i) AND 0xFF)) [0..frame_bytes - 1])"

record nonce_tracker =
  nt_current :: int
  nt_max_counter :: int
  nt_wrap_count :: int

definition nonce_tracker_init :: "int \<Rightarrow> int \<Rightarrow> nonce_tracker" where
  "nonce_tracker_init initial_counter max_counter =
     \<lparr>nt_current = initial_counter - 1, nt_max_counter = max_counter, nt_wrap_count = 0\<rparr>"

definition next_nonce :: "nonce_tracker \<Rightarrow> int \<times> nonce_tracker" where
  "next_nonce t =
     (let t1 = t\<lparr>nt_current := nt_current t + 1\<rparr>;
          t2 = (if nt_current t1 > nt_max_counter t1
                then t1\<lparr>nt_wrap_count := nt_wrap_count t1 + 1, nt_current := 1\<rparr> else t1)
      in (nt_current t2, t2))"

fun next_nonces :: "nat \<Rightarrow> nonce_tracker \<Rightarrow> int list \<times> nonce_tracker" where
  "next_nonces 0 t = ([], t)"
| "next_nonces (Suc k) t =
     (fst (next_nonce t) # fst (next_nonces k (snd (next_nonce t))),
      snd (next_nonces k (snd (next_nonce t))))"

section \<open>Segmentation\<close>

lemma py_range_bounds: "x \<in> set (py_range i stop step) \<Longrightarrow> i \<le> x \<and> x < stop"
proof (induction i stop step rule: py_range.induct)
  case (1 i stop step)
  then show ?case by (auto simp: py_range.simps [of i stop step] split: if_splits)
qed

lemma length_py_range:
  "0 < step \<Longrightarrow> length (py_range i stop step) = (stop - i + step - 1) div step"
proof (induction i stop step rule: py_range.induct)
  case (1 i stop step)
  show ?case
  proof (cases "i < stop")
    case True
    with 1 have "length (py_range i stop step) = Suc ((stop - (i + step) + step - 1) div step)"
      by (simp add: py_range.simps [of i stop step])
    also have "\<dots> = (stop - i + step - 1) div step"
    proof -
      have d: "(a + step) div step = Suc (a div step)" for a
        using 1(2) by (simp add: div_add_self2)
      show ?thesis
      proof (cases "i + step \<le> stop")
        case True
        then have "stop - i + step - 1 = (stop - (i + step) + step - 1) + step" using 1(2) by simp
        then show ?thesis by (simp only: d)
      next
        case False
        then have e: "stop - i + step - 1 = (stop - i - 1) + step" and "stop - i - 1 < step"
          using True 1(2) by simp_all
        then have "(stop - i + step - 1) div step = Suc 0" unfolding e d by simp
        then show ?thesis using False 1(2) by simp
      qed
    qed
    finally show ?thesis .
  next
    case False
    with 1(2) show ?thesis by (simp add: py_range.simps [of i stop step])
  qed
qed

lemma concat_slices:
  "0 < step \<Longrightarrow> concat (map (\<lambda>idx. slice idx (idx + step) xs) (py_range i (length xs) step)) = drop i xs"
proof (induction i "length xs" step rule: py_range.induct)
  case (1 i step)
  show ?case
  proof (cases "i < length xs")
    case True
    have "slice i (i + step) xs @ drop (i + step) xs = drop i xs"
      by (simp add: slice_def drop_take add.commute [of i step] flip: drop_drop)
    with 1 True show ?thesis by (simp add: py_range.simps [of i "length xs" step])
  next
    case False
    then show ?thesis by (simp add: py_range.simps [of i "length xs" step])
  qed
qed

lemma segment_frame_pos:
  "0 < sb \<Longrightarrow> segment_frame f sb =
     Inr (map (\<lambda>idx. slice idx (idx + nat sb) f) (py_range 0 (length f) (nat sb)))"
  by (simp add: segment_frame_def)

lemma segment_frame_concat: "0 < sb \<Longrightarrow> segment_frame f sb = Inr segs \<Longrightarrow> concat segs = f"
  using concat_slices [of "nat sb" f 0] by (auto simp: segment_frame_pos)

lemma segment_frame_lengths:
  "0 < sb \<Longrightarrow> segment_frame f sb = Inr segs \<Longrightarrow> s \<in> set segs \<Longrightarrow> 0 < length s \<and> int (length s) \<le> sb"
proof -
  assume sb: "0 < sb" and "segment_frame f sb = Inr segs" "s \<in> set segs"
  then obtain idx where "idx \<in> set (py_range 0 (length f) (nat sb))" "s = slice idx (idx + nat sb) f"
    by (auto simp: segment_frame_pos)
  with py_range_bounds [OF this(1)] sb show ?thesis by (auto simp: length_slice)
qed

lemma segment_frame_count:
  "0 < sb \<Longrightarrow> segment_frame f sb = Inr segs \<Longrightarrow> length segs = (length f + nat sb - 1) div nat sb"
  using length_py_range [of "nat sb" 0 "length f"] by (auto simp: segment_frame_pos)

section \<open>Nonces\<close>

lemma tx_nonce_defined: "0 \<le> c \<Longrightarrow> c < 2 ^ 64 \<Longrightarrow> tx_nonce c = Inr ([0, 0, 0, 1] @ be_bytes 8 c)"
  by (simp add: tx_nonce_def to_bytes_be_def)

lemma tx_nonce_length: "tx_nonce c = Inr n \<Longrightarrow> length n = 12"
  by (auto simp: tx_nonce_def to_bytes_be_def split: if_splits)

lemma tx_nonce_inj: "tx_nonce c = Inr n \<Longrightarrow> tx_nonce d = Inr n \<Longrightarrow> c = d"
  by (auto simp: tx_nonce_def to_bytes_be_def split: if_splits intro: be_bytes_inj [of c 8 d])

lemma next_nonce_max [simp]: "nt_max_counter (snd (next_nonce t)) = nt_max_counter t"
  by (simp add: next_nonce_def Let_def)

lemma next_nonces_append:
  "next_nonces (Suc k) t =
     (fst (next_nonces k t) @ [fst (next_nonce (snd (next_nonces k t)))],
      snd (next_nonce (snd (next_nonces k t))))"
  by (induction k arbitrary: t) simp_all

lemma next_nonces_closed:
  assumes "0 < M"
  shows "fst (next_nonces k (nonce_tracker_init 1 (int M))) = map (\<lambda>i. int (i mod M) + 1) [0..<k] \<and>
     nt_current (snd (next_nonces k (nonce_tracker_init 1 (int M)))) = (if k = 0 then 0 else int ((k - 1) mod M) + 1) \<and>
     nt_wrap_count (snd (next_nonces k (nonce_tracker_init 1 (int M)))) = int ((k - 1) div M) \<and>
     nt_max_counter (snd (next_nonces k (nonce_tracker_init 1 (int M)))) = int M"
proof (induction k)
  case 0
  show ?case by (simp add: nonce_tracker_init_def)
next
  case (Suc k)
  let ?t = "snd (next_nonces k (nonce_tracker_init 1 (int M)))"
  have "nt_current (snd (next_nonce ?t)) = int (k mod M) + 1 \<and>
      nt_wrap_count (snd (next_nonce ?t)) = int (k div M)"
  proof (cases k)
    case 0
    then show ?thesis using Suc assms by (simp add: next_nonce_def Let_def)
  next
    case k: (Suc j)
    have "Suc (j mod M) \<le> M" using assms by (simp add: Suc_leI)
    with Suc k show ?thesis
      by (auto simp: next_nonce_def Let_def mod_Suc div_Suc)
  qed
  moreover have "fst (next_nonce ?t) = nt_current (snd (next_nonce ?t))"
    by (simp add: next_nonce_def Let_def)
  ultimately show ?case
    using Suc by (simp add: next_nonces_append del: next_nonces.simps)
qed

section \<open>Properties\<close>

text \<open>
  C18. Segmentation is lossless. With a positive segment size the segments of a frame concatenate to
  the frame, none is empty or longer than the segment size, and their number is the frame length
  divided by the segment size, rounded up.
\<close>

theorem segment_frame_lossless:
  assumes "0 < sb"
  shows "\<exists>segs. segment_frame f sb = Inr segs \<and> concat segs = f \<and>
     length segs = (length f + nat sb - 1) div nat sb \<and>
     (\<forall>s \<in> set segs. 0 < length s \<and> int (length s) \<le> sb)"
proof -
  obtain segs where s: "segment_frame f sb = Inr segs" using segment_frame_pos [OF assms] by blast
  show ?thesis
    using s segment_frame_concat [OF assms s] segment_frame_count [OF assms s]
      segment_frame_lengths [OF assms s] by blast
qed

theorem segment_frame_lossless_witness:
  "\<exists>segs. segment_frame [1, 2, 3, 4, 5] 2 = Inr segs \<and> concat segs = [1, 2, 3, 4, 5] \<and> length segs = 3"
  using segment_frame_lossless [of 2 "[1, 2, 3, 4, 5]"] by auto

text \<open>
  C20. The nonce sequence. Calls on a fresh tracker with limit \<open>M\<close> return 1, 2, \<dots>, M, 1, 2, \<dots>: the
  \<open>i\<close>-th call (from 0) returns \<open>i mod M + 1\<close>, and after \<open>k\<close> calls \<^verbatim>\<open>wrap_count\<close> is \<open>(k - 1) div M\<close>.
\<close>

theorem nonce_tracker_sequence:
  assumes "0 < M"
  shows "fst (next_nonces k (nonce_tracker_init 1 (int M))) = map (\<lambda>i. int (i mod M) + 1) [0..<k] \<and>
     nt_wrap_count (snd (next_nonces k (nonce_tracker_init 1 (int M)))) = int ((k - 1) div M)"
  using next_nonces_closed [OF assms] by blast

theorem nonce_tracker_sequence_witness:
  "fst (next_nonces 5 (nonce_tracker_init 1 (int 3))) = [1, 2, 3, 1, 2]"
  using nonce_tracker_sequence [of 3 5] by (simp add: upt_rec)

end
