(* ===== verification/Tx_Main.thy ===== *)
theory Tx_Main
  imports Tx_Source Crypto
begin

text \<open>
  \<^verbatim>\<open>run_tx\<close> of \<^verbatim>\<open>pynq/runtime/main.py\<close>: the sender. A frame is cut into segments; each segment gets the
  next nonce and a header, is encrypted with the header as associated data, and is sent as one
  datagram. The state is the nonce tracker, the crypto adapter, the device behind it, the number of
  \<^verbatim>\<open>time.time_ns\<close> calls made (the clock is the parameter \<open>now\<close>, its \<open>k\<close>-th reading) and the datagrams
  sent so far.

  The datagrams go to \<^verbatim>\<open>UdpTransport.send\<close>, which hands them to the socket; the parameter \<open>snd_ok\<close> says
  which datagrams the socket takes, the others raise \<^verbatim>\<open>OSError\<close>.
\<close>

section \<open>Definitions\<close>

record 'd tx_env =
  te_hw :: "'d hw"
  te_enc :: aead
  te_now :: "nat \<Rightarrow> int"
  te_snd_ok :: "bytes \<Rightarrow> bool"

record 'd tx_state =
  tx_tracker :: nonce_tracker
  tx_crypto :: crypto_adapter
  tx_device :: 'd
  tx_clock_calls :: nat
  tx_sent :: "bytes list"

text \<open>\<^verbatim>\<open>parse_args\<close>: the options, and their values when none is given on the command line.\<close>

record tx_args =
  txa_config_dir :: string
  txa_source :: string
  txa_crypto_mode :: string
  txa_bitstream :: string
  txa_key_hex :: string
  txa_frames :: int
  txa_fps :: int
  txa_frame_bytes :: int
  txa_segment_bytes :: int
  txa_hdmi_width :: int
  txa_hdmi_height :: int
  txa_hdmi_fps :: "int option"
  txa_hdmi_pixel_format :: string
  txa_bind_ip :: "string option"
  txa_bind_port :: "int option"
  txa_target_ip :: "string option"
  txa_target_port :: "int option"
  txa_session_id :: int
  txa_stream_id :: int

definition tx_default_args :: "string option \<Rightarrow> tx_args" where
  "tx_default_args env_key =
     \<lparr>txa_config_dir = ''config'', txa_source = ''synthetic'', txa_crypto_mode = ''dma'',
      txa_bitstream = ''aes_gcm_dma_wrapper.bit'',
      txa_key_hex = (case env_key of None \<Rightarrow> [] | Some k \<Rightarrow> k),
      txa_frames = 120, txa_fps = 15, txa_frame_bytes = 120000, txa_segment_bytes = 1200,
      txa_hdmi_width = 1920, txa_hdmi_height = 1080, txa_hdmi_fps = None,
      txa_hdmi_pixel_format = ''GRAY8'', txa_bind_ip = None, txa_bind_port = None,
      txa_target_ip = None, txa_target_port = None, txa_session_id = 1, txa_stream_id = 1\<rparr>"

text \<open>The addresses of the transport: a command-line value overrides the configuration.\<close>

definition override :: "'a option \<Rightarrow> 'a \<Rightarrow> 'a" where
  "override arg cfg = (case arg of None \<Rightarrow> cfg | Some v \<Rightarrow> v)"

definition tx_header :: "tx_args \<Rightarrow> int \<Rightarrow> int \<Rightarrow> int \<Rightarrow> int \<Rightarrow> int \<Rightarrow> bytes \<Rightarrow> int \<Rightarrow> packet_header" where
  "tx_header args kid fid seg_id seg_count ts segment nonce =
     default_header\<lparr>session_id := txa_session_id args, stream_id := txa_stream_id args,
       frame_id := fid, segment_id := seg_id, segment_count := seg_count,
       source_timestamp_ns := ts, payload_type := PAYLOAD_TYPE_RAW_RGB, key_id := kid,
       payload_length := int (length segment), nonce_counter := nonce, tag_length := 16\<rparr>"

text \<open>One turn of the inner loop: nonce, header, encryption, datagram, send.\<close>

definition tx_segment :: "'d tx_env \<Rightarrow> tx_args \<Rightarrow> int \<Rightarrow> int \<Rightarrow> int \<Rightarrow> int \<times> bytes \<Rightarrow> 'd tx_state \<Rightarrow>
    (unit result \<times> 'd tx_state) option" where
  "tx_segment env args kid fid seg_count idseg s =
     (let (seg_id, segment) = idseg;
          (nonce, tr) = next_nonce (tx_tracker s);
          h = tx_header args kid fid seg_id seg_count (te_now env (tx_clock_calls s)) segment nonce;
          s1 = s\<lparr>tx_tracker := tr, tx_clock_calls := tx_clock_calls s + 1\<rparr>
      in case bind_r (pack_header h) (\<lambda>aad. bind_r (tx_nonce nonce) (\<lambda>n. Inr (aad, n))) of
           Inl e \<Rightarrow> Some (Inl e, s1)
         | Inr (aad, n) \<Rightarrow>
             (case adapter_encrypt (te_hw env) (te_enc env) n aad segment (tx_crypto s1, tx_device s1) of
                None \<Rightarrow> None
              | Some (r, c, d) \<Rightarrow>
                  let s2 = s1\<lparr>tx_crypto := c, tx_device := d\<rparr>
                  in case bind_r r (\<lambda>(ct, tag). build_datagram h ct tag) of
                       Inl e \<Rightarrow> Some (Inl e, s2)
                     | Inr dg \<Rightarrow> if te_snd_ok env dg then Some (Inr (), s2\<lparr>tx_sent := tx_sent s2 @ [dg]\<rparr>)
                                 else Some (Inl OSError, s2)))"

fun tx_segments :: "'d tx_env \<Rightarrow> tx_args \<Rightarrow> int \<Rightarrow> int \<Rightarrow> int \<Rightarrow> (int \<times> bytes) list \<Rightarrow> 'd tx_state \<Rightarrow>
    (unit result \<times> 'd tx_state) option" where
  "tx_segments env args kid fid n [] s = Some (Inr (), s)"
| "tx_segments env args kid fid n (x # xs) s =
     (case tx_segment env args kid fid n x s of
        None \<Rightarrow> None
      | Some (Inl e, s') \<Rightarrow> Some (Inl e, s')
      | Some (Inr _, s') \<Rightarrow> tx_segments env args kid fid n xs s')"

definition enumerate_i :: "'a list \<Rightarrow> (int \<times> 'a) list" where
  "enumerate_i xs = zip (map int [0..<length xs]) xs"

definition tx_frame :: "'d tx_env \<Rightarrow> tx_args \<Rightarrow> int \<Rightarrow> int \<Rightarrow> bytes \<Rightarrow> 'd tx_state \<Rightarrow>
    (unit result \<times> 'd tx_state) option" where
  "tx_frame env args kid fid frame s =
     (case segment_frame frame (txa_segment_bytes args) of
        Inl e \<Rightarrow> Some (Inl e, s)
      | Inr segments \<Rightarrow>
          tx_segments env args kid fid (int (length segments)) (enumerate_i segments) s)"

fun tx_frames :: "'d tx_env \<Rightarrow> tx_args \<Rightarrow> int \<Rightarrow> (bytes \<times> int) list \<Rightarrow> 'd tx_state \<Rightarrow>
    (unit result \<times> 'd tx_state) option" where
  "tx_frames env args kid [] s = Some (Inr (), s)"
| "tx_frames env args kid ((frame, fid) # rest) s =
     (case tx_frame env args kid fid frame s of
        None \<Rightarrow> None
      | Some (Inl e, s') \<Rightarrow> Some (Inl e, s')
      | Some (Inr _, s') \<Rightarrow> tx_frames env args kid rest s')"

definition synthetic_frames :: "tx_args \<Rightarrow> (bytes \<times> int) list" where
  "synthetic_frames args =
     map (\<lambda>fid. (synthetic_frame (txa_frame_bytes args) fid, fid)) [0..txa_frames args - 1]"

text \<open>
  The HDMI loop pulls a frame before it tests \<^verbatim>\<open>frame_id >= args.frames\<close>, so it reads one frame more
  than it sends, and a capture error on that frame still ends the run with the error. \<open>src\<close> is the
  \<open>k\<close>-th frame of the capture iterator, which never ends by itself.
\<close>

fun tx_hdmi :: "'d tx_env \<Rightarrow> tx_args \<Rightarrow> int \<Rightarrow> (nat \<Rightarrow> bytes result) \<Rightarrow> nat \<Rightarrow> nat \<Rightarrow> 'd tx_state \<Rightarrow>
    (unit result \<times> 'd tx_state) option" where
  "tx_hdmi env args kid src 0 k s = (case src k of Inl e \<Rightarrow> Some (Inl e, s) | Inr _ \<Rightarrow> Some (Inr (), s))"
| "tx_hdmi env args kid src (Suc left) k s =
     (case src k of
        Inl e \<Rightarrow> Some (Inl e, s)
      | Inr frame \<Rightarrow>
          (case tx_frame env args kid (int k) frame s of
             None \<Rightarrow> None
           | Some (Inl e, s') \<Rightarrow> Some (Inl e, s')
           | Some (Inr _, s') \<Rightarrow> tx_hdmi env args kid src left (k + 1) s'))"

text \<open>The checks of \<^verbatim>\<open>run_tx\<close> before the transport is created.\<close>

definition tx_check_key :: "tx_args \<Rightarrow> unit result" where
  "tx_check_key args =
     (if txa_crypto_mode args \<noteq> ''none'' \<and> txa_key_hex args = [] then Inl ValueError
      else if txa_key_hex args = [] then Inr ()
      else bind_r (bytes_fromhex (txa_key_hex args)) (\<lambda>key_bytes.
             if length key_bytes \<noteq> 32 then Inl ValueError else Inr ()))"

definition tx_start :: "'d \<Rightarrow> crypto_adapter \<Rightarrow> 'd tx_state" where
  "tx_start d c = \<lparr>tx_tracker = nonce_tracker_init 1 (2 ^ 64 - 1), tx_crypto = c, tx_device = d,
     tx_clock_calls = 0, tx_sent = []\<rparr>"

text \<open>
  \<^verbatim>\<open>run_tx\<close>. \<open>hdmi\<close> is the outcome of \<^verbatim>\<open>_load_hdmi_source\<close> (the capture iterator's frames), \<open>bind\<close> the
  outcome of creating the transport. The \<^verbatim>\<open>finally\<close> clause closes the adapter; it runs only around the
  send loops, so a bad key id raises with the adapter still loaded.
\<close>

definition run_tx :: "'d tx_env \<Rightarrow> board \<Rightarrow> tx_args \<Rightarrow> int \<Rightarrow> (nat \<Rightarrow> bytes result) result \<Rightarrow> unit result \<Rightarrow>
    'd \<Rightarrow> (unit result \<times> 'd tx_state) option" where
  "run_tx env b args kid hdmi bind d =
     (let c0 = crypto_adapter_init (txa_crypto_mode args) (txa_key_hex args) (txa_bitstream args);
          source = (if txa_source args = ''hdmi'' then hdmi else Inr (\<lambda>_. Inr []))
      in case bind_r source (\<lambda>src. bind_r (tx_check_key args) (\<lambda>_. bind_r bind (\<lambda>_. Inr src))) of
           Inl e \<Rightarrow> Some (Inl e, tx_start d c0)
         | Inr src \<Rightarrow>
             (case adapter_load b c0 of
                (Inl e, c) \<Rightarrow> Some (Inl e, tx_start d c)
              | (Inr _, c) \<Rightarrow>
                  if \<not> (0 < kid \<and> kid < 256) then Some (Inl ValueError, tx_start d c)
                  else map_option (\<lambda>(r, s). (r, s\<lparr>tx_crypto := adapter_close (tx_crypto s)\<rparr>))
                    (if txa_source args = ''hdmi''
                     then tx_hdmi env args kid src (nat (txa_frames args)) 0 (tx_start d c)
                     else tx_frames env args kid (synthetic_frames args) (tx_start d c))))"

section \<open>Sending with the software cipher\<close>

text \<open>
  The conditions under which a packet can be built and is not mistaken for a padded slot by the
  receiver: every header field inside its width, a nonce inside 64 bits, a segment that respects the
  payload limit, and the socket accepting the datagram.
\<close>

definition tx_args_ok :: "tx_args \<Rightarrow> int \<Rightarrow> bool" where
  "tx_args_ok args kid \<longleftrightarrow>
     0 < txa_segment_bytes args \<and> txa_segment_bytes args \<le> MAX_PAYLOAD_BYTES \<and>
     0 \<le> txa_session_id args \<and> txa_session_id args < 2 ^ 32 \<and>
     0 \<le> txa_stream_id args \<and> txa_stream_id args < 2 ^ 16 \<and> 0 < kid \<and> kid < 256"

definition tx_env_ok :: "'d tx_env \<Rightarrow> bool" where
  "tx_env_ok env \<longleftrightarrow> (\<forall>k. 0 \<le> te_now env k \<and> te_now env k < 2 ^ 64) \<and>
     (\<forall>dg. length dg \<le> 56 + nat MAX_PAYLOAD_BYTES \<longrightarrow> te_snd_ok env dg)"

lemma tx_header_fields [simp]:
  "session_id (tx_header args kid fid i n ts seg c) = txa_session_id args"
  "stream_id (tx_header args kid fid i n ts seg c) = txa_stream_id args"
  "frame_id (tx_header args kid fid i n ts seg c) = fid"
  "segment_id (tx_header args kid fid i n ts seg c) = i"
  "segment_count (tx_header args kid fid i n ts seg c) = n"
  "key_id (tx_header args kid fid i n ts seg c) = kid"
  "payload_length (tx_header args kid fid i n ts seg c) = int (length seg)"
  "nonce_counter (tx_header args kid fid i n ts seg c) = c"
  "tag_length (tx_header args kid fid i n ts seg c) = 16"
  "magic (tx_header args kid fid i n ts seg c) = MAGIC"
  "version (tx_header args kid fid i n ts seg c) = VERSION"
  "payload_type (tx_header args kid fid i n ts seg c) = PAYLOAD_TYPE_RAW_RGB"
  by (simp_all add: tx_header_def default_header_def)

lemma tx_header_fits:
  assumes "tx_args_ok args kid" and "0 \<le> fid" "fid < 2 ^ 32" and "0 \<le> i" "i < n" "n < 2 ^ 16"
    and "0 \<le> ts" "ts < 2 ^ 64" and "int (length seg) \<le> MAX_PAYLOAD_BYTES" and "0 \<le> c" "c < 2 ^ 64"
  shows "header_fits (tx_header args kid fid i n ts seg c)"
  using assms unfolding header_fits_def tx_header_fields tx_args_ok_def
  by (simp add: osv_consts) (simp add: tx_header_def default_header_def)

text \<open>One segment: the datagram is the header's, with the sealed segment, and the nonce advances.\<close>

lemma tx_segment_sends:
  assumes spec: "aesgcm_spec (te_enc env) dec" and sw: "sw_ready key (tx_crypto s)"
    and env: "tx_env_ok env" and args: "tx_args_ok args kid" and fid: "0 \<le> fid" "fid < 2 ^ 32"
    and i: "0 \<le> i" "i < n" "n < 2 ^ 16" and seg: "int (length seg) \<le> MAX_PAYLOAD_BYTES"
    and tr: "nt_max_counter (tx_tracker s) = 2 ^ 64 - 1"
      "0 \<le> nt_current (tx_tracker s)" "nt_current (tx_tracker s) + 1 < 2 ^ 64"
  shows "\<exists>ts aad ct tag dg h.
     h = tx_header args kid fid i n ts seg (nt_current (tx_tracker s) + 1) \<and>
     pack_header h = Inr aad \<and>
     sw_decrypt dec \<lparr>sw_key = key\<rparr> ([0, 0, 0, 1] @ be_bytes 8 (nt_current (tx_tracker s) + 1)) aad ct tag = Inr seg \<and>
     length ct = length seg \<and> length tag = 16 \<and> build_datagram h ct tag = Inr dg \<and>
     tx_segment env args kid fid n (i, seg) s =
       Some (Inr (), s\<lparr>tx_tracker := (tx_tracker s)\<lparr>nt_current := nt_current (tx_tracker s) + 1\<rparr>,
         tx_clock_calls := tx_clock_calls s + 1, tx_sent := tx_sent s @ [dg]\<rparr>)"
proof -
  let ?c = "nt_current (tx_tracker s) + 1" and ?ts = "te_now env (tx_clock_calls s)"
  let ?h = "tx_header args kid fid i n ?ts seg ?c" and ?nonce = "[0, 0, 0, 1] @ be_bytes 8 ?c"
  have ts: "0 \<le> ?ts" "?ts < 2 ^ 64" using env by (simp_all add: tx_env_ok_def)
  have c: "0 \<le> ?c" "?c < 2 ^ 64" using tr by simp_all
  obtain aad where aad: "pack_header ?h = Inr aad"
    using pack_header_fits [OF tx_header_fits [OF args fid i ts seg c]] by blast
  have ch: "sealed_channel (sw_encrypt (te_enc env) \<lparr>sw_key = key\<rparr>) (sw_decrypt dec \<lparr>sw_key = key\<rparr>)"
    using sw by (intro sw_sealed_channel [OF spec]) (simp add: sw_ready_def)
  obtain ct tag where enc: "sw_encrypt (te_enc env) \<lparr>sw_key = key\<rparr> ?nonce aad seg = Inr (ct, tag)"
    and len: "length ct = length seg" "length tag = 16"
    and dec: "sw_decrypt dec \<lparr>sw_key = key\<rparr> ?nonce aad ct tag = Inr seg"
    using sealed_channel.seal_unseal [OF ch, of ?nonce seg aad] seg pack_header_length [OF aad]
    by (auto simp: MAX_PAYLOAD_BYTES_def HEADER_SIZE_BYTES_def)
  obtain dg where dg: "build_datagram ?h ct tag = Inr dg" using len aad by (simp add: build_datagram_def)
  have "length dg \<le> 56 + nat MAX_PAYLOAD_BYTES"
    using dg len seg pack_header_length [OF aad] aad
    by (auto simp: build_datagram_def HEADER_SIZE_BYTES_def)
  then have ok: "te_snd_ok env dg" using env by (simp add: tx_env_ok_def)
  have nn: "next_nonce (tx_tracker s) = (?c, (tx_tracker s)\<lparr>nt_current := ?c\<rparr>)"
    using tr by (simp add: next_nonce_def Let_def)
  have "tx_segment env args kid fid n (i, seg) s =
       Some (Inr (), s\<lparr>tx_tracker := (tx_tracker s)\<lparr>nt_current := ?c\<rparr>,
         tx_clock_calls := tx_clock_calls s + 1, tx_sent := tx_sent s @ [dg]\<rparr>)"
    using aad dg ok enc tx_nonce_defined [OF c]
    by (simp add: tx_segment_def nn Let_def adapter_encrypt_sw [OF sw])
  with aad dec len dg show ?thesis by blast
qed

end
