(* ===== verification/End_To_End.thy ===== *)
theory End_To_End
  imports Rx_Main Tx_Main
begin

text \<open>
  Sender and receiver together. The lemmas follow one segment, then one frame, then a list of frames
  from \<^verbatim>\<open>run_tx\<close> through the wire into the receive loop of \<^verbatim>\<open>main_rx.py\<close>, for the software cipher on both
  sides: every datagram sent is accepted, every frame is shown once and in order, nothing is dropped.
\<close>

section \<open>One segment\<close>

lemma nonce_agrees: "rx_nonce = tx_nonce"
  by (rule ext) (simp add: rx_nonce_def tx_nonce_def)

lemma sent_accepted:
  assumes dg: "build_datagram h ct tag = Inr dg" and h: "h = tx_header args kid fid i n ts seg c"
    and aad: "pack_header h = Inr aad"
    and dec: "sw_decrypt dec sw ([0, 0, 0, 1] @ be_bytes 8 c) aad ct tag = Inr seg"
    and len: "length ct = length seg" "length tag = 16"
    and i: "i < n" "n \<noteq> 0" and c: "0 \<le> c" "c < 2 ^ 64"
    and seg: "int (length seg) \<le> MAX_PAYLOAD_BYTES" "length seg \<noteq> 1352"
  shows "accepts dec sw kid dg h seg"
proof -
  have "length dg \<noteq> TRANSPORT_SLOT_BYTES"
    using build_datagram_length [OF dg] len seg(2) by (simp add: TRANSPORT_SLOT_BYTES_def)
  then have p: "rx_parse dec sw dg = Inr (False, h, ct, tag)"
    using rx_parse_osv [OF dg] by (simp add: h)
  have v: "validate_header h = []"
    using i seg(1) by (simp add: validate_header_Nil_iff h VALID_PAYLOAD_TYPES_def DEFAULT_TAG_LENGTH_def)
  have "rx_plain dec sw False h ct tag = Inr seg"
    using aad dec rx_nonce_defined [OF c] by (simp add: rx_plain_def h)
  moreover have "key_id h = kid" by (simp add: h)
  ultimately show ?thesis using p v unfolding accepts_def by blast
qed

section \<open>One frame on the sending side\<close>

definition tx_ready :: "bytes \<Rightarrow> int \<Rightarrow> 'd tx_state \<Rightarrow> bool" where
  "tx_ready key c s \<longleftrightarrow> sw_ready key (tx_crypto s) \<and> 0 \<le> c \<and>
     nt_max_counter (tx_tracker s) = 2 ^ 64 - 1 \<and> nt_current (tx_tracker s) = c"

text \<open>The headers of consecutive segments of one frame, with consecutive nonces.\<close>

definition tx_headers :: "tx_args \<Rightarrow> int \<Rightarrow> int \<Rightarrow> int \<Rightarrow> int \<Rightarrow> packet_header list \<Rightarrow> bool" where
  "tx_headers args fid n i c hs \<longleftrightarrow>
     (\<forall>j < length hs. header_key (hs ! j) = (txa_session_id args, txa_stream_id args, fid) \<and>
        segment_count (hs ! j) = n \<and> segment_id (hs ! j) = i + int j \<and>
        nonce_counter (hs ! j) = c + 1 + int j)"

lemma tx_headers_Cons:
  assumes "header_key h = (txa_session_id args, txa_stream_id args, fid)" "segment_count h = n"
    "segment_id h = i" "nonce_counter h = c + 1" "tx_headers args fid n (i + 1) (c + 1) hs"
  shows "tx_headers args fid n i c (h # hs)"
  using assms by (auto simp: tx_headers_def nth_Cons split: nat.split)

lemma tx_segment_send:
  assumes spec: "aesgcm_spec (te_enc env) dec" and env: "tx_env_ok env" and args: "tx_args_ok args kid"
    and fid: "0 \<le> fid" "fid < 2 ^ 32" and n: "n < 2 ^ 16" and s: "tx_ready key c s" "c + 1 < 2 ^ 64"
    and i: "0 \<le> i" "i < n" and seg: "int (length seg) \<le> MAX_PAYLOAD_BYTES" "length seg \<noteq> 1352"
  shows "\<exists>s' dg ts h. tx_segment env args kid fid n (i, seg) s = Some (Inr (), s') \<and> tx_sent s' = tx_sent s @ [dg] \<and>
     tx_ready key (c + 1) s' \<and> accepts dec \<lparr>sw_key = key\<rparr> kid dg h seg \<and> h = tx_header args kid fid i n ts seg (c + 1)"
proof -
  have tr: "nt_max_counter (tx_tracker s) = 2 ^ 64 - 1" "0 \<le> nt_current (tx_tracker s)"
    "nt_current (tx_tracker s) + 1 < 2 ^ 64" "sw_ready key (tx_crypto s)" "nt_current (tx_tracker s) = c"
    using s by (simp_all add: tx_ready_def)
  obtain ts aad ct tag dg h where h: "h = tx_header args kid fid i n ts seg (c + 1)"
    and p: "pack_header h = Inr aad"
      "sw_decrypt dec \<lparr>sw_key = key\<rparr> ([0, 0, 0, 1] @ be_bytes 8 (c + 1)) aad ct tag = Inr seg"
      "length ct = length seg" "length tag = 16" "build_datagram h ct tag = Inr dg"
    and st: "tx_segment env args kid fid n (i, seg) s =
       Some (Inr (), s\<lparr>tx_tracker := (tx_tracker s)\<lparr>nt_current := c + 1\<rparr>,
         tx_clock_calls := tx_clock_calls s + 1, tx_sent := tx_sent s @ [dg]\<rparr>)"
    using tx_segment_sends [OF spec tr(4) env args fid i(1,2) n seg(1) tr(1-3)] unfolding tr(5) by metis
  let ?s = "s\<lparr>tx_tracker := (tx_tracker s)\<lparr>nt_current := c + 1\<rparr>,
         tx_clock_calls := tx_clock_calls s + 1, tx_sent := tx_sent s @ [dg]\<rparr>"
  have acc: "accepts dec \<lparr>sw_key = key\<rparr> kid dg h seg"
    by (rule sent_accepted [OF p(5) h p(1-4) i(2) _ _ _ seg]) (use tr i in simp_all)
  have "tx_ready key (c + 1) ?s" using s by (simp add: tx_ready_def)
  then show ?thesis using st acc h by (intro exI [of _ ?s] exI [of _ dg] exI [of _ ts] exI [of _ h]) simp
qed

lemma tx_segments_send:
  assumes spec: "aesgcm_spec (te_enc env) dec" and env: "tx_env_ok env" and args: "tx_args_ok args kid"
    and fid: "0 \<le> fid" "fid < 2 ^ 32" and n: "n < 2 ^ 16"
  shows "tx_ready key c s \<Longrightarrow> c + int (length segs) < 2 ^ 64 \<Longrightarrow> 0 \<le> i \<Longrightarrow> i + int (length segs) \<le> n \<Longrightarrow>
    \<forall>seg \<in> set segs. int (length seg) \<le> MAX_PAYLOAD_BYTES \<and> length seg \<noteq> 1352 \<Longrightarrow>
    \<exists>s' dgs hs. tx_segments env args kid fid n (zip (map (\<lambda>j. i + int j) [0..<length segs]) segs) s = Some (Inr (), s') \<and>
      tx_sent s' = tx_sent s @ dgs \<and> length hs = length segs \<and> tx_headers args fid n i c hs \<and>
      list_all2 (\<lambda>dg hp. accepts dec \<lparr>sw_key = key\<rparr> kid dg (fst hp) (snd hp)) dgs (zip hs segs) \<and>
      tx_ready key (c + int (length segs)) s'"
proof (induction segs arbitrary: s c i)
  case Nil
  then show ?case by (intro exI [of _ s] exI [of _ "[]"]) (simp add: tx_headers_def)
next
  case (Cons seg segs)
  have i: "0 \<le> i" "i < n" and c: "c + 1 < 2 ^ 64" using Cons.prems(2-4) by simp_all
  have seg: "int (length seg) \<le> MAX_PAYLOAD_BYTES" "length seg \<noteq> 1352" using Cons.prems(5) by simp_all
  from tx_segment_send [OF spec env args fid n Cons.prems(1) c i seg] obtain s1 dg ts h
    where st: "tx_segment env args kid fid n (i, seg) s = Some (Inr (), s1)" "tx_sent s1 = tx_sent s @ [dg]"
      "tx_ready key (c + 1) s1" "accepts dec \<lparr>sw_key = key\<rparr> kid dg h seg" "h = tx_header args kid fid i n ts seg (c + 1)"
    by blast
  from Cons.IH [OF st(3), of "i + 1"] Cons.prems obtain s' dgs hs where
    r: "tx_segments env args kid fid n (zip (map (\<lambda>j. i + 1 + int j) [0..<length segs]) segs) s1 = Some (Inr (), s')"
      "tx_sent s' = tx_sent s1 @ dgs" "length hs = length segs" "tx_headers args fid n (i + 1) (c + 1) hs"
      "list_all2 (\<lambda>dg hp. accepts dec \<lparr>sw_key = key\<rparr> kid dg (fst hp) (snd hp)) dgs (zip hs segs)"
      "tx_ready key (c + 1 + int (length segs)) s'"
    by auto
  have z: "map (\<lambda>j. i + int j) [0..<length (seg # segs)] = i # map (\<lambda>j. i + 1 + int j) [0..<length segs]"
    by (simp add: upt_conv_Cons map_Suc_upt [symmetric] comp_def add.assoc del: upt_Suc)
  have hk: "tx_headers args fid n i c (h # hs)"
    by (rule tx_headers_Cons [OF _ _ _ _ r(4)]) (simp_all add: st(5) header_key_def)
  show ?case
    unfolding z
    by (intro exI [of _ s'] exI [of _ "dg # dgs"] exI [of _ "h # hs"])
      (use st(1,2,4) r hk in \<open>simp add: add.assoc\<close>)
qed

section \<open>One frame on the receiving side\<close>

text \<open>Between frames: nothing pending, and no nonce above the last one sent.\<close>

definition rx_idle :: "int \<Rightarrow> rx_state \<Rightarrow> bool" where
  "rx_idle c s \<longleftrightarrow> rx_inv s \<and> frames (rx_reasm s) = [] \<and> max_active_frames (rx_reasm s) = 8 \<and>
     latest_nonce (rx_validator s) \<le> c"

lemma tx_headers_nonces:
  assumes "tx_headers args fid n i c hs" and "length hs = length segs"
  shows "map (nonce_counter \<circ> fst) (zip hs segs) = map (\<lambda>j. c + 1 + int j) [0..<length segs]"
  by (rule nth_equalityI) (use assms in \<open>simp_all add: tx_headers_def\<close>)

lemma rx_prefix_completed:
  assumes "rx_inv s" "list_all2 (\<lambda>dg hp. accepts dec sw kid dg (fst hp) (snd hp)) dgs ps"
    and "sorted_wrt (<) (latest_nonce (rx_validator s) # map (nonce_counter \<circ> fst) ps)"
  shows "rx_completed (rx_run dec sw strict kid s (take k dgs)) =
     rx_completed s + int (length (shown_frames (take k (fst (run_outs push_packet (rx_reasm s) ps)))))"
proof -
  have "sorted_wrt (<) (latest_nonce (rx_validator s) # map (nonce_counter \<circ> fst) (take k ps))"
    using assms(3) sorted_wrt_take [of "(<)" "latest_nonce (rx_validator s) # map (nonce_counter \<circ> fst) ps" "Suc k"]
    by (simp add: take_map)
  from rx_run_accepted [OF assms(1) list_all2_takeI [OF assms(2)] this, of strict] show ?thesis by (simp add: run_outs_take)
qed

lemma rx_receives_frame:
  assumes idle: "rx_idle c s" and hs: "tx_headers args fid (int (length segs)) 0 c hs"
    and len: "length hs = length segs" and ne: "segs \<noteq> []"
    and acc: "list_all2 (\<lambda>dg hp. accepts dec sw kid dg (fst hp) (snd hp)) dgs (zip hs segs)"
    and m: "rx_completed s < m"
  shows "\<exists>s'. (\<forall>evs. rx_loop dec sw strict kid m s (map Datagram dgs @ evs) = rx_loop dec sw strict kid m s' evs) \<and>
     rx_idle (c + int (length segs)) s' \<and> rx_shown s' = rx_shown s @ [concat segs] \<and>
     rx_completed s' = rx_completed s + 1 \<and> rx_dropped s' = rx_dropped s"
proof -
  let ?ps = "zip hs segs" and ?n = "length segs"
  let ?outs = "replicate (?n - 1) (Inr None) @ [Inr (Some (concat segs))]"
  have inv: "rx_inv s" "reasm_inv (rx_reasm s)" using idle by (simp_all add: rx_idle_def rx_inv_def)
  have ord: "in_order (txa_session_id args, txa_stream_id args, fid) hs segs"
    using hs len by (auto simp: in_order_def tx_headers_def)
  have push: "fst (run_outs push_packet (rx_reasm s) ?ps) = ?outs"
    "frames (snd (run_outs push_packet (rx_reasm s) ?ps)) = []"
    using push_in_order [OF inv(2) _ _ ord ne] idle by (simp_all add: rx_idle_def)
  have sorted: "sorted_wrt (<) (latest_nonce (rx_validator s) # map (nonce_counter \<circ> fst) ?ps)"
    unfolding tx_headers_nonces [OF hs len]
    using idle by (auto simp: rx_idle_def sorted_wrt_map sorted_wrt_upt)
  have ld: "length dgs = ?n" using list_all2_lengthD [OF acc] len by simp
  have pre: "rx_completed (rx_run dec sw strict kid s (take k dgs)) < m" if "k < length dgs" for k
    using rx_prefix_completed [OF inv(1) acc sorted, of strict k] that ld m by (simp add: push(1))
  let ?s = "rx_run dec sw strict kid s dgs"
  note r = rx_run_accepted [OF inv(1) acc sorted, of strict]
  have "rx_inv ?s" by (rule rx.run_inv [OF inv(1)])
  moreover have "1 + int (?n - Suc 0) = int ?n" using ne by (cases segs) simp_all
  then have "latest_nonce (rx_validator ?s) \<le> c + int ?n"
    using r ne by (simp add: tx_headers_nonces [OF hs len] last_map)
  moreover have "frames (rx_reasm ?s) = [] \<and> max_active_frames (rx_reasm ?s) = 8"
    using r push(2) idle by (simp add: rx_idle_def push_max_run)
  ultimately have "rx_idle (c + int ?n) ?s" by (simp add: rx_idle_def)
  moreover have "shown_frames ?outs = [concat segs]" by simp
  ultimately show ?thesis
    using rx_loop_prefix [OF inv(1), of dgs dec sw strict kid m] pre r push(1)
    by (intro exI [of _ ?s]) simp
qed

section \<open>A list of frames\<close>

text \<open>
  A frame the sender can transmit: not empty, at most 65535 segments, and no segment of the one
  length whose datagram the receiver mistakes for a padded slot.
\<close>

definition sendable :: "tx_args \<Rightarrow> bytes \<Rightarrow> bool" where
  "sendable args f \<longleftrightarrow>
     (case segment_frame f (txa_segment_bytes args) of
        Inl _ \<Rightarrow> False
      | Inr segs \<Rightarrow> segs \<noteq> [] \<and> length segs < 2 ^ 16 \<and> list_all (\<lambda>seg. length seg \<noteq> 1352) segs)"

definition frame_segments :: "tx_args \<Rightarrow> bytes \<Rightarrow> nat" where
  "frame_segments args f = (length f + nat (txa_segment_bytes args) - 1) div nat (txa_segment_bytes args)"

lemma enumerate_i_zip: "enumerate_i segs = zip (map (\<lambda>j. 0 + int j) [0..<length segs]) segs"
  by (simp add: enumerate_i_def)

lemma frame_transfer:
  assumes spec: "aesgcm_spec (te_enc env) dec" and env: "tx_env_ok env" and args: "tx_args_ok args kid"
    and fid: "0 \<le> fid" "fid < 2 ^ 32" and f: "sendable args f"
    and tx: "tx_ready key c s" "c + int (frame_segments args f) < 2 ^ 64"
    and rx: "rx_idle c r" "rx_completed r < m"
  shows "\<exists>s' dgs r'. tx_frame env args kid fid f s = Some (Inr (), s') \<and> tx_sent s' = tx_sent s @ dgs \<and>
     tx_ready key (c + int (frame_segments args f)) s' \<and>
     (\<forall>evs. rx_loop dec \<lparr>sw_key = key\<rparr> strict kid m r (map Datagram dgs @ evs) =
        rx_loop dec \<lparr>sw_key = key\<rparr> strict kid m r' evs) \<and>
     rx_idle (c + int (frame_segments args f)) r' \<and> rx_shown r' = rx_shown r @ [f] \<and>
     rx_completed r' = rx_completed r + 1 \<and> rx_dropped r' = rx_dropped r"
proof -
  have sb: "0 < txa_segment_bytes args" "txa_segment_bytes args \<le> MAX_PAYLOAD_BYTES"
    using args by (simp_all add: tx_args_ok_def)
  obtain segs where segs: "segment_frame f (txa_segment_bytes args) = Inr segs"
    using f by (auto simp: sendable_def split: sum.splits)
  have sf: "segs \<noteq> []" "length segs < 2 ^ 16" "\<forall>seg \<in> set segs. length seg \<noteq> 1352"
    using f segs by (auto simp: sendable_def list_all_iff)
  have cat: "concat segs = f" by (rule segment_frame_concat [OF sb(1) segs])
  have cnt: "frame_segments args f = length segs"
    using segment_frame_count [OF sb(1) segs] by (simp add: frame_segments_def)
  have small: "\<forall>seg \<in> set segs. int (length seg) \<le> MAX_PAYLOAD_BYTES \<and> length seg \<noteq> 1352"
    using segment_frame_lengths [OF sb(1) segs] sb(2) sf(3) by fastforce
  have n: "int (length segs) < 2 ^ 16" using sf(2) by simp
  obtain s' dgs hs where
    t: "tx_segments env args kid fid (int (length segs)) (zip (map (\<lambda>j. 0 + int j) [0..<length segs]) segs) s = Some (Inr (), s')"
      "tx_sent s' = tx_sent s @ dgs" "length hs = length segs" "tx_headers args fid (int (length segs)) 0 c hs"
      "list_all2 (\<lambda>dg hp. accepts dec \<lparr>sw_key = key\<rparr> kid dg (fst hp) (snd hp)) dgs (zip hs segs)"
      "tx_ready key (c + int (length segs)) s'"
    using tx_segments_send [OF spec env args fid n tx(1) _ _ _ small, of 0] tx(2) cnt by auto
  have fr: "tx_frame env args kid fid f s = Some (Inr (), s')"
    using t(1) segs by (simp add: tx_frame_def enumerate_i_zip)
  show ?thesis
    using rx_receives_frame [OF rx(1) t(4,3) sf(1) t(5) rx(2), of strict] fr t(2,6)
    unfolding cnt cat by blast
qed

definition total_segments :: "tx_args \<Rightarrow> (bytes \<times> int) list \<Rightarrow> nat" where
  "total_segments args fs = sum_list (map (\<lambda>(f, _). frame_segments args f) fs)"

lemma frames_transfer:
  assumes spec: "aesgcm_spec (te_enc env) dec" and env: "tx_env_ok env" and args: "tx_args_ok args kid"
  shows "\<forall>(f, fid) \<in> set fs. sendable args f \<and> 0 \<le> fid \<and> fid < 2 ^ 32 \<Longrightarrow>
    tx_ready key c s \<Longrightarrow> c + int (total_segments args fs) < 2 ^ 64 \<Longrightarrow> rx_idle c r \<Longrightarrow>
    rx_completed r + int (length fs) \<le> m \<Longrightarrow>
    \<exists>s' dgs r'. tx_frames env args kid fs s = Some (Inr (), s') \<and> tx_sent s' = tx_sent s @ dgs \<and>
     (\<forall>evs. rx_loop dec \<lparr>sw_key = key\<rparr> strict kid m r (map Datagram dgs @ evs) =
        rx_loop dec \<lparr>sw_key = key\<rparr> strict kid m r' evs) \<and>
     rx_shown r' = rx_shown r @ map fst fs \<and> rx_completed r' = rx_completed r + int (length fs) \<and>
     rx_dropped r' = rx_dropped r"
proof (induction fs arbitrary: s c r)
  case Nil
  then show ?case by (intro exI [of _ s] exI [of _ "[]"] exI [of _ r]) simp
next
  case (Cons ffid fs)
  obtain f fid where ff: "ffid = (f, fid)" by (cases ffid)
  let ?n = "int (frame_segments args f)"
  have f: "0 \<le> fid" "fid < 2 ^ 32" "sendable args f" using Cons.prems(1) ff by auto
  have tot: "int (total_segments args (ffid # fs)) = ?n + int (total_segments args fs)"
    by (simp add: total_segments_def ff)
  have "c + ?n < 2 ^ 64" and "rx_completed r < m" using Cons.prems(3,5) tot by simp_all
  from frame_transfer [OF spec env args f Cons.prems(2) this(1) Cons.prems(4) this(2), of strict]
  obtain s1 dgs1 r1 where
    1: "tx_frame env args kid fid f s = Some (Inr (), s1)" "tx_sent s1 = tx_sent s @ dgs1"
      "tx_ready key (c + ?n) s1" "rx_idle (c + ?n) r1"
      "\<forall>evs. rx_loop dec \<lparr>sw_key = key\<rparr> strict kid m r (map Datagram dgs1 @ evs) =
        rx_loop dec \<lparr>sw_key = key\<rparr> strict kid m r1 evs"
      "rx_shown r1 = rx_shown r @ [f]" "rx_completed r1 = rx_completed r + 1" "rx_dropped r1 = rx_dropped r"
    by blast
  have "\<forall>(f, fid) \<in> set fs. sendable args f \<and> 0 \<le> fid \<and> fid < 2 ^ 32" using Cons.prems(1) by simp
  from Cons.IH [OF this 1(3) _ 1(4)] obtain s2 dgs2 r2 where
    2: "tx_frames env args kid fs s1 = Some (Inr (), s2)" "tx_sent s2 = tx_sent s1 @ dgs2"
      "\<forall>evs. rx_loop dec \<lparr>sw_key = key\<rparr> strict kid m r1 (map Datagram dgs2 @ evs) =
        rx_loop dec \<lparr>sw_key = key\<rparr> strict kid m r2 evs"
      "rx_shown r2 = rx_shown r1 @ map fst fs" "rx_completed r2 = rx_completed r1 + int (length fs)"
      "rx_dropped r2 = rx_dropped r1"
    using Cons.prems(3,5) tot 1(7) by auto
  show ?case
    by (intro exI [of _ s2] exI [of _ "dgs1 @ dgs2"] exI [of _ r2])
      (use 1 2 ff in \<open>simp add: add.assoc\<close>)
qed

section \<open>The two programs\<close>

lemma tx_start_ready: "sw_ready key c \<Longrightarrow> tx_ready key 0 (tx_start d c)"
  by (simp add: tx_ready_def tx_start_def nonce_tracker_init_def)

lemma rx_init_idle: "rx_idle 0 (rx_init strict w)"
  using rx_init_inv [of strict w]
  by (simp add: rx_idle_def rx_init_def reassembler_init_def nonce_validator_init_def)

lemma frame_segments_sendable: "tx_args_ok args kid \<Longrightarrow> sendable args f \<Longrightarrow> frame_segments args f < 2 ^ 16"
  using segment_frame_count [of "txa_segment_bytes args" f]
  by (auto simp: sendable_def frame_segments_def tx_args_ok_def split: sum.splits)

lemma total_segments_bound:
  assumes "tx_args_ok args kid" and "\<forall>(f, fid) \<in> set fs. sendable args f" and "length fs \<le> 2 ^ 32"
  shows "int (total_segments args fs) < 2 ^ 64"
proof -
  have "total_segments args fs \<le> length fs * 2 ^ 16"
    using assms(2)
  proof (induction fs)
    case Nil
    show ?case by (simp add: total_segments_def)
  next
    case (Cons x fs)
    obtain f fid where x: "x = (f, fid)" by (cases x)
    have "frame_segments args f < 2 ^ 16"
      using Cons.prems x frame_segments_sendable [OF assms(1)] by auto
    with Cons show ?case by (simp add: total_segments_def x)
  qed
  also have "\<dots> \<le> 2 ^ 32 * 2 ^ 16" using assms(3) by simp
  finally show ?thesis by (simp add: nat_less_iff [symmetric])
qed

text \<open>What \<^verbatim>\<open>run_tx\<close> does once its checks pass with the software cipher.\<close>

definition tx_setup_ok :: "board \<Rightarrow> tx_args \<Rightarrow> int \<Rightarrow> bytes \<Rightarrow> bool" where
  "tx_setup_ok b args kid key \<longleftrightarrow> tx_args_ok args kid \<and> txa_crypto_mode args = ''aesgcm'' \<and>
     bytes_fromhex (txa_key_hex args) = Inr key \<and> length key = 32 \<and> bd_cryptography b"

lemma run_tx_loops:
  assumes "tx_setup_ok b args kid key"
    and "txa_source args = ''hdmi'' \<Longrightarrow> hdmi = Inr src"
  shows "\<exists>c. sw_ready key c \<and> run_tx env b args kid hdmi (Inr ()) d =
     map_option (\<lambda>(r, s). (r, s\<lparr>tx_crypto := adapter_close (tx_crypto s)\<rparr>))
       (if txa_source args = ''hdmi'' then tx_hdmi env args kid src (nat (txa_frames args)) 0 (tx_start d c)
        else tx_frames env args kid (synthetic_frames args) (tx_start d c))"
proof -
  have hex: "bytes_fromhex (txa_key_hex args) = Inr key" "length key = 32" "bd_cryptography b"
    and m: "txa_crypto_mode args = ''aesgcm''" and kid: "0 < kid" "kid < 256"
    using assms(1) by (simp_all add: tx_setup_ok_def tx_args_ok_def)
  obtain c where c: "adapter_load b (crypto_adapter_init ''aesgcm'' (txa_key_hex args) (txa_bitstream args)) = (Inr (), c)"
    and sw: "sw_ready key c"
    using adapter_load_sw [OF hex] by blast
  have ne: "txa_key_hex args \<noteq> []" using hex(1,2) by auto
  have "tx_check_key args = Inr ()" using hex ne by (simp add: tx_check_key_def)
  then show ?thesis
    using c kid m sw assms(2) by (intro exI [of _ c]) (simp add: run_tx_def Let_def)
qed

lemma rx_main_loop:
  assumes "bytes_fromhex (rxa_key_hex args) = Inr key" "length key = 32"
    and "0 < rxc_key_id cfg" "rxc_key_id cfg < 256"
    and "rxa_display_mode args \<in> {''opencv'', ''headless''}"
  shows "rx_main dec True (Inr cfg) args evs =
     Inr (rx_loop dec \<lparr>sw_key = key\<rparr> (rxa_strict_nonce args) (rxc_key_id cfg) (rxa_max_frames args)
       (rx_init (rxa_strict_nonce args) (rxc_replay_window cfg)) evs)"
proof -
  have "rxa_key_hex args \<noteq> []" using assms(1,2) by auto
  with assms show ?thesis by (auto simp: rx_main_def aes_gcm_software_init_def)
qed

text \<open>The HDMI loop sends what the frame loop sends, when no capture fails.\<close>

lemma tx_hdmi_frames:
  assumes "\<forall>k. src k = Inr (g k)"
  shows "tx_hdmi env args kid src n k s = tx_frames env args kid (map (\<lambda>j. (g j, int j)) [k..<k + n]) s"
proof (induction n arbitrary: k s)
  case 0
  then show ?case using assms by simp
next
  case (Suc n)
  have "[k..<k + Suc n] = k # [Suc k..<Suc k + n]" by (simp add: upt_conv_Cons del: upt_Suc)
  then show ?case using assms Suc [of "Suc k"] by (simp del: upt_Suc split: option.split sum.split)
qed

lemma programs_transfer:
  assumes ok: "tx_setup_ok b args kid key" and env: "tx_env_ok env" "aesgcm_spec (te_enc env) dec"
    and fs: "\<forall>(f, fid) \<in> set fs. sendable args f \<and> 0 \<le> fid \<and> fid < 2 ^ 32" "length fs \<le> 2 ^ 32"
    and c: "sw_ready key c"
  shows "\<exists>s r. tx_frames env args kid fs (tx_start d c) = Some (Inr (), s) \<and>
     rx_loop dec \<lparr>sw_key = key\<rparr> strict kid (int (length fs)) (rx_init strict w) (map Datagram (tx_sent s)) = (RxDone, r) \<and>
     rx_shown r = map fst fs \<and> rx_completed r = int (length fs) \<and> rx_dropped r = 0"
proof -
  have args: "tx_args_ok args kid" using ok by (simp add: tx_setup_ok_def)
  have "\<forall>(f, fid) \<in> set fs. sendable args f" using fs(1) by auto
  from total_segments_bound [OF args this fs(2)]
  have tot: "0 + int (total_segments args fs) < 2 ^ 64" by simp
  have i: "rx_completed (rx_init strict w) = 0" "rx_shown (rx_init strict w) = []"
    "rx_dropped (rx_init strict w) = 0" "tx_sent (tx_start d c) = []"
    by (simp_all add: rx_init_def tx_start_def)
  have m: "rx_completed (rx_init strict w) + int (length fs) \<le> int (length fs)" by (simp add: i)
  from frames_transfer [OF env(2,1) args fs(1) tx_start_ready [OF c] tot rx_init_idle m, of d strict]
  obtain s dgs r where t: "tx_frames env args kid fs (tx_start d c) = Some (Inr (), s)" "tx_sent s = dgs"
    "\<forall>evs. rx_loop dec \<lparr>sw_key = key\<rparr> strict kid (int (length fs)) (rx_init strict w) (map Datagram dgs @ evs) =
       rx_loop dec \<lparr>sw_key = key\<rparr> strict kid (int (length fs)) r evs"
    "rx_shown r = map fst fs" "rx_completed r = int (length fs)" "rx_dropped r = 0"
    unfolding i by auto
  from t(3) [rule_format, of "[]"] t(5)
  have "rx_loop dec \<lparr>sw_key = key\<rparr> strict kid (int (length fs)) (rx_init strict w) (map Datagram dgs) = (RxDone, r)"
    by simp
  with t show ?thesis by blast
qed

text \<open>A simple sufficient condition: a segment size below 1352 and a number of segments that fits.\<close>

lemma sendable_small:
  assumes "0 < txa_segment_bytes args" "txa_segment_bytes args < 1352" and "f \<noteq> []"
    and "frame_segments args f < 2 ^ 16"
  shows "sendable args f"
proof -
  obtain segs where s: "segment_frame f (txa_segment_bytes args) = Inr segs"
    using segment_frame_pos [OF assms(1)] by blast
  have "segs \<noteq> []" using segment_frame_concat [OF assms(1) s] assms(3) by auto
  moreover have "length segs < 2 ^ 16"
    using segment_frame_count [OF assms(1) s] assms(4) by (simp add: frame_segments_def)
  moreover have "\<forall>seg \<in> set segs. length seg \<noteq> 1352"
    using segment_frame_lengths [OF assms(1) s] assms(2) by fastforce
  ultimately show ?thesis using s by (simp add: sendable_def list_all_iff)
qed

text \<open>The two programs with a source that gives a frame whenever it is asked.\<close>

lemma hdmi_transfer:
  assumes "tx_setup_ok b args kid key" and "txa_source args = ''hdmi''"
    and "tx_env_ok env" and "aesgcm_spec (te_enc env) dec"
    and "txa_frames args = int n" and "n \<le> 2 ^ 32"
    and "\<forall>k. src k = Inr (captured k)" and "\<forall>k < n. sendable args (captured k)"
    and "rxa_key_hex rargs = txa_key_hex args" and "rxa_max_frames rargs = txa_frames args"
    and "rxa_display_mode rargs \<in> {''opencv'', ''headless''}" and "rxc_key_id cfg = kid"
  shows "\<exists>s r. run_tx env b args kid (Inr src) (Inr ()) d = Some (Inr (), s) \<and>
     rx_main dec True (Inr cfg) rargs (map Datagram (tx_sent s)) = Inr (RxDone, r) \<and>
     rx_shown r = map captured [0..<n] \<and> rx_dropped r = 0"
proof -
  let ?fs = "map (\<lambda>j. (captured j, int j)) [0..<n]"
  have key: "bytes_fromhex (rxa_key_hex rargs) = Inr key" "length key = 32" "0 < kid" "kid < 256"
    using assms(1,9) by (simp_all add: tx_setup_ok_def tx_args_ok_def)
  have ok: "\<forall>(f, fid) \<in> set ?fs. sendable args f \<and> 0 \<le> fid \<and> fid < 2 ^ 32"
    using assms(6,8) by auto
  have len: "length ?fs \<le> 2 ^ 32" using assms(6) by simp
  obtain c where c: "sw_ready key c" "run_tx env b args kid (Inr src) (Inr ()) d =
     map_option (\<lambda>(r, s). (r, s\<lparr>tx_crypto := adapter_close (tx_crypto s)\<rparr>))
       (tx_frames env args kid ?fs (tx_start d c))"
    using run_tx_loops [OF assms(1), of "Inr src" src env d] assms(2,5)
    by (auto simp: tx_hdmi_frames [OF assms(7)])
  obtain s r where t: "tx_frames env args kid ?fs (tx_start d c) = Some (Inr (), s)"
    and l: "rx_loop dec \<lparr>sw_key = key\<rparr> (rxa_strict_nonce rargs) kid (int (length ?fs))
       (rx_init (rxa_strict_nonce rargs) (rxc_replay_window cfg)) (map Datagram (tx_sent s)) = (RxDone, r)"
    and r: "rx_shown r = map fst ?fs" "rx_dropped r = 0"
    using programs_transfer [OF assms(1,3,4) ok len c(1)] by blast
  let ?s = "s\<lparr>tx_crypto := adapter_close (tx_crypto s)\<rparr>"
  have "rx_main dec True (Inr cfg) rargs (map Datagram (tx_sent ?s)) = Inr (RxDone, r)"
    using rx_main_loop [OF key(1,2), of cfg] key(3,4) assms(5,10-12) l by simp
  then show ?thesis
    using c(2) t r by (intro exI [of _ ?s] exI [of _ r]) (simp add: comp_def)
qed

section \<open>A concrete sender and receiver\<close>

definition demo_env :: "unit tx_env" where
  "demo_env = \<lparr>te_hw = \<lparr>hw_read = (\<lambda>_ d. (0, d)), hw_write = (\<lambda>_ _ d. d), hw_clock = (\<lambda>d. (0, d)),
     hw_dma = idle_dma\<rparr>, te_enc = demo_enc, te_now = (\<lambda>k. 1000 + int (k mod 100)), te_snd_ok = (\<lambda>_. True)\<rparr>"

definition demo_hex :: string where
  "demo_hex = ''000102030405060708090A0B0C0D0E0F000102030405060708090A0B0C0D0E0F''"

definition demo_tx_args :: "string \<Rightarrow> tx_args" where
  "demo_tx_args src = (tx_default_args (Some demo_hex))\<lparr>txa_source := src, txa_crypto_mode := ''aesgcm'',
     txa_frames := 2, txa_frame_bytes := 5, txa_segment_bytes := 2\<rparr>"

definition demo_rx_args :: "bool \<Rightarrow> rx_args" where
  "demo_rx_args strict = (rx_default_args (Some demo_hex))\<lparr>rxa_max_frames := 2, rxa_strict_nonce := strict,
     rxa_display_mode := ''headless''\<rparr>"

definition demo_board :: board where
  "demo_board = \<lparr>bd_env = demo_py, bd_overlay = (\<lambda>_. Inl OSError),
     bd_cryptography = True, bd_timeout = 5\<rparr>"

lemmas demo_args_defs = demo_tx_args_def demo_rx_args_def tx_default_args_def rx_default_args_def

lemma demo_key: "\<exists>key. bytes_fromhex demo_hex = Inr key \<and> length key = 32"
proof -
  have "(case bytes_fromhex demo_hex of Inr key \<Rightarrow> length key = 32 | Inl _ \<Rightarrow> False)" by code_simp
  then show ?thesis by (auto split: sum.splits)
qed

lemma demo_env_ok: "tx_env_ok demo_env"
proof -
  have "int (k mod 100) < 100" for k by simp
  then show ?thesis
    unfolding tx_env_ok_def demo_env_def by (auto intro: less_trans [of _ 1100])
qed

lemma demo_tx_ok:
  assumes "bytes_fromhex demo_hex = Inr key" "length key = 32"
  shows "tx_setup_ok demo_board (demo_tx_args src) 1 key"
  using assms by (simp add: tx_setup_ok_def tx_args_ok_def demo_board_def demo_args_defs MAX_PAYLOAD_BYTES_def)

lemma demo_sendable: "f \<noteq> [] \<Longrightarrow> length f \<le> 5 \<Longrightarrow> sendable (demo_tx_args src) f"
  by (rule sendable_small) (simp_all add: demo_args_defs frame_segments_def)

end
