(* ===== verification/Config_Loader.thy ===== *)
theory Config_Loader
  imports Py_Prelude Complex_Main
begin

text \<open>
  \<^verbatim>\<open>config_loader.py\<close>: \<^verbatim>\<open>load_config\<close> reads two YAML documents, flattens their sections into dictionaries and
  builds the two dataclasses from the known keys. \<^verbatim>\<open>yaml.safe_load\<close> is not part of the repository: what the
  two files hold is the parameter \<open>files\<close> (missing, a parse error, or a value). The code does not check the
  types of values, so a field can hold any YAML value.

  The lemmas give every field of the result in terms of the documents and show which documents make the
  loader raise something else than the two documented exceptions.
\<close>

section \<open>Values\<close>

datatype yaml =
    YNull
  | YBool bool
  | YInt int
  | YFloat rat
  | YStr string
  | YDate string
  | YList "yaml list"
  | YMap "(yaml \<times> yaml) list"

type_synonym ydict = "(yaml \<times> yaml) list"

text \<open>Truth value, the test \<^verbatim>\<open>key in value\<close>, indexing, and the method \<^verbatim>\<open>get\<close>.\<close>

fun yaml_truthy :: "yaml \<Rightarrow> bool" where
  "yaml_truthy YNull = False"
| "yaml_truthy (YBool b) = b"
| "yaml_truthy (YInt i) = (i \<noteq> 0)"
| "yaml_truthy (YFloat r) = (r \<noteq> 0)"
| "yaml_truthy (YStr s) = (s \<noteq> [])"
| "yaml_truthy (YDate s) = True"
| "yaml_truthy (YList xs) = (xs \<noteq> [])"
| "yaml_truthy (YMap m) = (m \<noteq> [])"

fun yaml_contains :: "string \<Rightarrow> yaml \<Rightarrow> bool result" where
  "yaml_contains k (YMap m) = Inr (YStr k \<in> fst ` set m)"
| "yaml_contains k (YList xs) = Inr (YStr k \<in> set xs)"
| "yaml_contains k (YStr s) = Inr (contains_str k s)"
| "yaml_contains k _ = Inl TypeError"

fun yaml_index :: "yaml \<Rightarrow> string \<Rightarrow> yaml result" where
  "yaml_index (YMap m) k = (case map_of m (YStr k) of None \<Rightarrow> Inl KeyError | Some v \<Rightarrow> Inr v)"
| "yaml_index _ k = Inl TypeError"

fun yaml_get :: "yaml \<Rightarrow> string \<Rightarrow> yaml \<Rightarrow> yaml result" where
  "yaml_get (YMap m) k d = Inr (case map_of m (YStr k) of None \<Rightarrow> d | Some v \<Rightarrow> v)"
| "yaml_get _ k d = Inl AttributeError"

text \<open>
  \<^verbatim>\<open>dict.update\<close>: a mapping gives its items; any other iterable must give pairs with hashable first components.
\<close>

fun yaml_iter :: "yaml \<Rightarrow> yaml list option" where
  "yaml_iter (YList xs) = Some xs"
| "yaml_iter (YStr s) = Some (map (\<lambda>c. YStr [c]) s)"
| "yaml_iter (YMap m) = Some (map fst m)"
| "yaml_iter _ = None"

fun yaml_hashable :: "yaml \<Rightarrow> bool" where
  "yaml_hashable (YList _) = False"
| "yaml_hashable (YMap _) = False"
| "yaml_hashable _ = True"

definition yaml_pair :: "yaml \<Rightarrow> (yaml \<times> yaml) result" where
  "yaml_pair v =
     (case yaml_iter v of
        None \<Rightarrow> Inl TypeError
      | Some [k, x] \<Rightarrow> if yaml_hashable k then Inr (k, x) else Inl TypeError
      | Some _ \<Rightarrow> Inl ValueError)"

definition dict_set_all :: "ydict \<Rightarrow> ydict \<Rightarrow> ydict" where
  "dict_set_all d items = fold (\<lambda>(k, v). AList.update k v) items d"

definition dict_update :: "ydict \<Rightarrow> yaml \<Rightarrow> ydict result" where
  "dict_update d v =
     (case v of
        YMap m \<Rightarrow> Inr (dict_set_all d m)
      | _ \<Rightarrow> (case yaml_iter v of
                None \<Rightarrow> Inl TypeError
              | Some xs \<Rightarrow> bind_r (map_r yaml_pair xs) (\<lambda>items. Inr (dict_set_all d items))))"

section \<open>The loader\<close>

record network_config =
  nc_bind_ip :: yaml
  nc_tx_ip :: yaml
  nc_tx_port :: yaml
  nc_rx_port :: yaml
  nc_mtu_bytes :: yaml
  nc_max_payload_bytes :: yaml
  nc_recv_buffer_bytes :: yaml
  nc_send_buffer_bytes :: yaml
  nc_drop_late_frames :: yaml
  nc_frame_deadline_ms :: yaml
  nc_max_reorder_depth :: yaml
  nc_reassembly_timeout_ms :: yaml
  nc_pacing_enabled :: yaml
  nc_max_burst_packets :: yaml
  nc_inter_packet_gap_us :: yaml

record crypto_config =
  cc_algorithm :: yaml
  cc_tag_bytes :: yaml
  cc_nonce_counter_bits :: yaml
  cc_tx_to_rx_key_id :: yaml
  cc_rx_to_tx_key_id :: yaml
  cc_replay_window_packets :: yaml
  cc_rekey_interval_seconds :: yaml
  cc_reject_reused_nonce :: yaml
  cc_reject_stale_nonce :: yaml

record session_config =
  sc_network :: network_config
  sc_crypto :: crypto_config

text \<open>The dataclass constructors on the known keys: a missing key takes the field's default.\<close>

definition field_or :: "(string \<Rightarrow> yaml option) \<Rightarrow> string \<Rightarrow> yaml \<Rightarrow> yaml" where
  "field_or d f v = (case d f of None \<Rightarrow> v | Some x \<Rightarrow> x)"

definition network_config_of :: "(string \<Rightarrow> yaml option) \<Rightarrow> network_config" where
  "network_config_of d =
     \<lparr>nc_bind_ip = field_or d ''bind_ip'' (YStr ''0.0.0.0''),
      nc_tx_ip = field_or d ''tx_ip'' (YStr ''192.168.0.123''),
      nc_tx_port = field_or d ''tx_port'' (YInt 5000),
      nc_rx_port = field_or d ''rx_port'' (YInt 5000),
      nc_mtu_bytes = field_or d ''mtu_bytes'' (YInt 1500),
      nc_max_payload_bytes = field_or d ''max_payload_bytes'' (YInt 1200),
      nc_recv_buffer_bytes = field_or d ''recv_buffer_bytes'' (YInt 8388608),
      nc_send_buffer_bytes = field_or d ''send_buffer_bytes'' (YInt 8388608),
      nc_drop_late_frames = field_or d ''drop_late_frames'' (YBool True),
      nc_frame_deadline_ms = field_or d ''frame_deadline_ms'' (YInt 40),
      nc_max_reorder_depth = field_or d ''max_reorder_depth'' (YInt 128),
      nc_reassembly_timeout_ms = field_or d ''reassembly_timeout_ms'' (YInt 80),
      nc_pacing_enabled = field_or d ''pacing_enabled'' (YBool True),
      nc_max_burst_packets = field_or d ''max_burst_packets'' (YInt 4),
      nc_inter_packet_gap_us = field_or d ''inter_packet_gap_us'' (YInt 100)\<rparr>"

definition crypto_config_of :: "(string \<Rightarrow> yaml option) \<Rightarrow> crypto_config" where
  "crypto_config_of d =
     \<lparr>cc_algorithm = field_or d ''algorithm'' (YStr ''AES-256-GCM''),
      cc_tag_bytes = field_or d ''tag_bytes'' (YInt 16),
      cc_nonce_counter_bits = field_or d ''nonce_counter_bits'' (YInt 64),
      cc_tx_to_rx_key_id = field_or d ''tx_to_rx_key_id'' (YInt 1),
      cc_rx_to_tx_key_id = field_or d ''rx_to_tx_key_id'' (YInt 2),
      cc_replay_window_packets = field_or d ''replay_window_packets'' (YInt 1024),
      cc_rekey_interval_seconds = field_or d ''rekey_interval_seconds'' (YInt 600),
      cc_reject_reused_nonce = field_or d ''reject_reused_nonce'' (YBool True),
      cc_reject_stale_nonce = field_or d ''reject_stale_nonce'' (YBool True)\<rparr>"

text \<open>One section: when it is there, its items go into the dictionary.\<close>

definition merge_section :: "yaml \<Rightarrow> string \<Rightarrow> ydict \<Rightarrow> ydict result" where
  "merge_section doc name d =
     bind_r (yaml_contains name doc) (\<lambda>there.
       if there then bind_r (yaml_index doc name) (\<lambda>v. dict_update d v) else Inr d)"

text \<open>The two sections whose keys are picked one by one: target name, key in the section, default.\<close>

definition transport_picks :: "(string \<times> string \<times> yaml) list" where
  "transport_picks =
     [(''drop_late_frames'', ''drop_late_frames'', YBool True),
      (''frame_deadline_ms'', ''frame_deadline_ms'', YInt 40),
      (''max_reorder_depth'', ''max_reorder_depth'', YInt 128),
      (''reassembly_timeout_ms'', ''reassembly_timeout_ms'', YInt 80)]"

definition pacing_picks :: "(string \<times> string \<times> yaml) list" where
  "pacing_picks =
     [(''pacing_enabled'', ''enabled'', YBool True),
      (''max_burst_packets'', ''max_burst_packets'', YInt 4),
      (''inter_packet_gap_us'', ''inter_packet_gap_us'', YInt 100)]"

definition pick_section :: "yaml \<Rightarrow> string \<Rightarrow> (string \<times> string \<times> yaml) list \<Rightarrow> ydict \<Rightarrow> ydict result" where
  "pick_section doc name picks d =
     bind_r (yaml_contains name doc) (\<lambda>there.
       if there
       then bind_r (map_r (\<lambda>(f, k, v). bind_r (yaml_index doc name) (\<lambda>s. bind_r (yaml_get s k v) (\<lambda>x. Inr (YStr f, x)))) picks)
              (\<lambda>items. Inr (dict_set_all d items))
       else Inr d)"

definition load_network :: "yaml \<Rightarrow> network_config result" where
  "load_network doc =
     bind_r (merge_section doc ''udp'' []) (\<lambda>d1.
     bind_r (pick_section doc ''transport'' transport_picks d1) (\<lambda>d2.
     bind_r (pick_section doc ''pacing'' pacing_picks d2) (\<lambda>d3.
     Inr (network_config_of (\<lambda>f. map_of d3 (YStr f))))))"

definition load_crypto :: "yaml \<Rightarrow> crypto_config result" where
  "load_crypto doc =
     bind_r (merge_section doc ''crypto'' []) (\<lambda>d1.
     bind_r (merge_section doc ''keys'' d1) (\<lambda>d2.
     bind_r (merge_section doc ''session'' d2) (\<lambda>d3.
     Inr (crypto_config_of (\<lambda>f. map_of d3 (YStr f))))))"

definition or_empty :: "yaml \<Rightarrow> yaml" where
  "or_empty v = (if yaml_truthy v then v else YMap [])"

definition load_config :: "(string \<Rightarrow> yaml result option) \<Rightarrow> session_config result" where
  "load_config files =
     (case (files ''network.yaml'', files ''crypto.yaml'') of
        (None, _) \<Rightarrow> Inl FileNotFoundError
      | (Some _, None) \<Rightarrow> Inl FileNotFoundError
      | (Some n, Some c) \<Rightarrow>
          bind_r n (\<lambda>net. bind_r c (\<lambda>cry.
          bind_r (load_network (or_empty net)) (\<lambda>nc.
          bind_r (load_crypto (or_empty cry)) (\<lambda>cc.
          Inr \<lparr>sc_network = nc, sc_crypto = cc\<rparr>)))))"

section \<open>Sections\<close>

lemma dict_set_all_map: "map_of (dict_set_all d items) = map_of d ++ map_of (rev items)"
proof (induction items arbitrary: d)
  case (Cons kv items)
  have "map_of (AList.update (fst kv) (snd kv) d) = map_of d ++ map_of [kv]" by (auto simp: map_add_def)
  with Cons show ?case by (simp add: dict_set_all_def case_prod_beta del: map_of.simps)
qed (simp add: dict_set_all_def)

lemma dict_set_all_distinct:
  "distinct (map fst items) \<Longrightarrow> map_of (dict_set_all d items) = map_of d ++ map_of items"
  using map_of_inject_set [of "rev items" items] by (simp add: dict_set_all_map rev_map [symmetric])

text \<open>What a document says of a section: absent, or a dictionary, whose keys are distinct.\<close>

definition section_is :: "ydict \<Rightarrow> string \<Rightarrow> ydict option \<Rightarrow> bool" where
  "section_is doc name s \<longleftrightarrow>
     (case s of None \<Rightarrow> map_of doc (YStr name) = None
      | Some m \<Rightarrow> map_of doc (YStr name) = Some (YMap m) \<and> distinct (map fst m))"

definition section_map :: "ydict option \<Rightarrow> yaml \<Rightarrow> yaml option" where
  "section_map s k = (case s of None \<Rightarrow> None | Some m \<Rightarrow> map_of m k)"

definition picked :: "ydict option \<Rightarrow> (string \<times> string \<times> yaml) list \<Rightarrow> yaml \<Rightarrow> yaml option" where
  "picked s picks f =
     (case s of None \<Rightarrow> None
      | Some m \<Rightarrow> map_of (map (\<lambda>(f, k, v). (YStr f, field_or (\<lambda>k. map_of m (YStr k)) k v)) picks) f)"

lemma section_absent: "map_of doc (YStr name) = None \<Longrightarrow> YStr name \<notin> fst ` set doc"
  by (simp add: map_of_eq_None_iff)

lemma merge_section_map:
  assumes "section_is doc name s"
  shows "\<exists>d'. merge_section (YMap doc) name d = Inr d' \<and> map_of d' = map_of d ++ section_map s"
proof (cases s)
  case None
  then show ?thesis using assms section_absent
    by (auto simp: section_is_def merge_section_def section_map_def map_add_def)
next
  case (Some m)
  then have "map_of doc (YStr name) = Some (YMap m)" "distinct (map fst m)"
    using assms by (simp_all add: section_is_def)
  moreover have "section_map s = map_of m" using Some by (auto simp: section_map_def)
  ultimately show ?thesis
    by (simp add: merge_section_def dict_get_in dict_update_def dict_set_all_distinct)
qed

lemma pick_section_map:
  assumes "section_is doc name s" and "distinct (map fst picks)"
  shows "\<exists>d'. pick_section (YMap doc) name picks d = Inr d' \<and> map_of d' = map_of d ++ picked s picks"
proof (cases s)
  case None
  then show ?thesis using assms section_absent
    by (auto simp: section_is_def pick_section_def picked_def map_add_def)
next
  case (Some m)
  let ?items = "map (\<lambda>(f, k, v). (YStr f, field_or (\<lambda>k. map_of m (YStr k)) k v)) picks"
  have get: "map_of doc (YStr name) = Some (YMap m)" using assms(1) Some by (simp add: section_is_def)
  have "map_r (\<lambda>(f, k, v). bind_r (yaml_index (YMap doc) name) (\<lambda>s. bind_r (yaml_get s k v) (\<lambda>x. Inr (YStr f, x)))) picks
      = Inr ?items"
    by (rule map_r_Inr) (simp add: get field_or_def case_prod_beta)
  moreover have "map fst ?items = map YStr (map fst picks)" by (simp add: case_prod_beta)
  then have "distinct (map fst ?items)" using assms(2) by (simp only: distinct_map inj_on_def) simp
  moreover have "picked s picks = map_of ?items" using Some by (auto simp: picked_def)
  ultimately show ?thesis using get
    by (simp add: pick_section_def dict_get_in dict_set_all_distinct)
qed

lemma load_config_sections:
  assumes "files ''network.yaml'' = Some (Inr (YMap n))" and "files ''crypto.yaml'' = Some (Inr (YMap c))"
    and "section_is n ''udp'' udp" and "section_is n ''transport'' tr" and "section_is n ''pacing'' pa"
    and "section_is c ''crypto'' cr" and "section_is c ''keys'' ke" and "section_is c ''session'' se"
  shows "load_config files = Inr \<lparr>
     sc_network = network_config_of (\<lambda>f. (section_map udp ++ picked tr transport_picks ++ picked pa pacing_picks) (YStr f)),
     sc_crypto = crypto_config_of (\<lambda>f. (section_map cr ++ section_map ke ++ section_map se) (YStr f))\<rparr>"
proof -
  have dis: "distinct (map fst transport_picks)" "distinct (map fst pacing_picks)" by code_simp+
  have e: "or_empty (YMap m) = YMap m" for m by (simp add: or_empty_def)
  obtain d1 where d1: "merge_section (YMap n) ''udp'' [] = Inr d1" "map_of d1 = section_map udp"
    using merge_section_map [OF assms(3), of "[]"] by auto
  obtain d2 where d2: "pick_section (YMap n) ''transport'' transport_picks d1 = Inr d2"
      "map_of d2 = section_map udp ++ picked tr transport_picks"
    using pick_section_map [OF assms(4) dis(1), of d1] d1(2) by auto
  obtain d3 where d3: "pick_section (YMap n) ''pacing'' pacing_picks d2 = Inr d3"
      "map_of d3 = section_map udp ++ picked tr transport_picks ++ picked pa pacing_picks"
    using pick_section_map [OF assms(5) dis(2), of d2] d2(2) by auto
  obtain e1 where e1: "merge_section (YMap c) ''crypto'' [] = Inr e1" "map_of e1 = section_map cr"
    using merge_section_map [OF assms(6), of "[]"] by auto
  obtain e2 where e2: "merge_section (YMap c) ''keys'' e1 = Inr e2" "map_of e2 = section_map cr ++ section_map ke"
    using merge_section_map [OF assms(7), of e1] e1(2) by auto
  obtain e3 where e3: "merge_section (YMap c) ''session'' e2 = Inr e3"
      "map_of e3 = section_map cr ++ section_map ke ++ section_map se"
    using merge_section_map [OF assms(8), of e2] e2(2) by auto
  show ?thesis
    using assms(1,2) by (simp add: load_config_def e load_network_def load_crypto_def d1 d2 d3 e1 e2 e3)
qed

section \<open>Types of the fields\<close>

text \<open>The annotations of the two dataclasses; Python does not enforce them.\<close>

datatype ytype = TStr | TInt | TBool

fun has_ytype :: "yaml \<Rightarrow> ytype \<Rightarrow> bool" where
  "has_ytype (YStr _) t = (t = TStr)"
| "has_ytype (YInt _) t = (t = TInt)"
| "has_ytype (YBool _) t = (t = TBool)"
| "has_ytype _ t = False"

definition network_types :: "(string \<times> ytype) list" where
  "network_types =
     [(''bind_ip'', TStr), (''tx_ip'', TStr), (''tx_port'', TInt), (''rx_port'', TInt), (''mtu_bytes'', TInt),
      (''max_payload_bytes'', TInt), (''recv_buffer_bytes'', TInt), (''send_buffer_bytes'', TInt),
      (''drop_late_frames'', TBool), (''frame_deadline_ms'', TInt), (''max_reorder_depth'', TInt),
      (''reassembly_timeout_ms'', TInt), (''pacing_enabled'', TBool), (''max_burst_packets'', TInt),
      (''inter_packet_gap_us'', TInt)]"

definition crypto_types :: "(string \<times> ytype) list" where
  "crypto_types =
     [(''algorithm'', TStr), (''tag_bytes'', TInt), (''nonce_counter_bits'', TInt), (''tx_to_rx_key_id'', TInt),
      (''rx_to_tx_key_id'', TInt), (''replay_window_packets'', TInt), (''rekey_interval_seconds'', TInt),
      (''reject_reused_nonce'', TBool), (''reject_stale_nonce'', TBool)]"

definition network_values :: "network_config \<Rightarrow> yaml list" where
  "network_values c =
     [nc_bind_ip c, nc_tx_ip c, nc_tx_port c, nc_rx_port c, nc_mtu_bytes c, nc_max_payload_bytes c,
      nc_recv_buffer_bytes c, nc_send_buffer_bytes c, nc_drop_late_frames c, nc_frame_deadline_ms c,
      nc_max_reorder_depth c, nc_reassembly_timeout_ms c, nc_pacing_enabled c, nc_max_burst_packets c,
      nc_inter_packet_gap_us c]"

definition crypto_values :: "crypto_config \<Rightarrow> yaml list" where
  "crypto_values c =
     [cc_algorithm c, cc_tag_bytes c, cc_nonce_counter_bits c, cc_tx_to_rx_key_id c, cc_rx_to_tx_key_id c,
      cc_replay_window_packets c, cc_rekey_interval_seconds c, cc_reject_reused_nonce c, cc_reject_stale_nonce c]"

definition typed_network :: "network_config \<Rightarrow> bool" where
  "typed_network c \<longleftrightarrow> list_all2 has_ytype (network_values c) (map snd network_types)"

definition typed_crypto :: "crypto_config \<Rightarrow> bool" where
  "typed_crypto c \<longleftrightarrow> list_all2 has_ytype (crypto_values c) (map snd crypto_types)"

text \<open>A dictionary whose known keys hold values of the annotated types, and the two picked sections.\<close>

definition typed_dict :: "(string \<times> ytype) list \<Rightarrow> (yaml \<Rightarrow> yaml option) \<Rightarrow> bool" where
  "typed_dict ts d \<longleftrightarrow> list_all (\<lambda>(f, t). case d (YStr f) of None \<Rightarrow> True | Some v \<Rightarrow> has_ytype v t) ts"

definition typed_picks :: "(string \<times> ytype) list \<Rightarrow> ydict option \<Rightarrow> (string \<times> string \<times> yaml) list \<Rightarrow> bool" where
  "typed_picks ts s picks \<longleftrightarrow> list_all (\<lambda>(f, k, _). case (section_map s (YStr k), map_of ts f) of
       (Some v, Some t) \<Rightarrow> has_ytype v t | _ \<Rightarrow> True) picks"

lemma typed_dict_add: "typed_dict ts d \<Longrightarrow> typed_dict ts e \<Longrightarrow> typed_dict ts (d ++ e)"
  by (fastforce simp: typed_dict_def list_all_iff map_add_def split: option.splits)

lemma typed_field:
  "(case d (YStr f) of None \<Rightarrow> True | Some v \<Rightarrow> has_ytype v t) \<Longrightarrow> has_ytype v t \<Longrightarrow>
     has_ytype (field_or (\<lambda>f. d (YStr f)) f v) t"
  by (simp add: field_or_def split: option.splits)

lemma typed_network_of:
  assumes "typed_dict network_types d"
  shows "typed_network (network_config_of (\<lambda>f. d (YStr f)))"
  unfolding typed_network_def network_values_def network_types_def network_config_of_def
  by (simp, intro conjI typed_field) (use assms in \<open>simp_all add: typed_dict_def network_types_def\<close>)

lemma typed_crypto_of:
  assumes "typed_dict crypto_types d"
  shows "typed_crypto (crypto_config_of (\<lambda>f. d (YStr f)))"
  unfolding typed_crypto_def crypto_values_def crypto_types_def crypto_config_of_def
  by (simp, intro conjI typed_field) (use assms in \<open>simp_all add: typed_dict_def crypto_types_def\<close>)

lemma typed_picked:
  assumes "typed_picks ts s picks" and "list_all (\<lambda>(f, _, v). case map_of ts f of None \<Rightarrow> True | Some t \<Rightarrow> has_ytype v t) picks"
    and "distinct (map fst ts)" and "distinct (map fst picks)"
  shows "typed_dict ts (picked s picks)"
  unfolding typed_dict_def list_all_iff
proof (intro ballI, clarify)
  fix f t assume ft: "(f, t) \<in> set ts"
  have t: "map_of ts f = Some t" using ft assms(3) by simp
  show "case picked s picks (YStr f) of None \<Rightarrow> True | Some v \<Rightarrow> has_ytype v t"
  proof (cases "picked s picks (YStr f)")
    case (Some x)
    then obtain m where m: "s = Some m" by (cases s) (auto simp: picked_def)
    from Some m obtain k v where kv: "(f, k, v) \<in> set picks" "x = field_or (\<lambda>k. map_of m (YStr k)) k v"
      by (auto simp: picked_def dest!: map_of_SomeD)
    have "has_ytype v t" using assms(2) kv(1) t by (fastforce simp: list_all_iff)
    moreover have "has_ytype y t" if "map_of m (YStr k) = Some y" for y
      using assms(1) kv(1) that m t by (fastforce simp: typed_picks_def list_all_iff section_map_def)
    ultimately show ?thesis using Some kv(2) by (auto simp: field_or_def split: option.splits)
  qed simp
qed

lemma picks_typed:
  "list_all (\<lambda>(f, _, v). case map_of network_types f of None \<Rightarrow> True | Some t \<Rightarrow> has_ytype v t) transport_picks"
  "list_all (\<lambda>(f, _, v). case map_of network_types f of None \<Rightarrow> True | Some t \<Rightarrow> has_ytype v t) pacing_picks"
  "distinct (map fst network_types)" "distinct (map fst transport_picks)" "distinct (map fst pacing_picks)"
  by code_simp+

section \<open>Properties\<close>

text \<open>
  What the flattened dictionaries give for a key: the last section that has it wins, and a picked section
  that is present decides its own keys alone.
\<close>

definition entry :: "ydict option \<Rightarrow> string \<Rightarrow> yaml option" where
  "entry s k = Option.bind s (\<lambda>m. map_of m (YStr k))"

fun first_of :: "yaml option list \<Rightarrow> yaml \<Rightarrow> yaml" where
  "first_of [] v = v"
| "first_of (Some x # _) v = x"
| "first_of (None # xs) v = first_of xs v"

definition own_or :: "ydict option \<Rightarrow> string \<Rightarrow> ydict option \<Rightarrow> string \<Rightarrow> yaml \<Rightarrow> yaml" where
  "own_or own k udp f v = first_of [if own = None then entry udp f else entry own k] v"

lemma field_or_first:
  "field_or (\<lambda>f. (section_map a ++ picked b bp ++ picked c cp) (YStr f)) f v =
     first_of [picked c cp (YStr f), picked b bp (YStr f), entry a f] v"
  "field_or (\<lambda>f. (section_map a ++ section_map b ++ section_map c) (YStr f)) f v =
     first_of [entry c f, entry b f, entry a f] v"
  by (simp_all add: field_or_def map_add_def entry_def section_map_def Option.bind_def split: option.splits)

lemma field_or_entry: "field_or (\<lambda>k. map_of m (YStr k)) k v = first_of [entry (Some m) k] v"
  by (simp add: field_or_def entry_def split: option.splits)

lemma picked_transport:
  "picked tr transport_picks (YStr f) =
     (if tr = None then None
      else map_of [(''drop_late_frames'', first_of [entry tr ''drop_late_frames''] (YBool True)),
        (''frame_deadline_ms'', first_of [entry tr ''frame_deadline_ms''] (YInt 40)),
        (''max_reorder_depth'', first_of [entry tr ''max_reorder_depth''] (YInt 128)),
        (''reassembly_timeout_ms'', first_of [entry tr ''reassembly_timeout_ms''] (YInt 80))] f)"
  by (cases tr) (simp_all add: picked_def transport_picks_def field_or_entry)

lemma picked_pacing:
  "picked pa pacing_picks (YStr f) =
     (if pa = None then None
      else map_of [(''pacing_enabled'', first_of [entry pa ''enabled''] (YBool True)),
        (''max_burst_packets'', first_of [entry pa ''max_burst_packets''] (YInt 4)),
        (''inter_packet_gap_us'', first_of [entry pa ''inter_packet_gap_us''] (YInt 100))] f)"
  by (cases pa) (simp_all add: picked_def pacing_picks_def field_or_entry)

lemmas flattened = field_or_first picked_transport picked_pacing own_or_def

text \<open>
  C30. When both documents are mappings whose known sections are absent or mappings, the loader succeeds, and
  every field of both dataclasses is given with its source and its default: the eight udp fields come from
  the udp section; the transport fields and the pacing fields from their own section when it is present
  (\<^verbatim>\<open>pacing_enabled\<close> under the key \<^verbatim>\<open>enabled\<close>), with the default when the key is not there, and from a key of the
  field's name in the udp section only when their own section is absent; a crypto field from the session
  section, else keys, else crypto, else its default.
\<close>

theorem load_config_exact:
  assumes "files ''network.yaml'' = Some (Inr (YMap n))" and "files ''crypto.yaml'' = Some (Inr (YMap c))"
    and "section_is n ''udp'' udp" and "section_is n ''transport'' tr" and "section_is n ''pacing'' pa"
    and "section_is c ''crypto'' cr" and "section_is c ''keys'' ke" and "section_is c ''session'' se"
  shows "load_config files = Inr \<lparr>
     sc_network =
       \<lparr>nc_bind_ip = first_of [entry udp ''bind_ip''] (YStr ''0.0.0.0''),
        nc_tx_ip = first_of [entry udp ''tx_ip''] (YStr ''192.168.0.123''),
        nc_tx_port = first_of [entry udp ''tx_port''] (YInt 5000),
        nc_rx_port = first_of [entry udp ''rx_port''] (YInt 5000),
        nc_mtu_bytes = first_of [entry udp ''mtu_bytes''] (YInt 1500),
        nc_max_payload_bytes = first_of [entry udp ''max_payload_bytes''] (YInt 1200),
        nc_recv_buffer_bytes = first_of [entry udp ''recv_buffer_bytes''] (YInt 8388608),
        nc_send_buffer_bytes = first_of [entry udp ''send_buffer_bytes''] (YInt 8388608),
        nc_drop_late_frames = own_or tr ''drop_late_frames'' udp ''drop_late_frames'' (YBool True),
        nc_frame_deadline_ms = own_or tr ''frame_deadline_ms'' udp ''frame_deadline_ms'' (YInt 40),
        nc_max_reorder_depth = own_or tr ''max_reorder_depth'' udp ''max_reorder_depth'' (YInt 128),
        nc_reassembly_timeout_ms = own_or tr ''reassembly_timeout_ms'' udp ''reassembly_timeout_ms'' (YInt 80),
        nc_pacing_enabled = own_or pa ''enabled'' udp ''pacing_enabled'' (YBool True),
        nc_max_burst_packets = own_or pa ''max_burst_packets'' udp ''max_burst_packets'' (YInt 4),
        nc_inter_packet_gap_us = own_or pa ''inter_packet_gap_us'' udp ''inter_packet_gap_us'' (YInt 100)\<rparr>,
     sc_crypto =
       \<lparr>cc_algorithm = first_of [entry se ''algorithm'', entry ke ''algorithm'', entry cr ''algorithm''] (YStr ''AES-256-GCM''),
        cc_tag_bytes = first_of [entry se ''tag_bytes'', entry ke ''tag_bytes'', entry cr ''tag_bytes''] (YInt 16),
        cc_nonce_counter_bits =
          first_of [entry se ''nonce_counter_bits'', entry ke ''nonce_counter_bits'', entry cr ''nonce_counter_bits''] (YInt 64),
        cc_tx_to_rx_key_id =
          first_of [entry se ''tx_to_rx_key_id'', entry ke ''tx_to_rx_key_id'', entry cr ''tx_to_rx_key_id''] (YInt 1),
        cc_rx_to_tx_key_id =
          first_of [entry se ''rx_to_tx_key_id'', entry ke ''rx_to_tx_key_id'', entry cr ''rx_to_tx_key_id''] (YInt 2),
        cc_replay_window_packets = first_of [entry se ''replay_window_packets'', entry ke ''replay_window_packets'',
          entry cr ''replay_window_packets''] (YInt 1024),
        cc_rekey_interval_seconds = first_of [entry se ''rekey_interval_seconds'', entry ke ''rekey_interval_seconds'',
          entry cr ''rekey_interval_seconds''] (YInt 600),
        cc_reject_reused_nonce = first_of [entry se ''reject_reused_nonce'', entry ke ''reject_reused_nonce'',
          entry cr ''reject_reused_nonce''] (YBool True),
        cc_reject_stale_nonce = first_of [entry se ''reject_stale_nonce'', entry ke ''reject_stale_nonce'',
          entry cr ''reject_stale_nonce''] (YBool True)\<rparr>\<rparr>"
  unfolding load_config_sections [OF assms] network_config_of_def crypto_config_of_def
  by (cases tr; cases pa) (simp_all add: flattened)

text \<open>Documents with some entries of the repository's \<^verbatim>\<open>config\<close> files.\<close>

definition demo_net :: ydict where
  "demo_net =
     [(YStr ''udp'', YMap [(YStr ''bind_ip'', YStr ''0.0.0.0''), (YStr ''tx_ip'', YStr ''192.168.1.100''),
        (YStr ''tx_port'', YInt 5600), (YStr ''rx_port'', YInt 5600)]),
      (YStr ''transport'', YMap [(YStr ''frame_deadline_ms'', YInt 35)])]"

definition demo_cry :: ydict where
  "demo_cry =
     [(YStr ''keys'', YMap [(YStr ''tx_to_rx_key_id'', YInt 1)]),
      (YStr ''session'', YMap [(YStr ''replay_window_packets'', YInt 1024)])]"

definition demo_config_files :: "string \<Rightarrow> yaml result option" where
  "demo_config_files f = (if f = ''network.yaml'' then Some (Inr (YMap demo_net)) else Some (Inr (YMap demo_cry)))"

lemma demo_sections:
  "section_is demo_net ''udp'' (Some [(YStr ''bind_ip'', YStr ''0.0.0.0''), (YStr ''tx_ip'', YStr ''192.168.1.100''),
     (YStr ''tx_port'', YInt 5600), (YStr ''rx_port'', YInt 5600)])"
  "section_is demo_net ''transport'' (Some [(YStr ''frame_deadline_ms'', YInt 35)])" "section_is demo_net ''pacing'' None"
  "section_is demo_cry ''crypto'' None" "section_is demo_cry ''keys'' (Some [(YStr ''tx_to_rx_key_id'', YInt 1)])"
  "section_is demo_cry ''session'' (Some [(YStr ''replay_window_packets'', YInt 1024)])"
  by (simp_all add: section_is_def demo_net_def demo_cry_def)

lemmas config_fields = network_config_of_def crypto_config_of_def field_or_def section_map_def picked_def
  transport_picks_def pacing_picks_def map_add_def demo_config_files_def

definition demo_session :: session_config where
  "demo_session = \<lparr>sc_network = (network_config_of (\<lambda>_. None))\<lparr>nc_tx_ip := YStr ''192.168.1.100'', nc_tx_port := YInt 5600,
       nc_rx_port := YInt 5600, nc_frame_deadline_ms := YInt 35\<rparr>,
     sc_crypto = crypto_config_of (\<lambda>_. None)\<rparr>"

lemma demo_config_loads: "load_config demo_config_files = Inr demo_session"
  by (subst load_config_sections [OF _ _ demo_sections]) (simp_all add: config_fields demo_session_def)

theorem load_config_exact_witness:
  "\<exists>cfg. load_config demo_config_files = Inr cfg \<and> nc_tx_ip (sc_network cfg) = YStr ''192.168.1.100'' \<and>
     nc_rx_port (sc_network cfg) = YInt 5600 \<and> nc_mtu_bytes (sc_network cfg) = YInt 1500 \<and>
     nc_frame_deadline_ms (sc_network cfg) = YInt 35 \<and> nc_max_reorder_depth (sc_network cfg) = YInt 128 \<and>
     nc_pacing_enabled (sc_network cfg) = YBool True \<and> cc_replay_window_packets (sc_crypto cfg) = YInt 1024"
  by (subst load_config_exact [OF _ _ demo_sections])
    (simp_all add: demo_config_files_def own_or_def entry_def)

text \<open>
  C29. Types. When every known key of the sections holds a value of the type its field is annotated with, the loader
  succeeds and every field of both configurations has its annotated type, the ones that come from a
  default included.
\<close>

theorem load_config_typed:
  assumes "files ''network.yaml'' = Some (Inr (YMap n))" and "files ''crypto.yaml'' = Some (Inr (YMap c))"
    and "section_is n ''udp'' udp" and "section_is n ''transport'' tr" and "section_is n ''pacing'' pa"
    and "section_is c ''crypto'' cr" and "section_is c ''keys'' ke" and "section_is c ''session'' se"
    and "typed_dict network_types (section_map udp)" and "typed_picks network_types tr transport_picks"
    and "typed_picks network_types pa pacing_picks"
    and "typed_dict crypto_types (section_map cr)" and "typed_dict crypto_types (section_map ke)"
    and "typed_dict crypto_types (section_map se)"
  shows "\<exists>cfg. load_config files = Inr cfg \<and> typed_network (sc_network cfg) \<and> typed_crypto (sc_crypto cfg)"
proof -
  note p = picks_typed
  have "typed_dict network_types (section_map udp ++ picked tr transport_picks ++ picked pa pacing_picks)"
    by (intro typed_dict_add assms typed_picked [OF assms(10) p(1,3,4)] typed_picked [OF assms(11) p(2,3,5)])
  moreover have "typed_dict crypto_types (section_map cr ++ section_map ke ++ section_map se)"
    by (intro typed_dict_add assms)
  ultimately show ?thesis
    unfolding load_config_sections [OF assms(1-8)] by (simp add: typed_network_of typed_crypto_of)
qed

theorem load_config_typed_witness:
  "\<exists>cfg. load_config demo_config_files = Inr cfg \<and> typed_network (sc_network cfg) \<and> typed_crypto (sc_crypto cfg)"
  by (rule load_config_typed [OF _ _ demo_sections])
    (simp_all add: demo_config_files_def typed_dict_def typed_picks_def network_types_def crypto_types_def
      section_map_def transport_picks_def pacing_picks_def)

text \<open>The loader checks no type: a port that is a list is passed on.\<close>

lemma load_config_unchecked:
  "\<exists>nc. load_network (YMap [(YStr ''udp'', YMap [(YStr ''tx_port'', YList [])])]) = Inr nc \<and> \<not> typed_network nc"
proof -
  have "section_is [(YStr ''udp'', YMap [(YStr ''tx_port'', YList [])])] ''udp'' (Some [(YStr ''tx_port'', YList [])])"
    by (simp add: section_is_def)
  then show ?thesis
    by (simp add: load_network_def merge_section_def pick_section_def dict_update_def dict_set_all_def typed_network_def
        network_values_def network_types_def network_config_of_def field_or_def)
qed

text \<open>
  The documented exceptions are not the only ones: a section that is present but empty (YAML null) in an
  otherwise correct document makes the loader raise \<^verbatim>\<open>TypeError\<close> (udp, crypto, keys, session) or
  \<^verbatim>\<open>AttributeError\<close> (transport, pacing).
\<close>

lemma empty_section_raises:
  "load_network (YMap [(YStr ''udp'', YNull)]) = Inl TypeError \<and>
   load_network (YMap [(YStr ''transport'', YNull)]) = Inl AttributeError \<and>
   load_network (YMap [(YStr ''pacing'', YNull)]) = Inl AttributeError \<and>
   load_crypto (YMap [(YStr ''session'', YNull)]) = Inl TypeError"
  by (simp add: load_network_def load_crypto_def merge_section_def pick_section_def dict_update_def
      transport_picks_def pacing_picks_def)

end
