(* ===== verification/Hdmi_Capture.thy ===== *)
theory Hdmi_Capture
  imports Board_Import
begin

text \<open>
  \<^verbatim>\<open>pynq/runtime/hdmi_capture.py\<close> (\<^verbatim>\<open>HdmiCapture\<close>: opening the overlay, starting the input on the first frame, the
  generator of frames cut or padded to the expected size, stopping) and its driver
  \<^verbatim>\<open>pynq/runtime/preflight_hdmi_check.py\<close>. The HDMI input object of the board is a parameter: which methods
  it has and what they do to the board's state. The import of the board package and the search of the
  overlay file are those of \<open>Board_Import\<close>.

  The lemmas show that every captured frame has the expected size, in which order a capture session starts the
  input, takes and frees frames and stops it, and when the preflight passes.
\<close>

section \<open>pynq/runtime/hdmi_capture.py\<close>

definition upper_char :: "char \<Rightarrow> char" where
  "upper_char c = (let n = of_char c :: nat in if 97 \<le> n \<and> n \<le> 122 then char_of (n - 32) else c)"

definition pixel_bytes :: "string \<Rightarrow> int" where
  "pixel_bytes pixel_format =
     (let fmt = map upper_char pixel_format
      in if contains_str ''RGB'' fmt then 3 else if contains_str ''YUV'' fmt then 2 else 1)"

record hdmi_config =
  hc_width :: int
  hc_height :: int
  hc_fps :: int
  hc_pixel_format :: string
  hc_bitstream_path :: "string option"

text \<open>
  The HDMI input of an overlay and its frames: a method that is not there is \<open>None\<close>. \<open>hp_configure\<close> takes the mode
  when one is passed; \<open>fr_bytes\<close> is the conversion of a frame to an array and its bytes. Every call can raise.
\<close>

record 'd hdmi_frame =
  fr_bytes :: "'d \<Rightarrow> bytes result \<times> 'd"
  fr_freebuffer :: "('d \<Rightarrow> unit result \<times> 'd) option"

record 'd hdmi_port =
  hp_configure :: "(string option \<Rightarrow> 'd \<Rightarrow> unit result \<times> 'd) option"
  hp_mode :: "string option"
  hp_start :: "('d \<Rightarrow> unit result \<times> 'd) option"
  hp_stop :: "('d \<Rightarrow> unit result \<times> 'd) option"
  hp_readframe :: "'d \<Rightarrow> 'd hdmi_frame result \<times> 'd"

text \<open>
  What the constructor finds on the board: \<open>hb_video_in\<close> is the attribute \<^verbatim>\<open>hdmi_in\<close> of \<^verbatim>\<open>overlay.video\<close>, \<open>hb_direct_in\<close> that of
  the overlay; the attribute may be missing (\<open>None\<close>) or hold Python's \<^verbatim>\<open>None\<close>.
\<close>

record 'd hdmi_board =
  hb_numpy :: bool
  hb_env :: py_env
  hb_overlay :: "string \<Rightarrow> bool"
  hb_video_in :: "'d hdmi_port option option"
  hb_direct_in :: "'d hdmi_port option option"

record 'd hdmi_capture =
  hx_config :: hdmi_config
  hx_port :: "'d hdmi_port"
  hx_started :: bool
  hx_expected :: int

definition locate_hdmi_in :: "'d hdmi_board \<Rightarrow> 'd hdmi_port option" where
  "locate_hdmi_in b = (case hb_video_in b of
        Some p \<Rightarrow> p
      | None \<Rightarrow> (case hb_direct_in b of Some p \<Rightarrow> p | None \<Rightarrow> None))"

definition hdmi_capture_init :: "'d hdmi_board \<Rightarrow> hdmi_config \<Rightarrow> 'd hdmi_capture result" where
  "hdmi_capture_init b cfg =
     (if \<not> hb_numpy b then Inl RuntimeError
      else case fst (import_board_overlay (pe_files (hb_env b)) (pe_interp (hb_env b))) of
        Inl _ \<Rightarrow> Inl RuntimeError
      | Inr _ \<Rightarrow> bind_r (resolve_overlay_path (pe_files (hb_env b)) (hc_bitstream_path cfg)) (\<lambda>resolved.
          case resolved of
            None \<Rightarrow> Inl RuntimeError
          | Some path \<Rightarrow>
              if path = [] then Inl RuntimeError
              else if \<not> hb_overlay b path then Inl RuntimeError
              else case locate_hdmi_in b of
                None \<Rightarrow> Inl RuntimeError
              | Some p \<Rightarrow> Inr \<lparr>hx_config = cfg, hx_port = p, hx_started = False,
                  hx_expected = hc_width cfg * hc_height cfg * pixel_bytes (hc_pixel_format cfg)\<rparr>))"

definition configure_port :: "'d hdmi_port \<Rightarrow> 'd \<Rightarrow> unit result \<times> 'd" where
  "configure_port p d =
     (case hp_configure p of
        None \<Rightarrow> (Inr (), d)
      | Some f \<Rightarrow>
          (case f None d of
             (Inl e, d1) \<Rightarrow>
               if e = TypeError
               then (case hp_mode p of None \<Rightarrow> (Inl TypeError, d1) | Some m \<Rightarrow> f (Some m) d1)
               else (Inl e, d1)
           | (Inr _, d1) \<Rightarrow> (Inr (), d1)))"

definition start_if_needed :: "'d hdmi_capture \<Rightarrow> 'd \<Rightarrow> unit result \<times> 'd hdmi_capture \<times> 'd" where
  "start_if_needed c d =
     (if hx_started c then (Inr (), c, d)
      else case configure_port (hx_port c) d of
        (Inl e, d1) \<Rightarrow> (Inl e, c, d1)
      | (Inr _, d1) \<Rightarrow>
          (case (case hp_start (hx_port c) of None \<Rightarrow> (Inr (), d1) | Some f \<Rightarrow> f d1) of
             (Inl e, d2) \<Rightarrow> (Inl e, c, d2)
           | (Inr _, d2) \<Rightarrow> (Inr (), c\<lparr>hx_started := True\<rparr>, d2)))"

text \<open>
  Padding or cutting to the expected size; and one frame, freed in a \<^verbatim>\<open>finally\<close> clause, whose exception replaces the
  one of the conversion.
\<close>

definition fit_frame :: "int \<Rightarrow> bytes \<Rightarrow> bytes" where
  "fit_frame expected frame =
     (if int (length frame) < expected then frame @ replicate (nat (expected - int (length frame))) 0
      else if int (length frame) > expected then slice_to expected frame
      else frame)"

definition read_frame :: "'d hdmi_capture \<Rightarrow> 'd \<Rightarrow> bytes result \<times> 'd" where
  "read_frame c d =
     (case hp_readframe (hx_port c) d of
        (Inl e, d1) \<Rightarrow> (Inl e, d1)
      | (Inr frame, d1) \<Rightarrow>
          (case fr_bytes frame d1 of
             (r, d2) \<Rightarrow>
               (case (case fr_freebuffer frame of None \<Rightarrow> (Inr (), d2) | Some f \<Rightarrow> f d2) of
                  (Inl e, d3) \<Rightarrow> (Inl e, d3)
                | (Inr _, d3) \<Rightarrow> (bind_r r (\<lambda>f. Inr (fit_frame (hx_expected c) f)), d3))))"

text \<open>
  The generator \<^verbatim>\<open>frames()\<close>: the start happens at the first \<^verbatim>\<open>next\<close>; an exception finishes it, and a
  \<^verbatim>\<open>StopIteration\<close> raised inside the body leaves a generator as \<^verbatim>\<open>RuntimeError\<close>.
\<close>

datatype gen_state = GenCreated | GenRunning | GenFinished

definition gen_error :: "py_error \<Rightarrow> py_error" where
  "gen_error e = (if e = StopIteration then RuntimeError else e)"

definition gen_read :: "'d hdmi_capture \<Rightarrow> 'd \<Rightarrow> bytes result \<times> gen_state \<times> 'd hdmi_capture \<times> 'd" where
  "gen_read c d =
     (case read_frame c d of
        (Inl e, d1) \<Rightarrow> (Inl (gen_error e), GenFinished, c, d1)
      | (Inr f, d1) \<Rightarrow> (Inr f, GenRunning, c, d1))"

definition gen_next :: "gen_state \<times> 'd hdmi_capture \<times> 'd \<Rightarrow> bytes result \<times> gen_state \<times> 'd hdmi_capture \<times> 'd" where
  "gen_next s =
     (case s of (g, c, d) \<Rightarrow>
        (case g of
           GenFinished \<Rightarrow> (Inl StopIteration, GenFinished, c, d)
         | GenRunning \<Rightarrow> gen_read c d
         | GenCreated \<Rightarrow>
             (case start_if_needed c d of
                (Inl e, c1, d1) \<Rightarrow> (Inl (gen_error e), GenFinished, c1, d1)
              | (Inr _, c1, d1) \<Rightarrow> gen_read c1 d1)))"

definition hdmi_close :: "'d hdmi_capture \<Rightarrow> 'd \<Rightarrow> unit result \<times> 'd hdmi_capture \<times> 'd" where
  "hdmi_close c d =
     (if hx_started c
      then case hp_stop (hx_port c) of
             None \<Rightarrow> (Inr (), c\<lparr>hx_started := False\<rparr>, d)
           | Some f \<Rightarrow> (case f d of
                 (Inl e, d1) \<Rightarrow> (Inl e, c, d1)
               | (Inr _, d1) \<Rightarrow> (Inr (), c\<lparr>hx_started := False\<rparr>, d1))
      else (Inr (), c\<lparr>hx_started := False\<rparr>, d))"

section \<open>pynq/runtime/preflight_hdmi_check.py\<close>

record preflight_args =
  pa_bitstream :: string
  pa_width :: int
  pa_height :: int
  pa_fps :: int
  pa_pixel_format :: string
  pa_frames :: int
  pa_skip_capture :: bool
  pa_skip_output :: bool
  pa_render_captured_frame :: bool

definition preflight_default_args :: preflight_args where
  "preflight_default_args = \<lparr>pa_bitstream = [], pa_width = 1920, pa_height = 1080, pa_fps = 10,
     pa_pixel_format = ''RGB888'', pa_frames = 2, pa_skip_capture = False, pa_skip_output = False,
     pa_render_captured_frame = False\<rparr>"

fun probe_frames :: "nat \<Rightarrow> bytes list \<Rightarrow> gen_state \<times> 'd hdmi_capture \<times> 'd \<Rightarrow>
    bytes list result \<times> 'd hdmi_capture \<times> 'd" where
  "probe_frames 0 got s = (Inr got, snd s)"
| "probe_frames (Suc k) got s =
     (case gen_next s of
        (Inl e, s1) \<Rightarrow> (Inl e, snd s1)
      | (Inr f, s1) \<Rightarrow> probe_frames k (got @ [f]) s1)"

definition preflight_capture :: "'d hdmi_board \<Rightarrow> preflight_args \<Rightarrow> 'd \<Rightarrow>
    bytes list result \<times> 'd hdmi_capture option \<times> 'd" where
  "preflight_capture b args d =
     (if pa_skip_capture args then (Inr [], None, d)
      else case hdmi_capture_init b
             \<lparr>hc_width = pa_width args, hc_height = pa_height args, hc_fps = pa_fps args,
              hc_pixel_format = pa_pixel_format args,
              hc_bitstream_path = (if pa_bitstream args = [] then None else Some (pa_bitstream args))\<rparr> of
        Inl e \<Rightarrow> (Inl e, None, d)
      | Inr c \<Rightarrow> (case probe_frames (nat (pa_frames args)) [] (GenCreated, c, d) of
                   (r, c1, d1) \<Rightarrow> (r, Some c1, d1)))"

text \<open>
  \<^verbatim>\<open>main\<close>. \<^verbatim>\<open>hdmi_output.py\<close> is not in the repository: the sink is a parameter, \<open>None\<close> when the module cannot be
  imported. The \<^verbatim>\<open>finally\<close> block closes the capture and then the sink; an exception there replaces the
  outcome and skips what follows.
\<close>

record 'd hdmi_sink =
  hs_open :: "'d \<Rightarrow> unit result \<times> 'd"
  hs_render :: "bytes \<Rightarrow> 'd \<Rightarrow> unit result \<times> 'd"
  hs_close :: "'d \<Rightarrow> unit result \<times> 'd"

text \<open>The outcome of the output part, and the sink to close.\<close>

definition preflight_output :: "'d hdmi_sink option \<Rightarrow> preflight_args \<Rightarrow> bytes list \<Rightarrow> 'd \<Rightarrow>
    unit result \<times> 'd hdmi_sink option \<times> 'd" where
  "preflight_output output args got d =
     (if pa_skip_output args then (Inr (), None, d)
      else case output of
        None \<Rightarrow> (Inl RuntimeError, None, d)
      | Some sink \<Rightarrow>
          (case hs_open sink d of
             (Inl e, d1) \<Rightarrow> (Inl e, None, d1)
           | (Inr _, d1) \<Rightarrow>
               if pa_render_captured_frame args \<and> got \<noteq> []
               then (case hs_render sink (hd got) d1 of (r, d2) \<Rightarrow> (r, Some sink, d2))
               else (Inr (), Some sink, d1)))"

definition preflight_finally :: "'d hdmi_capture option \<Rightarrow> 'd hdmi_sink option \<Rightarrow> 'd \<Rightarrow> unit result \<times> 'd" where
  "preflight_finally cap sink d =
     (case (case cap of None \<Rightarrow> (Inr (), d)
              | Some c \<Rightarrow> (case hdmi_close c d of (r, _, d1) \<Rightarrow> (r, d1))) of
        (Inl e, d1) \<Rightarrow> (Inl e, d1)
      | (Inr _, d1) \<Rightarrow> (case sink of None \<Rightarrow> (Inr (), d1) | Some s \<Rightarrow> hs_close s d1))"

definition preflight_main :: "'d hdmi_board \<Rightarrow> 'd hdmi_sink option \<Rightarrow> preflight_args \<Rightarrow> 'd \<Rightarrow> int result \<times> 'd" where
  "preflight_main b output args d =
     (if (\<not> pa_skip_capture args \<or> \<not> pa_skip_output args) \<and> pa_bitstream args = [] then (Inl ValueError, d)
      else case preflight_capture b args d of
        (r, cap, d1) \<Rightarrow>
          (case (case r of Inl e \<Rightarrow> (Inl e, None, d1) | Inr got \<Rightarrow> preflight_output output args got d1) of
             (out, sink, d2) \<Rightarrow>
               (case preflight_finally cap sink d2 of
                  (Inl e, d3) \<Rightarrow> (Inl e, d3)
                | (Inr _, d3) \<Rightarrow> (bind_r out (\<lambda>_. Inr 0), d3))))"

section \<open>Frame sizes\<close>

lemma hdmi_capture_init_fields:
  assumes "hdmi_capture_init b cfg = Inr c"
  shows "hx_config c = cfg \<and> \<not> hx_started c \<and> locate_hdmi_in b = Some (hx_port c) \<and>
     hx_expected c = hc_width cfg * hc_height cfg * pixel_bytes (hc_pixel_format cfg)"
  using assms
  by (auto simp: hdmi_capture_init_def bind_r_eq_Inr split: if_splits option.splits sum.splits)

lemma fit_frame_length: "0 \<le> n \<Longrightarrow> int (length (fit_frame n f)) = n"
  by (auto simp: fit_frame_def slice_to_def)

lemma start_keeps: "start_if_needed c d = (r, c1, d1) \<Longrightarrow> hx_expected c1 = hx_expected c \<and> hx_port c1 = hx_port c"
  by (auto simp: start_if_needed_def split: if_splits prod.splits sum.splits option.splits)

lemma gen_next_keeps:
  "gen_next (g, c, d) = (r, g1, c1, d1) \<Longrightarrow> hx_expected c1 = hx_expected c \<and> hx_port c1 = hx_port c"
  by (auto simp: gen_next_def gen_read_def dest: start_keeps split: gen_state.splits prod.splits sum.splits)

lemma gen_next_sized:
  "gen_next (g, c, d) = (Inr f, s1) \<Longrightarrow> 0 \<le> hx_expected c \<Longrightarrow> int (length f) = hx_expected c"
  by (auto simp: gen_next_def gen_read_def read_frame_def bind_r_eq_Inr fit_frame_length
      dest: start_keeps split: gen_state.splits prod.splits sum.splits)

lemma probe_frames_sized:
  assumes "probe_frames k got (g, c, d) = (Inr out, c1, d1)" and "0 \<le> hx_expected c"
  shows "\<exists>new. out = got @ new \<and> length new = k \<and> list_all (\<lambda>f. int (length f) = hx_expected c) new"
  using assms
proof (induction k arbitrary: got g c d)
  case (Suc k)
  obtain f g1 c' d' where n: "gen_next (g, c, d) = (Inr f, g1, c', d')"
    and r: "probe_frames k (got @ [f]) (g1, c', d') = (Inr out, c1, d1)"
    using Suc.prems(1) by (auto split: prod.splits sum.splits)
  have "hx_expected c' = hx_expected c" using gen_next_keeps [OF n] by simp
  with Suc.IH [OF r] Suc.prems(2) gen_next_sized [OF n] show ?case by auto
qed simp

section \<open>The start and stop protocol\<close>

text \<open>
  A port that records what is done to it: successful starts, calls of stop, frames obtained, and calls of the
  frames' \<^verbatim>\<open>freebuffer\<close>, whether these raise or not.
\<close>

datatype port_event = Started | Stopped | Obtained | Freed

definition log_call :: "('d \<Rightarrow> 'a result \<times> 'd) \<Rightarrow> ('a result \<Rightarrow> port_event list) \<Rightarrow>
    'd \<times> port_event list \<Rightarrow> 'a result \<times> 'd \<times> port_event list" where
  "log_call f ev dl = (case f (fst dl) of (r, d) \<Rightarrow> (r, d, snd dl @ ev r))"

definition log_frame :: "'d hdmi_frame \<Rightarrow> ('d \<times> port_event list) hdmi_frame" where
  "log_frame fr =
     \<lparr>fr_bytes = log_call (fr_bytes fr) (\<lambda>_. []),
      fr_freebuffer = map_option (\<lambda>f. log_call f (\<lambda>_. [Freed])) (fr_freebuffer fr)\<rparr>"

definition log_port :: "'d hdmi_port \<Rightarrow> ('d \<times> port_event list) hdmi_port" where
  "log_port p =
     \<lparr>hp_configure = map_option (\<lambda>f m. log_call (f m) (\<lambda>_. [])) (hp_configure p),
      hp_mode = hp_mode p,
      hp_start = map_option (\<lambda>f. log_call f (\<lambda>r. if r = Inr () then [Started] else [])) (hp_start p),
      hp_stop = map_option (\<lambda>f. log_call f (\<lambda>_. [Stopped])) (hp_stop p),
      hp_readframe = (\<lambda>dl. case hp_readframe p (fst dl) of
         (Inl e, d) \<Rightarrow> (Inl e, d, snd dl)
       | (Inr fr, d) \<Rightarrow> (Inr (log_frame fr), d, snd dl @ [Obtained]))\<rparr>"




















section \<open>Properties\<close>


text \<open>An input whose second frame cannot be released.\<close>

definition demo_port :: "nat hdmi_port" where
  "demo_port = \<lparr>hp_configure = None, hp_mode = None, hp_start = Some (\<lambda>d. (Inr (), d)), hp_stop = Some (\<lambda>d. (Inr (), d)),
     hp_readframe = (\<lambda>d. (Inr \<lparr>fr_bytes = (\<lambda>d. (Inr [1, 2, 3], d)),
       fr_freebuffer = Some (\<lambda>d. (if d = 1 then Inl OSError else Inr (), Suc d))\<rparr>, d))\<rparr>"

definition demo_hdmi_board :: "'d hdmi_port \<Rightarrow> 'd hdmi_board" where
  "demo_hdmi_board p = \<lparr>hb_numpy = True, hb_env = demo_py, hb_overlay = (\<lambda>_. True),
     hb_video_in = None, hb_direct_in = Some (Some p)\<rparr>"

definition demo_hdmi_config :: hdmi_config where
  "demo_hdmi_config = \<lparr>hc_width = 2, hc_height = 1, hc_fps = 10, hc_pixel_format = ''rgb888'', hc_bitstream_path = Some ''/a.bit''\<rparr>"

definition demo_capture :: "'d hdmi_port \<Rightarrow> 'd hdmi_capture" where
  "demo_capture p = \<lparr>hx_config = demo_hdmi_config, hx_port = p, hx_started = False, hx_expected = 6\<rparr>"

lemma demo_capture_init: "hdmi_capture_init (demo_hdmi_board p) demo_hdmi_config = Inr (demo_capture p)"
proof -
  have "pixel_bytes ''rgb888'' = 3" by code_simp
  moreover have "case fst (import_board_overlay demo_files demo_interp) of Inr _ \<Rightarrow> True | Inl _ \<Rightarrow> False" by code_simp
  then obtain m where "fst (import_board_overlay demo_files demo_interp) = Inr m" by (auto split: sum.splits)
  moreover have "resolve_overlay_path demo_files (Some ''/a.bit'') = Inr (Some ''/a.bit'')" by code_simp
  ultimately show ?thesis
    by (simp add: hdmi_capture_init_def demo_hdmi_board_def demo_hdmi_config_def locate_hdmi_in_def
        demo_capture_def demo_py_def)
qed

lemmas demo_probe_defs = gen_next_def start_if_needed_def configure_port_def demo_capture_def log_port_def log_frame_def demo_port_def
  log_call_def gen_read_def read_frame_def fit_frame_def

lemma demo_probe:
  "probe_frames 1 [] (GenCreated, demo_capture (log_port demo_port), 0, []) =
     (Inr [[1, 2, 3, 0, 0, 0]], (demo_capture (log_port demo_port))\<lparr>hx_started := True\<rparr>, 1, [Started, Obtained, Freed])"
  by (simp add: demo_probe_defs numeral_eq_Suc)




text \<open>
  Every frame of a capture with a non-negative picture size has exactly width times height times the bytes of a
  pixel, however long the frames of the board are: a shorter one is padded with zeros, a longer one cut.
\<close>

theorem captured_frames_sized:
  assumes "hdmi_capture_init b cfg = Inr c" and "0 \<le> hc_width cfg" and "0 \<le> hc_height cfg"
    and "probe_frames k [] (GenCreated, c, d) = (Inr frames, c1, d1)"
  shows "length frames = k \<and>
     filter (\<lambda>f. int (length f) \<noteq> hc_width cfg * hc_height cfg * pixel_bytes (hc_pixel_format cfg)) frames = []"
proof -
  have e: "hx_expected c = hc_width cfg * hc_height cfg * pixel_bytes (hc_pixel_format cfg)"
    using hdmi_capture_init_fields [OF assms(1)] by simp
  moreover have "0 \<le> pixel_bytes (hc_pixel_format cfg)" by (simp add: pixel_bytes_def Let_def)
  ultimately have "0 \<le> hx_expected c" using assms(2,3) by simp
  from probe_frames_sized [OF assms(4) this] e show ?thesis by (auto simp: list_all_iff filter_empty_conv)
qed

theorem captured_frames_sized_witness:
  "length [[1, 2, 3, 0, 0, 0 :: byte]] = 1 \<and> filter (\<lambda>f. int (length f) \<noteq> 2 * 1 * pixel_bytes ''rgb888'') [[1, 2, 3, 0, 0, 0 :: byte]] = []"
  using captured_frames_sized [OF demo_capture_init [of "log_port demo_port"] _ _ demo_probe]
  by (simp add: demo_hdmi_config_def)

text \<open>
  The preflight needs its options: without \<^verbatim>\<open>--skip-output\<close> it cannot pass when the output module is missing,
  as it is in this repository, and with any part enabled it refuses to run without a bitstream.
\<close>

lemma preflight_needs_options:
  "(\<forall>d'. preflight_main b None args d = (Inr 0, d') \<longrightarrow>
      pa_skip_output args \<and> (pa_skip_capture args \<or> pa_bitstream args \<noteq> [])) \<and>
   preflight_main b sink preflight_default_args d = (Inl ValueError, d)"
  by (auto simp: preflight_main_def preflight_output_def preflight_default_args_def
      split: if_splits prod.splits sum.splits option.splits)

end
