(* ===== verification/Display.thy ===== *)
theory Display
  imports Hdmi_Capture
begin

text \<open>
  The picture sinks of the PC side: \<^verbatim>\<open>FrameDisplay\<close> of \<^verbatim>\<open>pc/runtime/video_io.py\<close>, which the receiver calls with every
  completed frame, and the stand-alone test \<^verbatim>\<open>pc/runtime/tx_daemon_rx_test.py\<close>. NumPy and OpenCV are a
  parameter (\<open>screen\<close>); pictures handed to \<^verbatim>\<open>imshow\<close> are recorded in order.

  The lemmas show that with working libraries every frame becomes exactly one picture of the window's size,
  that broken libraries never stop the caller, and that the three routines of the repository which pad
  or cut a byte string to a size are the same function.
\<close>

section \<open>pc/runtime/video_io.py\<close>

record 'i screen =
  sc_cv2 :: bool
  sc_window :: "unit result"
  sc_numpy :: bool
  sc_reshape :: "bytes \<Rightarrow> int list \<Rightarrow> 'i result"
  sc_bgr :: "'i \<Rightarrow> 'i result"
  sc_resize :: "'i \<Rightarrow> int \<Rightarrow> int \<Rightarrow> 'i result"
  sc_imshow :: "'i \<Rightarrow> unit result"
  sc_destroy :: "unit result"

record 'i frame_display =
  fd_mode :: string
  fd_width :: int
  fd_height :: int
  fd_cv2 :: bool
  fd_frame_count :: int
  fd_drawn :: "'i list"

text \<open>
  The constructor: OpenCV that cannot be imported, or that cannot open a window, turns the display into a
  headless one.
\<close>

definition frame_display_init :: "'i screen \<Rightarrow> string \<Rightarrow> int \<Rightarrow> int \<Rightarrow> 'i frame_display result" where
  "frame_display_init sc display_mode width height =
     (let d = \<lparr>fd_mode = display_mode, fd_width = width, fd_height = height, fd_cv2 = False,
               fd_frame_count = 0, fd_drawn = []\<rparr>
      in if display_mode = ''opencv''
         then if \<not> sc_cv2 sc then Inr (d\<lparr>fd_mode := ''headless''\<rparr>)
              else case sc_window sc of
                Inl _ \<Rightarrow> Inr (d\<lparr>fd_cv2 := True, fd_mode := ''headless''\<rparr>)
              | Inr _ \<Rightarrow> Inr (d\<lparr>fd_cv2 := True\<rparr>)
         else if display_mode \<noteq> ''headless'' then Inl ValueError
         else Inr d)"

definition pad_pixels :: "int \<Rightarrow> bytes \<Rightarrow> bytes" where
  "pad_pixels pixels frame =
     (let src = slice_to pixels frame
      in if int (length src) < pixels then src @ replicate (nat (pixels - int (length src))) 0 else src)"

definition fd_imshow :: "'i screen \<Rightarrow> 'i frame_display \<Rightarrow> 'i \<Rightarrow> unit result \<times> 'i frame_display" where
  "fd_imshow sc d img =
     (case sc_imshow sc img of
        Inl e \<Rightarrow> (Inl e, d)
      | Inr _ \<Rightarrow> (Inr (), d\<lparr>fd_drawn := fd_drawn d @ [img]\<rparr>))"

text \<open>The body of the \<^verbatim>\<open>try\<close> block of \<^verbatim>\<open>show\<close>; the final \<^verbatim>\<open>waitKey\<close> changes nothing the caller sees.\<close>

definition fd_draw :: "'i screen \<Rightarrow> 'i frame_display \<Rightarrow> bytes \<Rightarrow> string \<Rightarrow> unit result \<times> 'i frame_display" where
  "fd_draw sc d frame format_hint =
     (if \<not> sc_numpy sc then (Inl ImportError, d)
      else if format_hint = ''gray8''
      then (case sc_reshape sc (pad_pixels (fd_width d * fd_height d) frame) [fd_height d, fd_width d] of
              Inl e \<Rightarrow> (Inl e, d)
            | Inr img \<Rightarrow> fd_imshow sc d img)
      else if format_hint = ''rgb24''
      then (case bind_r (sc_reshape sc (pad_pixels (fd_width d * fd_height d * 3) frame)
                           [fd_height d, fd_width d, 3]) (sc_bgr sc) of
              Inl e \<Rightarrow> (Inl e, d)
            | Inr img \<Rightarrow> fd_imshow sc d img)
      else (Inr (), d))"

definition fd_show :: "'i screen \<Rightarrow> 'i frame_display \<Rightarrow> bytes \<Rightarrow> string \<Rightarrow> unit result \<times> 'i frame_display" where
  "fd_show sc d frame format_hint =
     (let d1 = d\<lparr>fd_frame_count := fd_frame_count d + 1\<rparr>
      in if fd_mode d1 = ''headless'' then (Inr (), d1)
         else if \<not> fd_cv2 d1 then (Inr (), d1)
         else case fd_draw sc d1 frame format_hint of
           (Inl e, d2) \<Rightarrow> (Inr (), d2)
         | (Inr _, d2) \<Rightarrow> (Inr (), d2))"

definition fd_show_gray :: "'i screen \<Rightarrow> 'i frame_display \<Rightarrow> bytes \<Rightarrow> unit result \<times> 'i frame_display" where
  "fd_show_gray sc d frame = fd_show sc d frame ''gray8''"

definition fd_close :: "'i screen \<Rightarrow> 'i frame_display \<Rightarrow> unit result" where
  "fd_close sc d = (if fd_cv2 d then sc_destroy sc else Inr ())"

section \<open>pc/runtime/tx_daemon_rx_test.py\<close>

record rxtest_args =
  rt_width :: int
  rt_height :: int
  rt_scale :: int
  rt_payload_offset :: int
  rt_max_frames :: int

definition rxtest_default_args :: rxtest_args where
  "rxtest_default_args = \<lparr>rt_width = 40, rt_height = 30, rt_scale = 16, rt_payload_offset = 0, rt_max_frames = 0\<rparr>"

definition to_gray_image :: "bytes \<Rightarrow> int \<Rightarrow> int \<Rightarrow> bytes" where
  "to_gray_image payload width height =
     (let pixel_count = width * height
      in if int (length payload) \<ge> pixel_count then slice_to pixel_count payload
         else payload @ replicate (nat (pixel_count - int (length payload))) 0)"

text \<open>What the socket gives: a datagram, together with the key pressed once it is shown, a time-out, or Ctrl-C.\<close>

datatype rxtest_event = RtDatagram bytes int | RtTimeout | RtInterrupt

datatype rxtest_outcome = RtStopped | RtWaiting | RtRaised py_error

record 'i rxtest_state =
  rs_frames :: int
  rs_bytes_rx :: int
  rs_last_frame_id :: "int option"
  rs_shown :: "'i list"
  rs_reports :: "(int \<times> int \<times> int) list"

definition rxtest_init :: "'i rxtest_state" where
  "rxtest_init = \<lparr>rs_frames = 0, rs_bytes_rx = 0, rs_last_frame_id = None, rs_shown = [], rs_reports = []\<rparr>"

definition rxtest_image :: "'i screen \<Rightarrow> rxtest_args \<Rightarrow> bytes \<Rightarrow> 'i result" where
  "rxtest_image sc args payload =
     bind_r (sc_reshape sc (to_gray_image payload (rt_width args) (rt_height args)) [rt_height args, rt_width args]) (\<lambda>img.
     bind_r (if rt_scale args > 1
             then sc_resize sc img (rt_width args * rt_scale args) (rt_height args * rt_scale args)
             else Inr img) (\<lambda>img.
     bind_r (sc_imshow sc img) (\<lambda>_. Inr img)))"

text \<open>The counters after a shown datagram; every hundredth frame a report remembers the frame id.\<close>

definition rxtest_count :: "'i rxtest_state \<Rightarrow> int \<Rightarrow> int \<Rightarrow> 'i rxtest_state" where
  "rxtest_count s frame_id n =
     (let s1 = s\<lparr>rs_frames := rs_frames s + 1, rs_bytes_rx := rs_bytes_rx s + n\<rparr>
      in if rs_frames s1 mod 100 = 0
         then s1\<lparr>rs_last_frame_id := Some frame_id,
                 rs_reports := rs_reports s1 @ [(rs_frames s1, rs_bytes_rx s1,
                    case rs_last_frame_id s1 of None \<Rightarrow> 0 | Some l \<Rightarrow> frame_id - l)]\<rparr>
         else s1)"

definition rxtest_payload :: "rxtest_args \<Rightarrow> bytes \<Rightarrow> bytes" where
  "rxtest_payload args datagram =
     (if length datagram < 6 then [] else slice_from (6 + rt_payload_offset args) datagram)"

fun rxtest_loop :: "'i screen \<Rightarrow> rxtest_args \<Rightarrow> 'i rxtest_state \<Rightarrow> rxtest_event list \<Rightarrow> rxtest_outcome \<times> 'i rxtest_state" where
  "rxtest_loop sc args s [] =
     (if rt_max_frames args \<le> 0 \<or> rs_frames s < rt_max_frames args then RtWaiting else RtStopped, s)"
| "rxtest_loop sc args s (e # es) =
     (if rt_max_frames args \<le> 0 \<or> rs_frames s < rt_max_frames args
      then case e of
        RtTimeout \<Rightarrow> rxtest_loop sc args s es
      | RtInterrupt \<Rightarrow> (RtStopped, s)
      | RtDatagram datagram key \<Rightarrow>
          if rxtest_payload args datagram = [] then rxtest_loop sc args s es
          else case rxtest_image sc args (rxtest_payload args datagram) of
            Inl err \<Rightarrow> (RtRaised err, s)
          | Inr img \<Rightarrow>
              let s1 = s\<lparr>rs_shown := rs_shown s @ [img]\<rparr>
              in if key AND 0xFF = 113 then (RtStopped, s1)
                 else rxtest_loop sc args
                   (rxtest_count s1 (from_bytes_be (slice 0 4 datagram)) (int (length (rxtest_payload args datagram)))) es
      else (RtStopped, s))"

definition rxtest_main :: "'i screen \<Rightarrow> rxtest_args \<Rightarrow> rxtest_event list \<Rightarrow> (rxtest_outcome \<times> 'i rxtest_state) result" where
  "rxtest_main sc args es =
     (if \<not> (sc_cv2 sc \<and> sc_numpy sc) then Inl RuntimeError
      else bind_r (sc_window sc) (\<lambda>_. Inr (rxtest_loop sc args rxtest_init es)))"

section \<open>Sizes\<close>

lemma length_slice_to: "0 \<le> n \<Longrightarrow> length (slice_to n xs) = min (nat n) (length xs)"
  by (simp add: slice_to_def)

lemma pad_pixels_length: "0 \<le> n \<Longrightarrow> int (length (pad_pixels n frame)) = n"
  by (auto simp: pad_pixels_def Let_def length_slice_to)

lemma pad_pixels_id: "int (length frame) = n \<Longrightarrow> pad_pixels n frame = frame"
  by (auto simp: pad_pixels_def Let_def slice_to_def)

lemma pad_pixels_gray: "to_gray_image payload w h = pad_pixels (w * h) payload"
proof (cases "w * h < 0")
  case True
  then show ?thesis by (simp add: to_gray_image_def pad_pixels_def Let_def)
next
  case False
  then show ?thesis
    by (cases "int (length payload) < w * h") (auto simp: to_gray_image_def pad_pixels_def slice_to_def Let_def)
qed

lemma fit_frame_pad: "fit_frame n frame = pad_pixels n frame"
proof (cases "n < 0")
  case True
  then show ?thesis by (simp add: fit_frame_def pad_pixels_def Let_def)
next
  case False
  then show ?thesis
    by (cases "int (length frame) < n") (auto simp: fit_frame_def pad_pixels_def slice_to_def Let_def)
qed

section \<open>Working libraries\<close>

text \<open>
  What NumPy and OpenCV promise: a buffer of the right size takes the shape, the pixels of the picture are the
  buffer, the colour conversion of a picture with three channels exchanges the first and third byte of every pixel, the enlargement by
  nearest neighbours of a picture and its presentation succeed.
\<close>

fun swap_rb :: "bytes \<Rightarrow> bytes" where
  "swap_rb (r # g # b # rest) = b # g # r # swap_rb rest"
| "swap_rb rest = rest"

definition screen_ok :: "'i screen \<Rightarrow> ('i \<Rightarrow> bytes) \<Rightarrow> bool" where
  "screen_ok sc pixels \<longleftrightarrow> sc_cv2 sc \<and> sc_numpy sc \<and> sc_window sc = Inr () \<and>
     (\<forall>bs h w. 0 < h \<longrightarrow> 0 < w \<longrightarrow> int (length bs) = w * h \<longrightarrow>
        (\<exists>img. sc_reshape sc bs [h, w] = Inr img \<and> pixels img = bs)) \<and>
     (\<forall>bs h w. 0 < h \<longrightarrow> 0 < w \<longrightarrow> int (length bs) = w * h * 3 \<longrightarrow>
        (\<exists>img. sc_reshape sc bs [h, w, 3] = Inr img \<and> pixels img = bs)) \<and>
     (\<forall>bs h w img. sc_reshape sc bs [h, w, 3] = Inr img \<longrightarrow>
        (\<exists>img'. sc_bgr sc img = Inr img' \<and> pixels img' = swap_rb (pixels img))) \<and>
     (\<forall>img. sc_imshow sc img = Inr ())"

lemma screen_gray:
  assumes "screen_ok sc pixels" and "0 < h" and "0 < w"
  shows "\<exists>img. sc_reshape sc (pad_pixels (w * h) frame) [h, w] = Inr img \<and> pixels img = pad_pixels (w * h) frame"
  using assms pad_pixels_length [of "w * h" frame] by (simp add: screen_ok_def)

lemma screen_colour:
  assumes "screen_ok sc pixels" and "0 < h" and "0 < w"
  shows "\<exists>img. bind_r (sc_reshape sc (pad_pixels (w * h * 3) frame) [h, w, 3]) (sc_bgr sc) = Inr img \<and>
     pixels img = swap_rb (pad_pixels (w * h * 3) frame)"
proof -
  have "int (length (pad_pixels (w * h * 3) frame)) = w * h * 3"
    using assms(2,3) by (intro pad_pixels_length) simp
  then obtain img where i: "sc_reshape sc (pad_pixels (w * h * 3) frame) [h, w, 3] = Inr img"
      "pixels img = pad_pixels (w * h * 3) frame"
    using assms unfolding screen_ok_def by blast
  obtain img' where "sc_bgr sc img = Inr img'" "pixels img' = swap_rb (pixels img)"
    using assms(1) i(1) unfolding screen_ok_def by blast
  with i show ?thesis by simp
qed

text \<open>The receiver's use of the display: one call of \<^verbatim>\<open>show\<close> per completed frame, in order.\<close>

definition show_all :: "'i screen \<Rightarrow> 'i frame_display \<Rightarrow> bytes list \<Rightarrow> unit result \<times> 'i frame_display" where
  "show_all sc = loop_r (\<lambda>d frame. fd_show sc d frame ''rgb24'')"

lemma fd_show_total: "\<exists>d'. fd_show sc d frame hint = (Inr (), d') \<and> fd_frame_count d' = fd_frame_count d + 1 \<and>
    fd_mode d' = fd_mode d \<and> fd_cv2 d' = fd_cv2 d \<and> fd_width d' = fd_width d \<and> fd_height d' = fd_height d"
  by (auto simp: fd_show_def fd_draw_def fd_imshow_def Let_def split: sum.splits prod.splits)

lemma show_all_total: "\<exists>d'. show_all sc d frames = (Inr (), d') \<and> fd_frame_count d' = fd_frame_count d + int (length frames)"
proof (induction frames arbitrary: d)
  case (Cons f frames)
  obtain d1 where "fd_show sc d f ''rgb24'' = (Inr (), d1)" "fd_frame_count d1 = fd_frame_count d + 1"
    using fd_show_total by blast
  with Cons [of d1] show ?case by (simp add: show_all_def add.assoc)
qed (simp add: show_all_def)

lemma show_all_drawn:
  assumes "screen_ok sc pixels" and "fd_mode d = ''opencv''" and "fd_cv2 d" and "0 < fd_width d" and "0 < fd_height d"
  shows "\<exists>d'. show_all sc d frames = (Inr (), d') \<and>
     map pixels (fd_drawn d') = map pixels (fd_drawn d) @ map (\<lambda>f. swap_rb (pad_pixels (fd_width d * fd_height d * 3) f)) frames"
  using assms
proof (induction frames arbitrary: d)
  case (Cons f frames)
  let ?d = "d\<lparr>fd_frame_count := fd_frame_count d + 1\<rparr>"
  obtain img where i: "bind_r (sc_reshape sc (pad_pixels (fd_width d * fd_height d * 3) f) [fd_height d, fd_width d, 3]) (sc_bgr sc) = Inr img"
      "pixels img = swap_rb (pad_pixels (fd_width d * fd_height d * 3) f)"
    using screen_colour [OF Cons.prems(1,5,4)] by blast
  let ?d1 = "?d\<lparr>fd_drawn := fd_drawn d @ [img]\<rparr>"
  have "fd_show sc d f ''rgb24'' = (Inr (), ?d1)"
    using i(1) Cons.prems(1-3) by (simp add: fd_show_def Let_def fd_draw_def fd_imshow_def screen_ok_def)
  moreover obtain d' where "show_all sc ?d1 frames = (Inr (), d')"
      "map pixels (fd_drawn d') = map pixels (fd_drawn ?d1) @
         map (\<lambda>f. swap_rb (pad_pixels (fd_width d * fd_height d * 3) f)) frames"
    using Cons.IH [of ?d1] Cons.prems by auto
  ultimately show ?case using i(2) by (simp add: show_all_def)
qed (simp add: show_all_def)

section \<open>The test receiver\<close>

lemma rxtest_image_ok:
  assumes "screen_ok sc pixels" and "0 < rt_width args" and "0 < rt_height args" and "rt_scale args \<le> 1"
  shows "\<exists>img. rxtest_image sc args payload = Inr img \<and>
     pixels img = to_gray_image payload (rt_width args) (rt_height args)"
proof -
  obtain img where "sc_reshape sc (to_gray_image payload (rt_width args) (rt_height args)) [rt_height args, rt_width args] = Inr img"
      "pixels img = to_gray_image payload (rt_width args) (rt_height args)"
    using screen_gray [OF assms(1,3,2)] by (auto simp: pad_pixels_gray)
  with assms(1,4) show ?thesis by (simp add: rxtest_image_def screen_ok_def)
qed

lemma rxtest_count_fields [simp]:
  "rs_frames (rxtest_count s fid n) = rs_frames s + 1"
  "rs_bytes_rx (rxtest_count s fid n) = rs_bytes_rx s + n"
  "rs_shown (rxtest_count s fid n) = rs_shown s"
  by (simp_all add: rxtest_count_def Let_def)

text \<open>The payloads the test shows: of datagrams long enough to have one.\<close>

definition rxtest_payloads :: "rxtest_args \<Rightarrow> rxtest_event list \<Rightarrow> bytes list" where
  "rxtest_payloads args es = filter (\<lambda>p. p \<noteq> [])
     (concat (map (\<lambda>e. case e of RtDatagram dg _ \<Rightarrow> [rxtest_payload args dg] | _ \<Rightarrow> []) es))"

definition rxtest_plain :: "rxtest_event \<Rightarrow> bool" where
  "rxtest_plain e \<longleftrightarrow> (case e of RtDatagram _ key \<Rightarrow> key AND 0xFF \<noteq> 113 | RtTimeout \<Rightarrow> True | RtInterrupt \<Rightarrow> False)"

lemma rxtest_loop_run:
  assumes "screen_ok sc pixels" and "0 < rt_width args" and "0 < rt_height args" and "rt_scale args \<le> 1"
    and "rt_max_frames args \<le> 0" and "list_all rxtest_plain es"
  shows "\<exists>s'. rxtest_loop sc args s es = (RtWaiting, s') \<and>
     rs_frames s' = rs_frames s + int (length (rxtest_payloads args es)) \<and>
     rs_bytes_rx s' = rs_bytes_rx s + int (length (concat (rxtest_payloads args es))) \<and>
     map pixels (rs_shown s') = map pixels (rs_shown s) @
       map (\<lambda>p. to_gray_image p (rt_width args) (rt_height args)) (rxtest_payloads args es)"
  using assms(6)
proof (induction es arbitrary: s)
  case Nil
  then show ?case using assms(5) by (simp add: rxtest_payloads_def)
next
  case (Cons e es)
  show ?case
  proof (cases "\<exists>dg key. e = RtDatagram dg key \<and> rxtest_payload args dg \<noteq> []")
    case False
    then have "rxtest_loop sc args s (e # es) = rxtest_loop sc args s es" "rxtest_payloads args (e # es) = rxtest_payloads args es"
      using assms(5) Cons.prems by (cases e; simp add: rxtest_payloads_def rxtest_plain_def)+
    with Cons.IH [of s] Cons.prems show ?thesis by simp
  next
    case True
    then obtain dg key where e: "e = RtDatagram dg key" and p: "rxtest_payload args dg \<noteq> []" by blast
    obtain img where i: "rxtest_image sc args (rxtest_payload args dg) = Inr img"
        "pixels img = to_gray_image (rxtest_payload args dg) (rt_width args) (rt_height args)"
      using rxtest_image_ok [OF assms(1-4)] by blast
    let ?s = "rxtest_count (s\<lparr>rs_shown := rs_shown s @ [img]\<rparr>) (from_bytes_be (slice 0 4 dg))
        (int (length (rxtest_payload args dg)))"
    have "rxtest_loop sc args s (e # es) = rxtest_loop sc args ?s es"
      using assms(5) Cons.prems e p i(1) by (simp add: rxtest_plain_def Let_def)
    moreover have "rxtest_payloads args (e # es) = rxtest_payload args dg # rxtest_payloads args es"
      using p by (simp add: rxtest_payloads_def e)
    ultimately show ?thesis using Cons.IH [of ?s] Cons.prems i(2) by auto
  qed
qed

section \<open>Properties\<close>

text \<open>
  The three routines that bring a byte string to a size, in the HDMI capture, in the display and in the test
  receiver, are one function, for every integer size and every input; for a size that is not negative the
  result has exactly that size, starts with the input's bytes and is the input when it already fits.
\<close>

theorem padding_routines_agree:
  "fit_frame n frame = pad_pixels n frame \<and> to_gray_image frame w h = pad_pixels (w * h) frame \<and>
   int (length (pad_pixels (int k) frame)) = int k \<and> take (length frame) (pad_pixels (int k) frame) = take k frame \<and>
   pad_pixels (int (length frame)) frame = frame"
  using pad_pixels_length [of "int k" frame]
  by (auto simp: fit_frame_pad pad_pixels_gray pad_pixels_id pad_pixels_def slice_to_def Let_def)

text \<open>
  The receiver's display. Whatever the libraries do, showing frames never raises and counts each of them; with
  working libraries the window of a positive size gets exactly one picture per frame, in order, whose
  pixels are the frame padded or cut to the window with red and blue exchanged.
\<close>

theorem display_shows_frames:
  assumes "frame_display_init sc mode w h = Inr d"
  shows "\<exists>d'. show_all sc d frames = (Inr (), d') \<and> fd_frame_count d' = int (length frames) \<and>
     (screen_ok sc pixels \<and> mode = ''opencv'' \<and> 0 < w \<and> 0 < h \<longrightarrow>
        map pixels (fd_drawn d') = map (\<lambda>f. swap_rb (pad_pixels (w * h * 3) f)) frames)"
proof -
  have i: "fd_frame_count d = 0" "fd_drawn d = []" "fd_width d = w" "fd_height d = h"
    using assms by (auto simp: frame_display_init_def Let_def split: if_splits sum.splits)
  obtain d' where d': "show_all sc d frames = (Inr (), d')" "fd_frame_count d' = int (length frames)"
    using show_all_total [of sc d frames] i(1) by auto
  moreover have "map pixels (fd_drawn d') = map (\<lambda>f. swap_rb (pad_pixels (w * h * 3) f)) frames"
    if "screen_ok sc pixels \<and> mode = ''opencv'' \<and> 0 < w \<and> 0 < h"
  proof -
    have "fd_mode d = ''opencv''" "fd_cv2 d"
      using assms that by (auto simp: frame_display_init_def screen_ok_def Let_def)
    with show_all_drawn [of sc pixels d frames] that i d'(1) show ?thesis by auto
  qed
  ultimately show ?thesis by blast
qed

definition demo_screen :: "bytes screen" where
  "demo_screen = \<lparr>sc_cv2 = True, sc_window = Inr (), sc_numpy = True, sc_reshape = (\<lambda>bs _. Inr bs),
     sc_bgr = (\<lambda>bs. Inr (swap_rb bs)), sc_resize = (\<lambda>bs _ _. Inr bs), sc_imshow = (\<lambda>_. Inr ()), sc_destroy = Inr ()\<rparr>"

lemma demo_screen_ok: "screen_ok demo_screen id"
  by (simp add: screen_ok_def demo_screen_def)

theorem display_shows_frames_witness:
  "\<exists>d d'. frame_display_init demo_screen ''opencv'' 2 1 = Inr d \<and>
     show_all demo_screen d [[1, 2, 3], [1, 2, 3, 4, 5, 6, 7]] = (Inr (), d') \<and>
     fd_drawn d' = [[3, 2, 1, 0, 0, 0], [3, 2, 1, 6, 5, 4]]"
proof -
  obtain d where d: "frame_display_init demo_screen ''opencv'' 2 1 = Inr d"
    by (simp add: frame_display_init_def demo_screen_def Let_def)
  have "map (\<lambda>f. swap_rb (pad_pixels (2 * 1 * 3) f)) [[1, 2, 3], [1, 2, 3, 4, 5, 6, 7]] =
      [[3, 2, 1, 0, 0, 0], [3, 2, 1, 6, 5, 4]]"
    by (simp add: pad_pixels_def slice_to_def Let_def numeral_eq_Suc)
  with display_shows_frames [OF d, of "[[1, 2, 3], [1, 2, 3, 4, 5, 6, 7]]" id] d demo_screen_ok show ?thesis by auto
qed

text \<open>
  The test receiver without a frame limit, with working libraries and a positive window, shows every datagram
  that has a payload behind its prefix as one picture of the window's size, in order, skips every other
  datagram and every time-out, and counts pictures and payload bytes exactly; it does not end by itself.
\<close>

theorem rxtest_shows_payloads:
  assumes "screen_ok sc pixels" and "0 < rt_width args" and "0 < rt_height args" and "rt_scale args \<le> 1"
    and "rt_max_frames args \<le> 0" and "list_all rxtest_plain es"
  shows "\<exists>s. rxtest_main sc args es = Inr (RtWaiting, s) \<and> rs_frames s = int (length (rxtest_payloads args es)) \<and>
     rs_bytes_rx s = int (length (concat (rxtest_payloads args es))) \<and>
     map pixels (rs_shown s) = map (\<lambda>p. to_gray_image p (rt_width args) (rt_height args)) (rxtest_payloads args es)"
  using rxtest_loop_run [OF assms, of rxtest_init] assms(1)
  by (auto simp: rxtest_main_def screen_ok_def rxtest_init_def)

definition demo_rxtest_args :: rxtest_args where
  "demo_rxtest_args = rxtest_default_args\<lparr>rt_width := 2, rt_height := 2, rt_scale := 1\<rparr>"

theorem rxtest_shows_payloads_witness:
  "\<exists>s. rxtest_main demo_screen demo_rxtest_args
       [RtDatagram [0, 0, 0, 1, 0, 0, 9] 255, RtTimeout, RtDatagram [0, 0, 0, 1, 0, 1] 255] = Inr (RtWaiting, s) \<and>
     rs_frames s = 1 \<and> rs_bytes_rx s = 1 \<and> rs_shown s = [[9, 0, 0, 0]]"
proof -
  let ?es = "[RtDatagram [0, 0, 0, 1, 0, 0, 9] 255, RtTimeout, RtDatagram [0, 0, 0, 1, 0, 1] 255]"
  have p: "rxtest_payloads demo_rxtest_args ?es = [[9]]"
    by (simp add: rxtest_payloads_def rxtest_payload_def demo_rxtest_args_def rxtest_default_args_def slice_from_def)
  have "list_all rxtest_plain ?es" by (simp add: rxtest_plain_def)
  from rxtest_shows_payloads [OF demo_screen_ok _ _ _ _ this, of demo_rxtest_args] show ?thesis
    unfolding p by (simp add: demo_rxtest_args_def rxtest_default_args_def to_gray_image_def numeral_eq_Suc)
qed

end
