(* ===== verification/Programs.thy ===== *)
theory Programs
  imports End_To_End Config_Loader Display
begin

text \<open>
  The two programs as they are started: \<^verbatim>\<open>main\<close> of \<^verbatim>\<open>pynq/runtime/main.py\<close> and \<^verbatim>\<open>main\<close> of \<^verbatim>\<open>pc/runtime/main_rx.py\<close>, from
  the configuration files to the network, with the HDMI capture as the sender's source and the display as
  the receiver's sink. The parts are the models of the other theories; this one connects them.

  The configuration holds YAML values of any type. A key id or window that is not an integer is outside this
  model (\<open>None\<close>).
\<close>

section \<open>Configuration values\<close>

fun config_int :: "yaml \<Rightarrow> int option" where
  "config_int (YInt i) = Some i"
| "config_int (YBool b) = Some (if b then 1 else 0)"
| "config_int _ = None"

text \<open>The exceptions of \<^verbatim>\<open>load_config\<close> that both programs turn into an exit with status 1.\<close>

definition config_failure :: "py_error \<Rightarrow> py_error" where
  "config_failure e = (if e = FileNotFoundError \<or> e = YAMLError then SystemExit else e)"

section \<open>The sender\<close>

definition tx_endpoints :: "tx_args \<Rightarrow> network_config \<Rightarrow> (yaml \<times> yaml) \<times> (yaml \<times> yaml)" where
  "tx_endpoints args net =
     ((override (map_option YStr (txa_bind_ip args)) (nc_bind_ip net),
       override (map_option YInt (txa_bind_port args)) (nc_rx_port net)),
      (override (map_option YStr (txa_target_ip args)) (nc_tx_ip net),
       override (map_option YInt (txa_target_port args)) (nc_tx_port net)))"

text \<open>
  \<^verbatim>\<open>_load_hdmi_source\<close>: the capture module is imported relative to the package, which works only when the program
  runs as a part of it.
\<close>

definition tx_hdmi_config :: "tx_args \<Rightarrow> hdmi_config" where
  "tx_hdmi_config args =
     \<lparr>hc_width = txa_hdmi_width args, hc_height = txa_hdmi_height args,
      hc_fps = override (txa_hdmi_fps args) (txa_fps args), hc_pixel_format = txa_hdmi_pixel_format args,
      hc_bitstream_path = Some (txa_bitstream args)\<rparr>"

definition load_hdmi_source :: "bool \<Rightarrow> 'h hdmi_board \<Rightarrow> hdmi_config \<Rightarrow> 'h hdmi_capture result" where
  "load_hdmi_source as_package hb cfg =
     (if \<not> as_package then Inl ImportError else hdmi_capture_init hb cfg)"

text \<open>The frames a loop over the generator gets, from a state of the generator.\<close>

fun gen_stream :: "gen_state \<times> 'h hdmi_capture \<times> 'h \<Rightarrow> nat \<Rightarrow> bytes result" where
  "gen_stream s 0 = fst (gen_next s)"
| "gen_stream s (Suc k) = gen_stream (snd (gen_next s)) k"

definition tx_source :: "bool \<Rightarrow> 'h hdmi_board \<Rightarrow> tx_args \<Rightarrow> 'h \<Rightarrow> (nat \<Rightarrow> bytes result) result" where
  "tx_source as_package hb args hdev =
     bind_r (load_hdmi_source as_package hb (tx_hdmi_config args)) (\<lambda>c. Inr (gen_stream (GenCreated, c, hdev)))"

text \<open>
  \<^verbatim>\<open>main\<close>. \<open>bind\<close> is the outcome of creating the transport for the addresses; \<open>hdev\<close> is the state of the HDMI input and
  \<open>d\<close> that of the AES core.
\<close>

definition tx_program :: "'d tx_env \<Rightarrow> board \<Rightarrow> bool \<Rightarrow> 'h hdmi_board \<Rightarrow> ((yaml \<times> yaml) \<times> (yaml \<times> yaml) \<Rightarrow> unit result) \<Rightarrow>
    (string \<Rightarrow> yaml result option) \<Rightarrow> tx_args \<Rightarrow> 'h \<Rightarrow> 'd \<Rightarrow> (unit result \<times> 'd tx_state option) option option" where
  "tx_program env b as_package hb bind files args hdev d =
     (case load_config files of
        Inl e \<Rightarrow> Some (Some (Inl (config_failure e), None))
      | Inr cfg \<Rightarrow> map_option (\<lambda>kid.
          map_option (\<lambda>(r, s). (r, Some s))
            (run_tx env b args kid (tx_source as_package hb args hdev) (bind (tx_endpoints args (sc_network cfg))) d))
          (config_int (cc_tx_to_rx_key_id (sc_crypto cfg))))"

section \<open>The receiver\<close>

text \<open>
  \<^verbatim>\<open>main\<close>: the display gets every completed frame; closing it in the \<^verbatim>\<open>finally\<close> clause can raise.
\<close>

definition rx_program :: "'i screen \<Rightarrow> aead \<Rightarrow> bool \<Rightarrow> (string \<Rightarrow> yaml result option) \<Rightarrow> rx_args \<Rightarrow> recv_event list \<Rightarrow>
    (rx_outcome \<times> rx_state \<times> 'i frame_display) result option" where
  "rx_program sc dec importable files args evs =
     (case load_config files of
        Inl e \<Rightarrow> Some (Inl (config_failure e))
      | Inr cfg \<Rightarrow>
          (case (config_int (cc_tx_to_rx_key_id (sc_crypto cfg)), config_int (cc_replay_window_packets (sc_crypto cfg))) of
             (Some kid, Some w) \<Rightarrow>
               Some (bind_r (rx_main dec importable (Inr \<lparr>rxc_key_id = kid, rxc_replay_window = w\<rparr>) args evs) (\<lambda>(out, s).
                 bind_r (frame_display_init sc (rxa_display_mode args) 1280 720) (\<lambda>d.
                 let d1 = snd (show_all sc d (rx_shown s))
                 in bind_r (fd_close sc d1) (\<lambda>_. Inr (out, s, d1)))))
           | _ \<Rightarrow> None))"

section \<open>The frames of the HDMI input\<close>

text \<open>
  An input that works: configuring and starting it succeed, and each read gives the next raw frame, whatever the
  size, whose conversion and release succeed; \<open>view\<close> is the number of frames read so far.
\<close>

definition port_feeds :: "'h hdmi_port \<Rightarrow> ('h \<Rightarrow> nat) \<Rightarrow> (nat \<Rightarrow> bytes) \<Rightarrow> bool" where
  "port_feeds p view raw \<longleftrightarrow>
     (\<forall>f. hp_configure p = Some f \<longrightarrow> (\<forall>d. \<exists>d'. f None d = (Inr (), d') \<and> view d' = view d)) \<and>
     (\<forall>f. hp_start p = Some f \<longrightarrow> (\<forall>d. \<exists>d'. f d = (Inr (), d') \<and> view d' = view d)) \<and>
     (\<forall>d. \<exists>fr d1 d2. hp_readframe p d = (Inr fr, d1) \<and> fr_bytes fr d1 = (Inr (raw (view d)), d2) \<and> view d2 = Suc (view d) \<and>
        (\<forall>f. fr_freebuffer fr = Some f \<longrightarrow> (\<exists>d3. f d2 = (Inr (), d3) \<and> view d3 = view d2)))"

lemma port_feeds_read:
  assumes "port_feeds p view raw" and "hx_port c = p"
  shows "\<exists>d'. gen_read c d = (Inr (fit_frame (hx_expected c) (raw (view d))), GenRunning, c, d') \<and> view d' = Suc (view d)"
proof -
  obtain fr d1 d2 where r: "hp_readframe p d = (Inr fr, d1)" "fr_bytes fr d1 = (Inr (raw (view d)), d2)" "view d2 = Suc (view d)"
    "\<forall>f. fr_freebuffer fr = Some f \<longrightarrow> (\<exists>d3. f d2 = (Inr (), d3) \<and> view d3 = view d2)"
    using assms(1) unfolding port_feeds_def by blast
  then show ?thesis using assms(2)
    by (cases "fr_freebuffer fr") (auto simp: gen_read_def read_frame_def)
qed

lemma port_feeds_start:
  assumes "port_feeds p view raw" and "hx_port c = p"
  shows "\<exists>c' d'. start_if_needed c d = (Inr (), c', d') \<and> hx_port c' = p \<and> hx_expected c' = hx_expected c \<and> view d' = view d"
proof -
  obtain d1 where c: "configure_port p d = (Inr (), d1)" "view d1 = view d"
  proof (cases "hp_configure p")
    case None
    then show ?thesis using that [of d] by (simp add: configure_port_def)
  next
    case (Some f)
    then obtain d1 where "f None d = (Inr (), d1)" "view d1 = view d" using assms(1) unfolding port_feeds_def by blast
    then show ?thesis using that [of d1] Some by (simp add: configure_port_def)
  qed
  have "\<exists>d2. f d1 = (Inr (), d2) \<and> view d2 = view d1" if "hp_start p = Some f" for f
    using assms(1) that unfolding port_feeds_def by blast
  then show ?thesis using c assms(2)
    by (cases "hp_start p") (force simp: start_if_needed_def)+
qed

lemma gen_stream_running:
  assumes "port_feeds p view raw" and "hx_port c = p"
  shows "gen_stream (GenRunning, c, d) k = Inr (fit_frame (hx_expected c) (raw (view d + k)))"
proof (induction k arbitrary: d)
  case 0
  then show ?case using port_feeds_read [OF assms, of d] by (auto simp: gen_next_def)
next
  case (Suc k)
  obtain d' where d': "gen_read c d = (Inr (fit_frame (hx_expected c) (raw (view d))), GenRunning, c, d')" "view d' = Suc (view d)"
    using port_feeds_read [OF assms, of d] by blast
  then show ?case using Suc.IH [of d'] by (simp add: gen_next_def)
qed

lemma gen_stream_created:
  assumes "port_feeds p view raw" and "hx_port c = p"
  shows "gen_stream (GenCreated, c, d) k = Inr (fit_frame (hx_expected c) (raw (view d + k)))"
proof -
  obtain c' d' where st: "start_if_needed c d = (Inr (), c', d')" "hx_port c' = p" "hx_expected c' = hx_expected c" "view d' = view d"
    using port_feeds_start [OF assms, of d] by blast
  then have "gen_next (GenCreated, c, d) = gen_next (GenRunning, c', d')" by (simp add: gen_next_def)
  then have "gen_stream (GenCreated, c, d) k = gen_stream (GenRunning, c', d') k" by (cases k) simp_all
  then show ?thesis using gen_stream_running [OF assms(1) st(2), of d' k] st by simp
qed

definition captured :: "tx_args \<Rightarrow> (nat \<Rightarrow> bytes) \<Rightarrow> nat \<Rightarrow> bytes" where
  "captured args raw k =
     fit_frame (txa_hdmi_width args * txa_hdmi_height args * pixel_bytes (txa_hdmi_pixel_format args)) (raw k)"

lemma tx_source_captured:
  assumes "hdmi_capture_init hb (tx_hdmi_config args) = Inr c" and "port_feeds (hx_port c) view raw" and "view hdev = 0"
  shows "\<exists>src. tx_source True hb args hdev = Inr src \<and> (\<forall>k. src k = Inr (captured args raw k))"
proof -
  have "hx_expected c = txa_hdmi_width args * txa_hdmi_height args * pixel_bytes (txa_hdmi_pixel_format args)"
    using hdmi_capture_init_fields [OF assms(1)] by (simp add: tx_hdmi_config_def)
  then show ?thesis using assms(1,3) gen_stream_created [OF assms(2) refl]
    by (simp add: tx_source_def load_hdmi_source_def captured_def)
qed

lemma rx_program_shows:
  assumes "load_config files = Inr cfg" and "config_int (cc_tx_to_rx_key_id (sc_crypto cfg)) = Some kid"
    and "config_int (cc_replay_window_packets (sc_crypto cfg)) = Some w"
    and "rx_main dec imp (Inr \<lparr>rxc_key_id = kid, rxc_replay_window = w\<rparr>) args evs = Inr (out, r)"
    and "rxa_display_mode args = ''opencv''" and "screen_ok sc pixels" and "sc_destroy sc = Inr ()"
  shows "\<exists>d. rx_program sc dec imp files args evs = Some (Inr (out, r, d)) \<and>
     map pixels (fd_drawn d) = map (\<lambda>f. swap_rb (pad_pixels (1280 * 720 * 3) f)) (rx_shown r)"
proof -
  obtain d0 where d0: "frame_display_init sc ''opencv'' 1280 720 = Inr d0" "fd_mode d0 = ''opencv''" "fd_cv2 d0"
      "fd_width d0 = 1280" "fd_height d0 = 720" "fd_drawn d0 = []"
    using assms(6) by (simp add: frame_display_init_def screen_ok_def Let_def)
  obtain d where d: "show_all sc d0 (rx_shown r) = (Inr (), d)"
      "map pixels (fd_drawn d) = map (\<lambda>f. swap_rb (pad_pixels (1280 * 720 * 3) f)) (rx_shown r)"
    using show_all_drawn [OF assms(6) d0(2,3), of "rx_shown r"] d0 by auto
  then show ?thesis using assms d0(1) by (simp add: rx_program_def fd_close_def Let_def)
qed

end
