(* ===== verification/Recovery.thy ===== *)
theory Recovery
  imports Rx_Main
begin

text \<open>
  What the receiver of \<^verbatim>\<open>pc/runtime/main_rx.py\<close> still does after arbitrary traffic. In the default mode it always
  recovers: whatever was received before, the next frame whose packets arrive together is shown. In
  strict mode a single forged datagram ends that, because the nonce of a clear header is tracked before
  the packet is authenticated.
\<close>

section \<open>One frame through a reassembler in any state\<close>

text \<open>
  A push of a new key evicts the oldest entry, never the new one: the entry of the pushed key is always the one
  the specification has.
\<close>

lemma push_abs_own:
  assumes inv: "reasm_inv r" and m: "1 \<le> max_active_frames r"
  shows "abs_reasm (snd (push r h p)) (header_key h) = snd (spec_push (abs_reasm r) (h, p)) (header_key h)"
proof (cases "evicts r h p")
  case False
  then show ?thesis by (simp add: push_abs_keep [OF inv])
next
  case True
  then have new: "header_key h \<notin> fst ` set (frames r)" and "frames r \<noteq> []"
    using m by (auto simp: evicts_def)
  then have "fst (hd (frames r @ [(header_key h, pushed_state r h p)])) \<noteq> header_key h"
    by (cases "frames r") auto
  then show ?thesis by (simp add: push_abs_evict [OF inv True])
qed

lemma new_slot_local: "A (header_key (fst hp)) = B (header_key (fst hp)) \<Longrightarrow> new_slot A hp = new_slot B hp"
  by (simp add: new_slot_def spec_slot_def)

lemma spec_push_local:
  assumes "A (header_key (fst hp)) = B (header_key (fst hp))"
  shows "fst (spec_push A hp) = fst (spec_push B hp)"
    and "snd (spec_push A hp) (header_key (fst hp)) = snd (spec_push B hp) (header_key (fst hp))"
  using new_slot_local [of A hp B] assms by (simp_all add: spec_push_new_slot)

lemma one_frame_refines:
  assumes "reasm_inv r" and "1 \<le> max_active_frames r" and "A k = abs_reasm r k"
    and "list_all (\<lambda>hp. header_key (fst hp) = k) ps"
  shows "fst (run_outs push_packet r ps) = map Inr (fst (run_outs spec_push A ps))"
  using assms
proof (induction ps arbitrary: r A)
  case (Cons hp ps)
  obtain h p where hp: "hp = (h, p)" by (cases hp)
  have k: "header_key h = k" using Cons.prems(4) by (simp add: hp)
  let ?r = "snd (push r h p)" and ?A = "snd (spec_push A (h, p))"
  note loc = spec_push_local [of A "(h, p)" "abs_reasm r"]
  have "?A k = abs_reasm ?r k"
    using push_abs_own [OF Cons.prems(1,2), of h p] loc(2) Cons.prems(3) k by simp
  from Cons.IH [of ?r ?A, OF push_inv [OF Cons.prems(1)] _ this] Cons.prems
  have "fst (run_outs push_packet ?r ps) = map Inr (fst (run_outs spec_push ?A ps))" by simp
  then show ?case using push_output [OF Cons.prems(1), of h p] loc(1) Cons.prems(3) k
    by (simp add: hp push_packet_def [of r "(h, p)"])
qed simp

text \<open>The packets of one frame, in any order and with repeats, the last one bringing the last missing segment.\<close>

definition frame_burst :: "frame_key \<Rightarrow> int \<Rightarrow> (int \<Rightarrow> bytes) \<Rightarrow> (packet_header \<times> bytes) list \<Rightarrow> bool" where
  "frame_burst k n F ps \<longleftrightarrow> ps \<noteq> [] \<and> list_all (\<lambda>hp. header_key (fst hp) = k) ps \<and> frame_packets k n F ps \<and>
     frame_ids k ps = {0..<n} \<and> segment_id (fst (last ps)) \<notin> frame_ids k (butlast ps)"

lemma frame_burst_shown:
  assumes inv: "reasm_inv r" and m: "1 \<le> max_active_frames r" and fresh: "map_of (frames r) k = None"
    and b: "frame_burst k n F ps"
  shows "fst (run_outs push_packet r ps) =
     replicate (length ps - 1) (Inr None) @ [Inr (Some (concat (map F [0..n - 1])))]"
proof -
  obtain pre hp where ps: "ps = pre @ [hp]" using b by (metis append_butlast_last_id frame_burst_def)
  let ?A = "abs_reasm r"
  have keys: "list_all (\<lambda>hp. header_key (fst hp) = k) (pre @ [hp])" and pk: "frame_packets k n F (pre @ [hp])"
    and ids: "frame_ids k (pre @ [hp]) = {0..<n}" and lst: "segment_id (fst hp) \<notin> frame_ids k pre"
    using b by (simp_all add: frame_burst_def ps)
  have hp: "header_key (fst hp) = k" and prek: "list_all (\<lambda>hp. header_key (fst hp) = k) pre"
    using keys by simp_all
  have pre: "frame_packets k n F pre" and v: "segment_count (fst hp) = n" "snd hp = F (segment_id (fst hp))" "0 < n"
    using pk hp by (simp_all add: frame_packets_def)
  have all: "insert (segment_id (fst hp)) (frame_ids k pre) = {0..<n}"
    using ids hp by (simp add: frame_ids_def)
  have t0: "tracks k n F {} ?A" using fresh by (simp add: tracks_def abs_reasm_def)
  have "{} \<union> frame_ids k pre \<subset> {0..<n}" using all lst by auto
  from spec_run_track [OF t0 pre v(3) this]
  have tr: "tracks k n F (frame_ids k pre) (snd (run_outs spec_push ?A pre))"
    and none: "\<forall>i < length pre. header_key (fst (pre ! i)) = k \<longrightarrow> fst (run_outs spec_push ?A pre) ! i = None"
    by simp_all
  have "fst (run_outs spec_push ?A pre) = replicate (length pre) None"
    by (rule nth_equalityI) (use none prek in \<open>auto simp: list_all_length\<close>)
  moreover have "fst (spec_push (snd (run_outs spec_push ?A pre)) hp) = Some (concat (map F [0..n - 1]))"
    using spec_push_track [OF tr hp v(1,2,3)] all by simp
  ultimately have "fst (run_outs spec_push ?A (pre @ [hp])) =
      replicate (length pre) None @ [Some (concat (map F [0..n - 1]))]"
    by (simp add: run_outs_append)
  then show ?thesis using one_frame_refines [of r ?A k "pre @ [hp]", OF inv m refl keys] by (simp add: ps)
qed

section \<open>The receiver in the default mode\<close>

lemma rx_loop_waiting:
  assumes "rx_inv s" and "rx_loop dec sw strict kid m s evs = (RxWaiting, s')"
  shows "s' = rx_run dec sw strict kid s (datagrams evs) \<and> rx_completed s' < m \<and>
     rx_loop dec sw strict kid m s (evs @ evs') = rx_loop dec sw strict kid m s' evs'"
  using assms
proof (induction evs arbitrary: s)
  case Nil
  then show ?case by (auto split: if_splits)
next
  case (Cons ev evs)
  obtain dg where ev: "ev = Datagram dg" and lt: "rx_completed s < m"
    using Cons.prems(2) by (cases ev) (auto split: if_splits)
  note st = rx_loop_step [OF Cons.prems(1) lt, of dec sw strict kid dg]
  from Cons.IH [OF rx_step_inv [OF Cons.prems(1)]] Cons.prems(2) st show ?case by (simp add: ev)
qed

lemma rx_run_default:
  assumes "rx_inv s" and "list_all2 (\<lambda>dg hp. accepts dec sw kid dg (fst hp) (snd hp)) dgs ps"
  shows "rx_shown (rx_run dec sw False kid s dgs) =
       rx_shown s @ shown_frames (fst (run_outs push_packet (rx_reasm s) ps)) \<and>
     rx_completed (rx_run dec sw False kid s dgs) =
       rx_completed s + int (length (shown_frames (fst (run_outs push_packet (rx_reasm s) ps)))) \<and>
     rx_dropped (rx_run dec sw False kid s dgs) = rx_dropped s"
  using assms
proof (induction ps arbitrary: s dgs)
  case Nil
  then show ?case by (simp add: shown_frames_def)
next
  case (Cons hp ps)
  obtain h p where hp: "hp = (h, p)" by (cases hp)
  from Cons.prems(2) obtain dg dgs' where d: "dgs = dg # dgs'" "accepts dec sw kid dg h p"
    and ds: "list_all2 (\<lambda>dg hp. accepts dec sw kid dg (fst hp) (snd hp)) dgs' ps"
    by (auto simp: list_all2_Cons2 hp)
  let ?t = "s\<lparr>rx_validator := snd (validate_and_track (rx_validator s) (nonce_counter h))\<rparr>"
  have st: "rx_step dec sw False kid s dg = rx_deliver ?t h p" using rx_step_accepts [OF d(2), of False s] by simp
  have ri: "reasm_inv (rx_reasm ?t)" using Cons.prems(1) by (simp add: rx_inv_def)
  note f = rx_deliver_reasm [OF ri, of h p]
  from Cons.IH [OF rx_step_inv [OF Cons.prems(1), of dec sw False kid dg] ds] show ?case
    using f by (auto simp: d hp st push_packet_def [of "rx_reasm s" "(h, p)"] shown_frames_def
        split: sum.split option.split)
qed

lemma rx_reachable:
  shows "max_active_frames (rx_reasm (rx_run dec sw strict kid (rx_init strict w) dgs)) = 8"
    and "(\<And>dg h p. dg \<in> set dgs \<Longrightarrow> accepts dec sw kid dg h p \<Longrightarrow> header_key h \<noteq> k) \<Longrightarrow>
      map_of (frames (rx_reasm (rx_run dec sw strict kid (rx_init strict w) dgs))) k = None"
proof -
  let ?s = "rx_run dec sw strict kid (rx_init strict w) dgs"
  obtain H where H: "rx_history dec sw kid dgs H ?s" using rx_run_history by blast
  then have r: "rx_reasm ?s = snd (run_outs push_packet (reassembler_init 8) H)" by (simp add: rx_history_def)
  show "max_active_frames (rx_reasm ?s) = 8" by (simp add: r push_max_run reassembler_init_def)
  assume "\<And>dg h p. dg \<in> set dgs \<Longrightarrow> accepts dec sw kid dg h p \<Longrightarrow> header_key h \<noteq> k"
  then have "k \<notin> packet_keys H" using H by (fastforce simp: rx_history_def packet_keys_def)
  moreover have "pending_keys (rx_reasm ?s) \<subseteq> packet_keys H"
    using pending_keys_run [OF reassembler_init_inv [of 8], of H]
    by (simp add: r pending_keys_def reassembler_init_def)
  ultimately show "map_of (frames (rx_reasm ?s)) k = None"
    by (auto simp: map_of_eq_None_iff pending_keys_def)
qed

section \<open>Properties\<close>

text \<open>
  C6. Recovery. In the default mode, whatever events came before, as long as the receiver is still waiting for
  frames: when all packets of a frame not seen before arrive together, in any order and with repeats,
  the frame is shown at the packet that brings its last missing segment, nothing is dropped, and the
  loop goes on until the frame limit. Earlier garbage, forgeries, losses and half-received frames cannot
  prevent it.
\<close>

theorem rx_recovers:
  assumes "rx_loop dec sw False kid m (rx_init False w) evs = (RxWaiting, s)"
    and "list_all2 (\<lambda>dg hp. accepts dec sw kid dg (fst hp) (snd hp)) dgs ps" and "frame_burst k n F ps"
    and "\<And>dg h p. dg \<in> set (datagrams evs) \<Longrightarrow> accepts dec sw kid dg h p \<Longrightarrow> header_key h \<noteq> k"
  shows "\<exists>s'. rx_loop dec sw False kid m (rx_init False w) (evs @ map Datagram dgs) =
       (if rx_completed s + 1 < m then RxWaiting else RxDone, s') \<and>
     rx_shown s' = rx_shown s @ [concat (map F [0..n - 1])] \<and> rx_dropped s' = rx_dropped s"
proof -
  let ?f = "concat (map F [0..n - 1])"
  let ?outs = "replicate (length ps - 1) (Inr None) @ [Inr (Some ?f)]"
  note w = rx_loop_waiting [OF rx_init_inv assms(1)]
  have s: "s = rx_run dec sw False kid (rx_init False w) (datagrams evs)" and lt: "rx_completed s < m"
    using w [of "[]"] by (blast, blast)
  have inv: "rx_inv s" unfolding s by (rule rx.run_inv [OF rx_init_inv])
  have push: "fst (run_outs push_packet (rx_reasm s) ps) = ?outs"
    using frame_burst_shown [OF _ _ _ assms(3), of "rx_reasm s"] inv
      rx_reachable(1) [of dec sw False kid w "datagrams evs"] rx_reachable(2) [where strict = False and w = w and dgs = "datagrams evs", OF assms(4)]
    by (simp add: rx_inv_def s)
  have ne: "ps \<noteq> []" using assms(3) by (simp add: frame_burst_def)
  have len: "length dgs = length ps" using assms(2) by (rule list_all2_lengthD)
  have pre: "rx_completed (rx_run dec sw False kid s (take j dgs)) < m" if "j < length dgs" for j
    using rx_run_default [OF inv list_all2_takeI [OF assms(2)], of j] that lt len
    by (simp add: run_outs_take push)
  let ?s = "rx_run dec sw False kid s dgs"
  have r: "rx_shown ?s = rx_shown s @ [?f]" "rx_completed ?s = rx_completed s + 1" "rx_dropped ?s = rx_dropped s"
    using rx_run_default [OF inv assms(2)] by (simp_all add: push)
  have "rx_loop dec sw False kid m s (map Datagram dgs @ []) = rx_loop dec sw False kid m ?s []"
    by (rule rx_loop_prefix [OF inv]) (use pre in blast)
  then show ?thesis using w [of "map Datagram dgs"] r by (intro exI [of _ ?s]) simp
qed

lemma demo_burst:
  "frame_burst (header_key (demo_rx_header 1)) 1 (\<lambda>_. [10, 20, 30]) [(demo_rx_header 1, [10, 20, 30])]"
  by (auto simp: frame_burst_def frame_packets_def frame_ids_def demo_rx_header_def default_header_def)

lemma demo_unparsed: "\<exists>e. rx_parse dec sw [1, 2, 3] = Inl e"
  by (simp add: rx_parse_def TRANSPORT_SLOT_BYTES_def is_pl_format_def split_datagram_def unpack_header_def
      HEADER_SIZE_BYTES_def)

lemma demo_waiting:
  "rx_loop demo_dec demo_sw False 1 2 (rx_init False 1024) [Datagram [1, 2, 3]] =
     (RxWaiting, (rx_init False 1024)\<lparr>rx_dropped := 1\<rparr>)"
proof -
  obtain e where "rx_parse demo_dec demo_sw [1, 2, 3] = Inl e" using demo_unparsed by blast
  from rx_step_unparsed [OF this] show ?thesis by (simp add: rx_drop_def rx_init_def)
qed

theorem rx_recovers_witness:
  "\<exists>s'. rx_loop demo_dec demo_sw False 1 2 (rx_init False 1024)
       ([Datagram [1, 2, 3]] @ map Datagram [demo_datagram 1 [10, 20, 30]]) = (RxWaiting, s') \<and>
     rx_shown s' = [[10, 20, 30]] \<and> rx_dropped s' = 1"
proof -
  have "\<exists>e. rx_parse demo_dec demo_sw [1, 2, 3] = Inl e" by (rule demo_unparsed)
  then have rej: "\<not> accepts demo_dec demo_sw 1 [1, 2, 3] h p" for h p by (auto simp: accepts_def)
  have acc: "list_all2 (\<lambda>dg hp. accepts demo_dec demo_sw 1 dg (fst hp) (snd hp))
      [demo_datagram 1 [10, 20, 30]] [(demo_rx_header 1, [10, 20, 30])]" using demo_accepts by simp
  from rx_recovers [OF demo_waiting acc demo_burst] rej show ?thesis by (simp add: rx_init_def)
qed

text \<open>The headers the receiver parses hold nonces of 64 bits.\<close>

lemma rx_parse_fits:
  assumes "rx_parse dec sw dg = Inr (pl, h, payload, tag)"
  shows "header_fits h"
  using assms
  by (auto simp: rx_parse_def open_pl_def split_datagram_def bind_r_eq_Inr Let_def
      split: if_splits dest: unpack_header_fits)

text \<open>Strict mode at the top of the nonce range: every datagram is dropped.\<close>

definition strict_exhausted :: "rx_state \<Rightarrow> bool" where
  "strict_exhausted s \<longleftrightarrow> reorder_window (rx_validator s) = 0 \<and> 2 ^ 64 - 1 \<le> latest_nonce (rx_validator s)"

lemma validate_exhausted:
  assumes "reorder_window v = 0" and "n \<le> latest_nonce v"
  shows "\<not> fst (validate_and_track v n) \<and> latest_nonce (snd (validate_and_track v n)) = latest_nonce v"
  using assms by (auto simp: validate_and_track_def)

lemma rx_step_exhausted:
  assumes "strict_exhausted s"
  shows "\<exists>v. rx_step dec sw True kid s dg = rx_drop (s\<lparr>rx_validator := v\<rparr>) \<and>
     strict_exhausted (s\<lparr>rx_validator := v\<rparr>)"
proof (cases "rx_parse dec sw dg")
  case (Inl e)
  then show ?thesis using assms by (intro exI [of _ "rx_validator s"]) (simp add: rx_step_unparsed)
next
  case (Inr x)
  obtain pl h payload tag where p: "rx_parse dec sw dg = Inr (pl, h, payload, tag)"
    using Inr by (cases x) auto
  have "nonce_counter h \<le> 2 ^ 64 - 1" using rx_parse_fits [OF p] by (simp add: header_fits_def)
  with assms have "\<not> fst (validate_and_track (rx_validator s) (nonce_counter h)) \<and>
      latest_nonce (snd (validate_and_track (rx_validator s) (nonce_counter h))) = latest_nonce (rx_validator s)"
    by (intro validate_exhausted) (simp_all add: strict_exhausted_def)
  with p assms show ?thesis
    by (cases "validate_header h = []")
      (auto simp: rx_step_def case_prod_beta Let_def strict_exhausted_def intro: exI [of _ "rx_validator s"])
qed

lemma rx_run_exhausted:
  assumes "strict_exhausted s"
  shows "rx_shown (rx_run dec sw True kid s dgs) = rx_shown s \<and>
     rx_dropped (rx_run dec sw True kid s dgs) = rx_dropped s + int (length dgs)"
  using assms
proof (induction dgs arbitrary: s)
  case (Cons dg dgs)
  from rx_step_exhausted [OF Cons.prems, of dec sw kid dg] obtain v where
    v: "rx_step dec sw True kid s dg = rx_drop (s\<lparr>rx_validator := v\<rparr>)" "strict_exhausted (s\<lparr>rx_validator := v\<rparr>)"
    by blast
  let ?s = "s\<lparr>rx_validator := v, rx_dropped := rx_dropped s + 1\<rparr>"
  have "strict_exhausted ?s" using v(2) by (simp add: strict_exhausted_def)
  from Cons.IH [OF this] v(1) show ?case by (simp add: rx_drop_def)
qed simp

lemma strict_reorder_window:
  "reorder_window (rx_validator (rx_run dec sw True kid (rx_init True w) dgs)) = 0"
  using rx_strict_history [of dec sw kid dgs w] by (auto simp: strict_history_def)

text \<open>
  C21. Strict mode can be shut by one forged datagram. The nonce of a clear header is tracked before the packet is
  authenticated: after any traffic, one datagram with a well-formed header that carries the largest
  nonce, with any payload and tag and any key id, makes the strict receiver drop every later datagram, so
  no frame is ever shown again.
\<close>

theorem strict_mode_forgery_lockout:
  assumes "build_datagram h ct tag = Inr dg" and "validate_header h = []" and "nonce_counter h = 2 ^ 64 - 1"
    and "length dg \<noteq> TRANSPORT_SLOT_BYTES"
  shows "rx_shown (rx_run dec sw True kid (rx_init True w) (before @ [dg] @ after)) =
       rx_shown (rx_run dec sw True kid (rx_init True w) (before @ [dg])) \<and>
     rx_dropped (rx_run dec sw True kid (rx_init True w) (before @ [dg] @ after)) =
       rx_dropped (rx_run dec sw True kid (rx_init True w) (before @ [dg])) + int (length after)"
proof -
  let ?b = "rx_run dec sw True kid (rx_init True w) before"
  let ?t = "validate_and_track (rx_validator ?b) (nonce_counter h)"
  have "magic h = MAGIC" using assms(2) by (simp add: validate_header_Nil_iff)
  then have p: "rx_parse dec sw dg = Inr (False, h, ct, tag)" using rx_parse_osv [OF assms(1) _ assms(4)] by simp
  have inv: "rx_inv ?b" by (rule rx.run_inv [OF rx_init_inv])
  have "2 ^ 64 - 1 \<le> latest_nonce (snd ?t)"
    using assms(3) inv by (auto simp: validate_and_track_def rx_inv_def seen_bounded_def)
  moreover have "rx_validator (snd (rx_step dec sw True kid ?b dg)) = snd ?t"
    using p assms(2) inv
    by (auto simp: rx_step_def case_prod_beta Let_def rx_inv_def rx_deliver_reasm split: sum.split)
  ultimately have "strict_exhausted (rx_run dec sw True kid (rx_init True w) (before @ [dg]))"
    using strict_reorder_window [of dec sw kid w before] by (simp add: strict_exhausted_def run_outs_append)
  from rx_run_exhausted [OF this, of dec sw kid after] show ?thesis
    by (simp add: run_outs_append)
qed

definition forged_header :: packet_header where
  "forged_header = default_header\<lparr>payload_type := 1, key_id := 7, payload_length := 0, nonce_counter := 2 ^ 64 - 1\<rparr>"

theorem strict_mode_forgery_lockout_witness:
  "\<exists>dg. build_datagram forged_header [] (replicate 16 0) = Inr dg \<and>
     rx_shown (rx_run demo_dec demo_sw True 1 (rx_init True 1024)
       ([] @ [dg] @ [demo_datagram 1 [10, 20, 30], demo_datagram 2 [10, 20, 30]])) = []"
proof -
  have "header_fits forged_header"
    by (simp add: header_fits_def forged_header_def default_header_def MAGIC_def VERSION_def)
  then obtain hb where hb: "pack_header forged_header = Inr hb" using pack_header_fits by blast
  have b: "build_datagram forged_header [] (replicate 16 0) = Inr (hb @ [] @ replicate 16 0)"
    using hb by (simp add: build_datagram_def forged_header_def default_header_def)
  have v: "validate_header forged_header = []" by code_simp
  have n: "nonce_counter forged_header = 2 ^ 64 - 1" by (simp add: forged_header_def)
  have l: "length (hb @ [] @ replicate 16 0) \<noteq> TRANSPORT_SLOT_BYTES"
    by (simp add: pack_header_length [OF hb] HEADER_SIZE_BYTES_def TRANSPORT_SLOT_BYTES_def)
  note lock = strict_mode_forgery_lockout [OF b v n l, of demo_dec demo_sw 1 1024 "[]"]
  have "rx_parse demo_dec demo_sw (hb @ [] @ replicate 16 0) = Inr (False, forged_header, [], replicate 16 0)"
    by (rule rx_parse_osv [OF b _ l]) (simp add: forged_header_def default_header_def)
  then have "rx_shown (rx_run demo_dec demo_sw True 1 (rx_init True 1024) ([] @ [hb @ [] @ replicate 16 0])) = []"
    by (simp add: rx_step_def v case_prod_beta Let_def forged_header_def rx_init_def)
  then show ?thesis using lock b by metis
qed

end
