(* ===== verification/Attacker.thy ===== *)
theory Attacker
  imports End_To_End "HOL-Library.Sublist"
begin

text \<open>
  Sender and receiver on a network that belongs to an attacker. The sender of \<^verbatim>\<open>pynq/runtime/main.py\<close> cuts frames into
  segments and sends them one by one; in between, the attacker hands the receiver of \<^verbatim>\<open>pc/runtime/main_rx.py\<close> any
  datagram at all: sent ones in any order and number, changed ones, invented ones. The one thing the attacker cannot do
  is what AES-GCM is there to prevent, a forgery: a datagram whose decryption succeeds although the
  sender never sealed it.

  The steps of the three parties are the relation \<open>net_step\<close>; sending and delivery interleave freely. In every
  reachable state the frames shown are frames that were sent, and in strict mode they are shown in the
  order of sending and at most once.
\<close>

section \<open>What the receiver asks of the cipher\<close>

definition rx_query :: "bytes \<Rightarrow> (bytes \<times> bytes \<times> bytes \<times> bytes) result" where
  "rx_query datagram0 =
     bind_r (if length datagram0 = TRANSPORT_SLOT_BYTES then strip_transport_padding datagram0
             else Inr datagram0) (\<lambda>datagram.
       if is_pl_format datagram
       then if length datagram < 8 + 16 then Inl ValueError
            else bind_r (rx_nonce (from_bytes_be (slice 0 8 datagram))) (\<lambda>n.
                   Inr (n, [], drop 8 (all_but_16 datagram), last_16 datagram))
       else bind_r (split_datagram datagram) (\<lambda>(h, ct, tag).
            bind_r (pack_header h) (\<lambda>aad. bind_r (rx_nonce (nonce_counter h)) (\<lambda>n. Inr (n, aad, ct, tag)))))"

text \<open>The sender sealed exactly this ciphertext under this nonce and header, and sent it.\<close>

fun sealed_by :: "bytes list \<Rightarrow> bytes \<times> bytes \<times> bytes \<times> bytes \<Rightarrow> bool" where
  "sealed_by sent (n, aad, ct, tag) =
     list_ex (\<lambda>dg. case split_datagram dg of
        Inl _ \<Rightarrow> False
      | Inr (h, c, t) \<Rightarrow> tx_nonce (nonce_counter h) = Inr n \<and> pack_header h = Inr aad \<and> c = ct \<and> t = tag) sent"

declare sealed_by.simps [simp del]

definition forgery :: "aead \<Rightarrow> aes_gcm_software \<Rightarrow> bytes list \<Rightarrow> bytes \<Rightarrow> bool" where
  "forgery dec sw sent d =
     (case rx_query d of
        Inl _ \<Rightarrow> False
      | Inr (n, aad, ct, tag) \<Rightarrow> \<not> isl (sw_decrypt dec sw n aad ct tag) \<and> \<not> sealed_by sent (n, aad, ct, tag))"

section \<open>The network\<close>

record 'd net =
  ns_tx :: "'d tx_state"
  ns_frames :: "bytes list"
  ns_count :: int
  ns_pending :: "(int \<times> bytes) list"
  ns_rx :: rx_state
  ns_got :: "bytes list"

definition net_init :: "'d \<Rightarrow> crypto_adapter \<Rightarrow> bool \<Rightarrow> int \<Rightarrow> 'd net" where
  "net_init d c strict w =
     \<lparr>ns_tx = tx_start d c, ns_frames = [], ns_count = 0, ns_pending = [], ns_rx = rx_init strict w, ns_got = []\<rparr>"

text \<open>
  The sender starts a frame when the last one is sent, and sends the next segment; the receiver takes what the
  attacker hands it while frames are wanted. A sender step that raises ends the sender, so it has no
  successor here.
\<close>

inductive net_step :: "'d tx_env \<Rightarrow> tx_args \<Rightarrow> int \<Rightarrow> aead \<Rightarrow> aes_gcm_software \<Rightarrow> bool \<Rightarrow> int \<Rightarrow> 'd net \<Rightarrow> 'd net \<Rightarrow> bool"
  for env args kid dec sw strict m where
  start_frame: "ns_pending s = [] \<Longrightarrow> segment_frame frame (txa_segment_bytes args) = Inr segs \<Longrightarrow>
     net_step env args kid dec sw strict m s
       (s\<lparr>ns_frames := ns_frames s @ [frame], ns_count := int (length segs), ns_pending := enumerate_i segs\<rparr>)"
| send_segment: "ns_pending s = x # xs \<Longrightarrow>
     tx_segment env args kid (int (length (ns_frames s)) - 1) (ns_count s) x (ns_tx s) = Some (Inr (), t) \<Longrightarrow>
     net_step env args kid dec sw strict m s (s\<lparr>ns_tx := t, ns_pending := xs\<rparr>)"
| deliver: "rx_completed (ns_rx s) < m \<Longrightarrow> \<not> forgery dec sw (tx_sent (ns_tx s)) d \<Longrightarrow>
     net_step env args kid dec sw strict m s
       (s\<lparr>ns_rx := snd (rx_step dec sw strict kid (ns_rx s) d), ns_got := ns_got s @ [d]\<rparr>)"

inductive net_reach :: "'d tx_env \<Rightarrow> tx_args \<Rightarrow> int \<Rightarrow> aead \<Rightarrow> aes_gcm_software \<Rightarrow> bool \<Rightarrow> int \<Rightarrow> 'd net \<Rightarrow> 'd net \<Rightarrow> bool"
  for env args kid dec sw strict m s where
  at_start: "net_reach env args kid dec sw strict m s s"
| one_more: "net_reach env args kid dec sw strict m s t \<Longrightarrow> net_step env args kid dec sw strict m t u \<Longrightarrow>
     net_reach env args kid dec sw strict m s u"

section \<open>Queries and packets\<close>

lemma pack_header_inj: "pack_header h = Inr bs \<Longrightarrow> pack_header h' = Inr bs \<Longrightarrow> h = h'"
  using unpack_pack_append [of h bs "[]"] unpack_pack_append [of h' bs "[]"] by simp

lemma accepts_query:
  assumes "accepts dec sw kid d h p"
  obtains n aad ct tag where "rx_query d = Inr (n, aad, ct, tag)" "\<not> isl (sw_decrypt dec sw n aad ct tag)"
    "aad \<noteq> [] \<Longrightarrow> pack_header h = Inr aad \<and> rx_nonce (nonce_counter h) = Inr n \<and> sw_decrypt dec sw n aad ct tag = Inr p"
proof -
  from assms obtain pl payload tag where a: "rx_parse dec sw d = Inr (pl, h, payload, tag)"
    "rx_plain dec sw pl h payload tag = Inr p" unfolding accepts_def by blast
  show ?thesis
  proof (cases pl)
    case True
    then show ?thesis
      using a that by (auto simp: rx_parse_def rx_query_def open_pl_def bind_r_eq_Inr Let_def split: if_splits)
  next
    case False
    then show ?thesis
      using a that by (auto simp: rx_parse_def rx_query_def rx_plain_def bind_r_eq_Inr split: if_splits)
  qed
qed

lemma sealed_by_iff:
  "sealed_by sent (n, aad, ct, tag) \<longleftrightarrow>
     (\<exists>dg \<in> set sent. \<exists>h. split_datagram dg = Inr (h, ct, tag) \<and> tx_nonce (nonce_counter h) = Inr n \<and> pack_header h = Inr aad)"
  unfolding sealed_by.simps list_ex_iff by (rule bex_cong [OF refl]) (auto split: sum.splits)

lemma sealed_byE:
  assumes "sealed_by sent (n, aad, ct, tag)"
  obtains dg h where "dg \<in> set sent" "build_datagram h ct tag = Inr dg" "pack_header h = Inr aad"
    "tx_nonce (nonce_counter h) = Inr n"
  using assms by (auto simp: sealed_by_iff dest: build_split)

lemma sealed_by_aad: "sealed_by sent (n, aad, ct, tag) \<Longrightarrow> aad \<noteq> []"
  by (auto elim!: sealed_byE dest: pack_header_length simp: HEADER_SIZE_BYTES_def)

lemma sealed_by_mono: "sealed_by sent q \<Longrightarrow> sealed_by (sent @ rest) q"
  by (cases q) (auto simp: sealed_by.simps)

lemma forgery_mono: "\<not> forgery dec sw sent d \<Longrightarrow> \<not> forgery dec sw (sent @ rest) d"
  by (auto simp: forgery_def dest: sealed_by_mono split: sum.splits)

text \<open>An accepted datagram that is not a forgery carries a header that was sent, and what it decrypts to.\<close>

lemma accepted_sent:
  assumes "accepts dec sw kid d h p" "\<not> forgery dec sw sent d"
  obtains dg ct tag aad n where "dg \<in> set sent" "build_datagram h ct tag = Inr dg" "pack_header h = Inr aad"
    "tx_nonce (nonce_counter h) = Inr n" "sw_decrypt dec sw n aad ct tag = Inr p"
proof -
  obtain n aad ct tag where q: "rx_query d = Inr (n, aad, ct, tag)" "\<not> isl (sw_decrypt dec sw n aad ct tag)"
    and h: "aad \<noteq> [] \<Longrightarrow> pack_header h = Inr aad \<and> rx_nonce (nonce_counter h) = Inr n \<and> sw_decrypt dec sw n aad ct tag = Inr p"
    using accepts_query [OF assms(1)] by metis
  then have s: "sealed_by sent (n, aad, ct, tag)" using assms(2) by (simp add: forgery_def)
  from sealed_byE [OF s] obtain dg h' where dg: "dg \<in> set sent" "build_datagram h' ct tag = Inr dg"
    "pack_header h' = Inr aad" "tx_nonce (nonce_counter h') = Inr n" by metis
  with h sealed_by_aad [OF s] pack_header_inj have "h' = h" by blast
  with dg h sealed_by_aad [OF s] that show thesis by blast
qed

section \<open>The invariant of the network\<close>

text \<open>A packet that carries a segment of a sent frame at its own place.\<close>

definition genuine :: "tx_args \<Rightarrow> bytes list \<Rightarrow> packet_header \<Rightarrow> bytes \<Rightarrow> bool" where
  "genuine args fs h p \<longleftrightarrow>
     (\<exists>k segs. k < length fs \<and> segment_frame (fs ! k) (txa_segment_bytes args) = Inr segs \<and>
        header_key h = (txa_session_id args, txa_stream_id args, int k) \<and> segment_count h = int (length segs) \<and>
        0 \<le> segment_id h \<and> segment_id h < int (length segs) \<and> p = segs ! nat (segment_id h))"

lemma genuine_mono: "genuine args fs h p \<Longrightarrow> genuine args (fs @ [f]) h p"
  unfolding genuine_def by (elim exE conjE) (auto simp: nth_append intro!: exI)

definition sent_ok :: "aead \<Rightarrow> aes_gcm_software \<Rightarrow> tx_args \<Rightarrow> bytes list \<Rightarrow> packet_header \<Rightarrow> bytes \<Rightarrow> bool" where
  "sent_ok dec sw args fs h dg \<longleftrightarrow>
     (\<exists>ct tag aad n p. build_datagram h ct tag = Inr dg \<and> pack_header h = Inr aad \<and>
        tx_nonce (nonce_counter h) = Inr n \<and> sw_decrypt dec sw n aad ct tag = Inr p \<and> genuine args fs h p)"

text \<open>What is pending is the end of the segment list of the last frame.\<close>

definition pending_ok :: "tx_args \<Rightarrow> 'd net \<Rightarrow> nat \<Rightarrow> bool" where
  "pending_ok args s i \<longleftrightarrow>
     ns_pending s = [] \<or> (ns_frames s \<noteq> [] \<and> (\<exists>segs.
        segment_frame (last (ns_frames s)) (txa_segment_bytes args) = Inr segs \<and>
        ns_count s = int (length segs) \<and> ns_pending s = drop i (enumerate_i segs)))"

definition net_inv :: "aead \<Rightarrow> bytes \<Rightarrow> tx_args \<Rightarrow> bool \<Rightarrow> int \<Rightarrow> int \<Rightarrow> 'd net \<Rightarrow> bool" where
  "net_inv dec key args strict kid w s \<longleftrightarrow>
     sw_ready key (tx_crypto (ns_tx s)) \<and> (\<exists>i. pending_ok args s i) \<and>
     (\<forall>dg \<in> set (tx_sent (ns_tx s)). \<exists>h. sent_ok dec \<lparr>sw_key = key\<rparr> args (ns_frames s) h dg) \<and>
     (\<forall>d \<in> set (ns_got s). \<not> forgery dec \<lparr>sw_key = key\<rparr> (tx_sent (ns_tx s)) d) \<and>
     ns_rx s = rx_run dec \<lparr>sw_key = key\<rparr> strict kid (rx_init strict w) (ns_got s)"

lemma tx_segment_sealed:
  assumes spec: "aesgcm_spec (te_enc env) dec" and sw: "sw_ready key (tx_crypto s)"
    and step: "tx_segment env args kid fid n (i, seg) s = Some (Inr (), t)"
  obtains h ct tag aad no dg where "tx_sent t = tx_sent s @ [dg]" "tx_crypto t = tx_crypto s"
    "h = tx_header args kid fid i n (te_now env (tx_clock_calls s)) seg (fst (next_nonce (tx_tracker s)))"
    "tx_tracker t = snd (next_nonce (tx_tracker s))"
    "build_datagram h ct tag = Inr dg" "pack_header h = Inr aad" "tx_nonce (nonce_counter h) = Inr no"
    "sw_decrypt dec \<lparr>sw_key = key\<rparr> no aad ct tag = Inr seg"
proof -
  obtain c tr where nn: "next_nonce (tx_tracker s) = (c, tr)" by (cases "next_nonce (tx_tracker s)")
  let ?h = "tx_header args kid fid i n (te_now env (tx_clock_calls s)) seg c"
  obtain aad no where a: "pack_header ?h = Inr aad" "tx_nonce c = Inr no"
    using step nn by (auto simp: tx_segment_def Let_def bind_r_def split: sum.splits)
  have ch: "sealed_channel (sw_encrypt (te_enc env) \<lparr>sw_key = key\<rparr>) (sw_decrypt dec \<lparr>sw_key = key\<rparr>)"
    using sw by (intro sw_sealed_channel [OF spec]) (simp add: sw_ready_def)
  obtain ct tag where enc1: "sw_encrypt (te_enc env) \<lparr>sw_key = key\<rparr> no aad seg = Inr (ct, tag)"
    using step a sw by (cases "sw_encrypt (te_enc env) \<lparr>sw_key = key\<rparr> no aad seg")
      (auto simp: tx_segment_def Let_def nn adapter_encrypt_sw split: prod.splits)
  note enc = enc1 sealed_channel.unseal_seal [OF ch tx_nonce_length [OF a(2)] enc1]
  obtain dg where dg: "build_datagram ?h ct tag = Inr dg"
    and t: "t = s\<lparr>tx_tracker := tr, tx_clock_calls := tx_clock_calls s + 1, tx_sent := tx_sent s @ [dg]\<rparr>"
    using step a enc(1) sw
    by (auto simp: tx_segment_def Let_def nn adapter_encrypt_sw split: sum.splits if_splits)
  show thesis
    by (rule that [of dg ?h ct tag aad no]) (use t dg a enc(2) nn in simp_all)
qed

lemma enumerate_i_drop:
  assumes "drop i (enumerate_i xs) = x # ys"
  shows "i < length xs \<and> x = (int i, xs ! i) \<and> ys = drop (Suc i) (enumerate_i xs)"
proof -
  have i: "i < length (enumerate_i xs)" using assms by (metis drop_all leI list.distinct(1))
  then have "enumerate_i xs ! i # drop (Suc i) (enumerate_i xs) = x # ys"
    using assms Cons_nth_drop_Suc [of i "enumerate_i xs"] by simp
  then show ?thesis using i by (auto simp: enumerate_i_def)
qed

lemma pending_ok_send:
  assumes "pending_ok args s i" "ns_pending s = x # xs"
  obtains segs where "i < length segs" "x = (int i, segs ! i)" "xs = drop (Suc i) (enumerate_i segs)"
    "ns_frames s \<noteq> []" "segment_frame (last (ns_frames s)) (txa_segment_bytes args) = Inr segs"
    "ns_count s = int (length segs)"
proof -
  from assms obtain segs where "ns_frames s \<noteq> []" "ns_count s = int (length segs)"
    "segment_frame (last (ns_frames s)) (txa_segment_bytes args) = Inr segs" "drop i (enumerate_i segs) = x # xs"
    by (auto simp: pending_ok_def)
  with enumerate_i_drop [of i segs x xs] that show thesis by blast
qed

lemma net_inv_init: "sw_ready key c \<Longrightarrow> net_inv dec key args strict kid w (net_init d c strict w)"
  by (simp add: net_inv_def net_init_def tx_start_def pending_ok_def)

text \<open>The header of the segment that is sent next.\<close>

lemma send_genuine:
  assumes p: "pending_ok args s i" "ns_pending s = x # xs"
    and h: "h = tx_header args kid (int (length (ns_frames s)) - 1) (fst x) (ns_count s) ts (snd x) c"
  shows "genuine args (ns_frames s) h (snd x)"
proof -
  obtain segs where s: "i < length segs" "x = (int i, segs ! i)" "ns_frames s \<noteq> []"
    "segment_frame (last (ns_frames s)) (txa_segment_bytes args) = Inr segs" "ns_count s = int (length segs)"
    using pending_ok_send [OF p] by metis
  have "segment_frame (ns_frames s ! (length (ns_frames s) - 1)) (txa_segment_bytes args) = Inr segs"
    using s(3,4) by (simp add: last_conv_nth)
  then show ?thesis
    unfolding genuine_def h using s
    by (intro exI [of _ "length (ns_frames s) - 1"] exI [of _ segs])
      (auto simp: header_key_def int_ops Suc_le_eq of_nat_diff)
qed

lemma net_inv_step:
  assumes spec: "aesgcm_spec (te_enc env) dec"
    and step: "net_step env args kid dec \<lparr>sw_key = key\<rparr> strict m s t"
    and inv: "net_inv dec key args strict kid w s"
  shows "net_inv dec key args strict kid w t"
  using step
proof cases
  case (start_frame frame segs)
  have "pending_ok args t 0" using start_frame by (auto simp: pending_ok_def)
  then show ?thesis
    using inv start_frame(1) genuine_mono unfolding net_inv_def sent_ok_def by fastforce
next
  case (send_segment x xs u)
  obtain i where i: "pending_ok args s i" using inv by (auto simp: net_inv_def)
  have sw: "sw_ready key (tx_crypto (ns_tx s))" using inv by (simp add: net_inv_def)
  obtain h ct tag aad no dg where t: "tx_sent u = tx_sent (ns_tx s) @ [dg]" "tx_crypto u = tx_crypto (ns_tx s)"
    and h: "h = tx_header args kid (int (length (ns_frames s)) - 1) (fst x) (ns_count s)
          (te_now env (tx_clock_calls (ns_tx s))) (snd x) (fst (next_nonce (tx_tracker (ns_tx s))))"
    and dg: "build_datagram h ct tag = Inr dg" "pack_header h = Inr aad" "tx_nonce (nonce_counter h) = Inr no"
      "sw_decrypt dec \<lparr>sw_key = key\<rparr> no aad ct tag = Inr (snd x)"
    using tx_segment_sealed [OF spec sw, of args kid _ _ "fst x" "snd x" u] send_segment(3) by (metis prod.collapse)
  have "sent_ok dec \<lparr>sw_key = key\<rparr> args (ns_frames s) h dg"
    unfolding sent_ok_def using dg send_genuine [OF i send_segment(2) h] by blast
  moreover have "pending_ok args t (Suc i)"
    by (rule pending_ok_send [OF i send_segment(2)]) (simp add: pending_ok_def send_segment(1))
  ultimately show ?thesis
    using inv send_segment(1) t forgery_mono unfolding net_inv_def by auto
next
  case (deliver d)
  then show ?thesis using inv by (auto simp: net_inv_def pending_ok_def run_outs_append)
qed

lemma net_inv_reach:
  assumes "aesgcm_spec (te_enc env) dec" "net_reach env args kid dec \<lparr>sw_key = key\<rparr> strict m s t"
    and "net_inv dec key args strict kid w s"
  shows "net_inv dec key args strict kid w t"
  using assms(2,3) by (induction rule: net_reach.induct) (auto intro: net_inv_step [OF assms(1)])

section \<open>Frames that are shown\<close>

lemma accepted_genuine:
  assumes "accepts dec sw kid d h p" "\<not> forgery dec sw sent d"
    and "\<And>dg. dg \<in> set sent \<Longrightarrow> \<exists>h. sent_ok dec sw args fs h dg"
  shows "genuine args fs h p"
proof -
  obtain dg ct tag aad n where d: "dg \<in> set sent" "build_datagram h ct tag = Inr dg" "pack_header h = Inr aad"
    "tx_nonce (nonce_counter h) = Inr n" "sw_decrypt dec sw n aad ct tag = Inr p"
    using accepted_sent [OF assms(1,2)] by metis
  with assms(3) obtain h' ct' tag' aad' n' p' where s: "build_datagram h' ct' tag' = Inr dg" "pack_header h' = Inr aad'"
    "tx_nonce (nonce_counter h') = Inr n'" "sw_decrypt dec sw n' aad' ct' tag' = Inr p'" "genuine args fs h' p'"
    unfolding sent_ok_def by blast
  have "h' = h" "ct' = ct" "tag' = tag" using split_build [OF d(2)] split_build [OF s(1)] by simp_all
  then show ?thesis using d s by simp
qed

lemma net_history:
  assumes "net_inv dec key args strict kid w s" "rx_history dec \<lparr>sw_key = key\<rparr> kid (ns_got s) H r" "hp \<in> set H"
  shows "genuine args (ns_frames s) (fst hp) (snd hp)"
proof -
  obtain d where "d \<in> set (ns_got s)" "accepts dec \<lparr>sw_key = key\<rparr> kid d (fst hp) (snd hp)"
    using assms(2,3) by (auto simp: rx_history_def)
  then show ?thesis using accepted_genuine [of dec "\<lparr>sw_key = key\<rparr>" kid d] assms(1) by (auto simp: net_inv_def)
qed

lemma segment_frame_whole: "segment_frame f sb = Inr segs \<Longrightarrow> segs \<noteq> [] \<Longrightarrow> concat segs = f"
  using segment_frame_concat [of sb f segs] by (auto simp: segment_frame_def split: if_splits)

text \<open>The segments of one key, each at its place, make up the frame with that number.\<close>

lemma genuine_frame:
  assumes n: "0 < n" and F: "\<And>i. i \<in> {0..<n} \<Longrightarrow> \<exists>h. genuine args fs h (F i) \<and> header_key h = k \<and> segment_count h = n \<and> segment_id h = i"
  shows "nat (snd (snd k)) < length fs \<and> concat (map F [0..n - 1]) = fs ! nat (snd (snd k))"
proof -
  let ?j = "nat (snd (snd k))"
  have g: "\<exists>segs. ?j < length fs \<and> segment_frame (fs ! ?j) (txa_segment_bytes args) = Inr segs \<and> n = int (length segs) \<and>
      F i = segs ! nat i" if "i \<in> {0..<n}" for i
    using F [OF that] unfolding genuine_def by auto
  obtain segs where s: "?j < length fs" "segment_frame (fs ! ?j) (txa_segment_bytes args) = Inr segs" "n = int (length segs)"
    using g [of 0] n by auto
  have "F (int i) = segs ! i" if "i < length segs" for i
    using g [of "int i"] s that by auto
  then have "map F [0..n - 1] = segs" by (intro nth_equalityI) (simp_all add: s(3) nth_upto)
  moreover have "segs \<noteq> []" using s(3) n by auto
  ultimately show ?thesis using s(1) segment_frame_whole [OF s(2)] by simp
qed

lemma net_shows_sent:
  assumes inv: "net_inv dec key args strict kid w s" and f: "f \<in> set (rx_shown (ns_rx s))"
  shows "f \<in> set (ns_frames s)"
proof -
  obtain H where H: "rx_history dec \<lparr>sw_key = key\<rparr> kid (ns_got s) H (ns_rx s)"
    using rx_run_history [of dec "\<lparr>sw_key = key\<rparr>" kid "ns_got s" strict strict w] inv by (auto simp: net_inv_def)
  with f have "f \<in> set (shown_frames (fst (run_outs push_packet (reassembler_init 8) H)))" by (simp add: rx_history_def)
  from shown_provenance [OF this] obtain F k n where F: "0 < n" "f = concat (map F [0..n - 1])"
    "\<forall>i \<in> {0..<n}. \<exists>h. (h, F i) \<in> set H \<and> header_key h = k \<and> segment_count h = n \<and> segment_id h = i" by blast
  have "\<exists>h. genuine args (ns_frames s) h (F i) \<and> header_key h = k \<and> segment_count h = n \<and> segment_id h = i"
    if "i \<in> {0..<n}" for i
    using F(3) that net_history [OF inv H] by fastforce
  from genuine_frame [OF F(1) this] show ?thesis unfolding F(2) by auto
qed

section \<open>Order in strict mode\<close>

definition before :: "packet_header \<Rightarrow> packet_header \<Rightarrow> bool" where
  "before h h' \<longleftrightarrow> frame_id h < frame_id h' \<or> frame_id h = frame_id h' \<and> segment_id h < segment_id h'"

text \<open>
  The headers sent so far, in order: their nonces count from one, their places in the stream increase, and all of
  them lie before what is pending.
\<close>

definition net_order :: "tx_args \<Rightarrow> 'd net \<Rightarrow> packet_header list \<Rightarrow> nat \<Rightarrow> bool" where
  "net_order args s hs i \<longleftrightarrow>
     list_all2 (\<lambda>h dg. \<exists>ct tag. build_datagram h ct tag = Inr dg) hs (tx_sent (ns_tx s)) \<and>
     map nonce_counter hs = map (\<lambda>j. int j + 1) [0..<length hs] \<and> sorted_wrt before hs \<and>
     pending_ok args s i \<and>
     (\<forall>h \<in> set hs. frame_id h < int (length (ns_frames s)) - 1 \<or>
        frame_id h = int (length (ns_frames s)) - 1 \<and> (ns_pending s \<noteq> [] \<longrightarrow> segment_id h < int i)) \<and>
     nt_max_counter (tx_tracker (ns_tx s)) = 2 ^ 64 - 1 \<and> nt_current (tx_tracker (ns_tx s)) = int (length hs)"

lemma net_order_init: "net_order args (net_init d c strict w) [] 0"
  by (simp add: net_order_def net_init_def tx_start_def pending_ok_def nonce_tracker_init_def)

lemma net_order_start:
  assumes "net_order args s hs i" "ns_pending s = []" "segment_frame frame (txa_segment_bytes args) = Inr segs"
  shows "net_order args (s\<lparr>ns_frames := ns_frames s @ [frame], ns_count := int (length segs), ns_pending := enumerate_i segs\<rparr>) hs 0"
  using assms by (force simp: net_order_def pending_ok_def)

lemma net_order_send:
  assumes spec: "aesgcm_spec (te_enc env) dec" and sw: "sw_ready key (tx_crypto (ns_tx s))"
    and ord: "net_order args s hs i" and p: "ns_pending s = x # xs"
    and t: "tx_segment env args kid (int (length (ns_frames s)) - 1) (ns_count s) x (ns_tx s) = Some (Inr (), t)"
    and small: "int (length (tx_sent t)) < 2 ^ 64"
  shows "\<exists>h. net_order args (s\<lparr>ns_tx := t, ns_pending := xs\<rparr>) (hs @ [h]) (Suc i)"
proof -
  have len: "length hs = length (tx_sent (ns_tx s))" using ord by (auto simp: net_order_def dest: list_all2_lengthD)
  obtain h ct tag dg where u: "tx_sent t = tx_sent (ns_tx s) @ [dg]" "build_datagram h ct tag = Inr dg"
    and h: "h = tx_header args kid (int (length (ns_frames s)) - 1) (fst x) (ns_count s)
          (te_now env (tx_clock_calls (ns_tx s))) (snd x) (fst (next_nonce (tx_tracker (ns_tx s))))"
    and tr: "tx_tracker t = snd (next_nonce (tx_tracker (ns_tx s)))"
    using tx_segment_sealed [OF spec sw, of args kid _ _ "fst x" "snd x" t] t by (metis prod.collapse)
  have nn: "next_nonce (tx_tracker (ns_tx s)) =
      (int (length hs) + 1, (tx_tracker (ns_tx s))\<lparr>nt_current := int (length hs) + 1\<rparr>)"
    using ord small len u(1) by (simp add: next_nonce_def net_order_def Let_def)
  have pk: "pending_ok args s i" using ord by (simp add: net_order_def)
  obtain segs where x: "x = (int i, segs ! i)" and next_ok: "pending_ok args (s\<lparr>ns_tx := t, ns_pending := xs\<rparr>) (Suc i)"
    by (rule pending_ok_send [OF pk p]) (simp add: pending_ok_def)
  have pos: "frame_id h = int (length (ns_frames s)) - 1" "segment_id h = int i" "nonce_counter h = int (length hs) + 1"
    by (simp_all add: h x nn)
  have "before h' h" if "h' \<in> set hs" for h'
    using ord that p pos unfolding net_order_def before_def by auto
  with ord u pos next_ok p nn tr show ?thesis
    by (intro exI [of _ h]) (auto simp: net_order_def sorted_wrt_append intro!: list_all2_appendI)
qed

lemma sent_mono: "net_step env args kid dec sw strict m s t \<Longrightarrow> aesgcm_spec (te_enc env) dec \<Longrightarrow>
    sw_ready key (tx_crypto (ns_tx s)) \<Longrightarrow> length (tx_sent (ns_tx s)) \<le> length (tx_sent (ns_tx t))"
  by (erule net_step.cases) (auto elim!: tx_segment_sealed)

lemma net_order_reach:
  assumes spec: "aesgcm_spec (te_enc env) dec" and r: "net_reach env args kid dec \<lparr>sw_key = key\<rparr> strict m (net_init d c strict w) t"
    and c: "sw_ready key c"
  shows "int (length (tx_sent (ns_tx t))) < 2 ^ 64 \<Longrightarrow> \<exists>hs i. net_order args t hs i"
  using r
proof (induction rule: net_reach.induct)
  case at_start
  show ?case by (intro exI) (rule net_order_init)
next
  case (one_more t u)
  have "net_inv dec key args strict kid w t"
    using net_inv_reach [OF spec one_more.hyps(1) net_inv_init [OF c]] .
  then have sw: "sw_ready key (tx_crypto (ns_tx t))" by (simp add: net_inv_def)
  have "length (tx_sent (ns_tx t)) \<le> length (tx_sent (ns_tx u))" using sent_mono [OF one_more.hyps(2) spec sw] .
  then obtain hs i where ord: "net_order args t hs i" using one_more.IH one_more.prems by force
  show ?case
    using one_more.hyps(2)
  proof cases
    case (start_frame frame segs)
    then show ?thesis using net_order_start [OF ord] by blast
  next
    case (send_segment x xs v)
    from one_more.prems have "int (length (tx_sent v)) < 2 ^ 64" by (simp add: send_segment(1))
    from net_order_send [OF spec sw ord send_segment(2,3) this] show ?thesis unfolding send_segment(1) by blast
  next
    case (deliver dg)
    then show ?thesis using ord unfolding net_order_def pending_ok_def by auto
  qed
qed

lemma net_order_before:
  assumes ord: "net_order args s hs i" and h: "h \<in> set hs" "h' \<in> set hs" and lt: "nonce_counter h < nonce_counter h'"
  shows "before h h'"
proof -
  obtain j j' where j: "j < length hs" "h = hs ! j" "j' < length hs" "h' = hs ! j'" using h by (auto simp: in_set_conv_nth)
  have "nonce_counter (hs ! k) = int k + 1" if "k < length hs" for k
    using ord that by (metis (no_types, lifting) net_order_def length_map map_nth nth_map nth_upt add_0 diff_zero length_upt)
  with lt j have "j < j'" by simp
  then show ?thesis using ord j by (simp add: net_order_def sorted_wrt_nth_less)
qed

lemma net_order_accepted:
  assumes "net_order args s hs i" "accepts dec sw kid d h p" "\<not> forgery dec sw (tx_sent (ns_tx s)) d"
  shows "h \<in> set hs"
proof -
  obtain dg ct tag where d: "dg \<in> set (tx_sent (ns_tx s))" "build_datagram h ct tag = Inr dg"
    using accepted_sent [OF assms(2,3)] by metis
  then obtain j where "j < length hs" "\<exists>ct tag. build_datagram (hs ! j) ct tag = Inr dg"
    using assms(1) by (auto simp: net_order_def list_all2_conv_all_nth in_set_conv_nth)
  moreover from this have "hs ! j = h" using split_build [OF d(2)] split_build by fastforce
  ultimately show ?thesis by auto
qed

text \<open>
  A list of genuine packets whose places increase is reassembled into frames with increasing numbers: the packet that
  completes a frame is its only copy, so no frame is completed twice.
\<close>

definition done_in :: "tx_args \<Rightarrow> bytes list \<Rightarrow> (packet_header \<times> bytes) list \<Rightarrow> nat \<Rightarrow> bool" where
  "done_in args fs H k \<longleftrightarrow> (\<exists>hp \<in> set H. frame_id (fst hp) = int k) \<and>
     (\<forall>h p. genuine args fs h p \<longrightarrow> frame_id h = int k \<longrightarrow>
        (\<exists>hp \<in> set H. frame_id (fst hp) = int k \<and> segment_id (fst hp) = segment_id h))"

lemma genuine_place:
  assumes "genuine args fs h p" "genuine args fs h' p'" "frame_id h = frame_id h'"
  shows "header_key h = header_key h' \<and> segment_count h = segment_count h' \<and> segment_id h \<in> {0..<segment_count h}"
  using assms by (auto simp: genuine_def header_key_def)

lemma completes_frame:
  assumes g: "\<And>hp. hp \<in> set (H @ [(h, p)]) \<Longrightarrow> genuine args fs (fst hp) (snd hp)"
    and f: "fst (push_packet (snd (run_outs push_packet (reassembler_init 8) H)) (h, p)) = Inr (Some f)"
  shows "\<exists>k < length fs. frame_id h = int k \<and> f = fs ! k \<and> done_in args fs (H @ [(h, p)]) k"
proof -
  have gh: "genuine args fs h p" using g [of "(h, p)"] by simp
  then obtain k where k: "k < length fs" "frame_id h = int k" by (auto simp: genuine_def header_key_def)
  have "fst (run_outs push_packet (reassembler_init 8) (H @ [(h, p)])) ! length H = Inr (Some f)"
    using f by (simp add: run_outs_append nth_append)
  from push_provenance [OF _ this] obtain F where F: "0 < segment_count h" "f = concat (map F [0..segment_count h - 1])"
    "\<forall>i \<in> {0..<segment_count h}. \<exists>h'. (h', F i) \<in> set (H @ [(h, p)]) \<and>
       header_key h' = header_key h \<and> segment_count h' = segment_count h \<and> segment_id h' = i" by auto
  have "\<exists>h'. genuine args fs h' (F i) \<and> header_key h' = header_key h \<and> segment_count h' = segment_count h \<and> segment_id h' = i"
    if "i \<in> {0..<segment_count h}" for i
  proof -
    from bspec [OF F(3) that] obtain h' where "(h', F i) \<in> set (H @ [(h, p)])" "header_key h' = header_key h"
      "segment_count h' = segment_count h" "segment_id h' = i" by (elim exE conjE)
    with g [OF this(1)] show ?thesis by auto
  qed
  from genuine_frame [OF F(1) this] have "f = fs ! k" unfolding F(2) by (simp add: header_key_def k)
  moreover have "done_in args fs (H @ [(h, p)]) k"
    unfolding done_in_def
  proof (intro conjI allI impI)
    show "\<exists>hp \<in> set (H @ [(h, p)]). frame_id (fst hp) = int k" using k(2) by simp
    fix h' p' assume h': "genuine args fs h' p'" "frame_id h' = int k"
    then have "segment_id h' \<in> {0..<segment_count h}" using genuine_place [OF h'(1) gh] k(2) by simp
    from bspec [OF F(3) this] obtain h2 where "(h2, F (segment_id h')) \<in> set (H @ [(h, p)])"
      "header_key h2 = header_key h" "segment_id h2 = segment_id h'" by (elim exE conjE)
    then show "\<exists>hp \<in> set (H @ [(h, p)]). frame_id (fst hp) = int k \<and> segment_id (fst hp) = segment_id h'"
      using k(2) unfolding header_key_def by (intro bexI [of _ "(h2, F (segment_id h'))"]) simp_all
  qed
  ultimately show ?thesis using k by blast
qed

lemma done_earlier:
  assumes bef: "\<And>hp'. hp' \<in> set H \<Longrightarrow> before (fst hp') (fst hp)" and d: "done_in args fs H k'"
    and hp: "genuine args fs (fst hp) (snd hp)" "frame_id (fst hp) = int k"
  shows "k' < k"
proof (rule ccontr)
  assume "\<not> k' < k"
  then have "k' = k" using bef d hp(2) unfolding done_in_def before_def by force
  with d hp obtain hp' where "hp' \<in> set H" "frame_id (fst hp') = frame_id (fst hp)"
    "segment_id (fst hp') = segment_id (fst hp)" unfolding done_in_def by force
  with bef show False by (fastforce simp: before_def)
qed

lemma ordered_shown:
  assumes "\<And>hp. hp \<in> set H \<Longrightarrow> genuine args fs (fst hp) (snd hp)" and "sorted_wrt before (map fst H)"
  shows "\<exists>ks. shown_frames (fst (run_outs push_packet (reassembler_init 8) H)) = map ((!) fs) ks \<and> sorted_wrt (<) ks \<and>
     (\<forall>k \<in> set ks. k < length fs \<and> done_in args fs H k)"
  using assms
proof (induction H rule: rev_induct)
  case Nil
  show ?case by (intro exI [of _ "[]"]) (simp add: shown_frames_def)
next
  case (snoc hp H)
  let ?run = "run_outs push_packet (reassembler_init 8)"
  obtain ks where ks: "shown_frames (fst (?run H)) = map ((!) fs) ks" "sorted_wrt (<) ks"
    "\<forall>k \<in> set ks. k < length fs \<and> done_in args fs H k"
    using snoc.IH snoc.prems(1) snoc.prems(2) unfolding map_append sorted_wrt_append set_append by blast
  have later: "done_in args fs H k \<Longrightarrow> done_in args fs (H @ [hp]) k" for k unfolding done_in_def set_append by blast
  show ?case
  proof (cases "\<exists>f. fst (push_packet (snd (?run H)) hp) = Inr (Some f)")
    case False
    then have "shown_frames (fst (?run (H @ [hp]))) = map ((!) fs) ks"
      using ks(1) by (auto simp: run_outs_append split: sum.splits option.splits)
    with ks(2,3) later show ?thesis by (intro exI [of _ ks]) blast
  next
    case True
    then obtain f where f: "fst (push_packet (snd (?run H)) hp) = Inr (Some f)" ..
    obtain k where k: "k < length fs" "frame_id (fst hp) = int k" "f = fs ! k" "done_in args fs (H @ [hp]) k"
      using completes_frame [of H "fst hp" "snd hp" args fs f] snoc.prems(1) f by auto
    have "before (fst hp') (fst hp)" if "hp' \<in> set H" for hp'
      using snoc.prems(2) that by (simp add: sorted_wrt_append)
    then have "k' < k" if "k' \<in> set ks" for k'
      using done_earlier [of H hp args fs k' k] ks(3) that snoc.prems(1) [of hp] k(2) by simp
    moreover have "shown_frames (fst (?run (H @ [hp]))) = map ((!) fs) (ks @ [k])"
      using ks(1) f k(3) by (simp add: run_outs_append)
    ultimately show ?thesis
      using ks(2,3) k later by (intro exI [of _ "ks @ [k]"]) (auto simp: sorted_wrt_append)
  qed
qed

lemma subseq_nth_take:
  assumes "sorted_wrt (<) ks" "\<forall>k \<in> set ks. k < n" "n \<le> length xs"
  shows "subseq (map ((!) xs) ks) (take n xs)"
  using assms
proof (induction ks arbitrary: n rule: rev_induct)
  case (snoc k ks)
  then have "subseq (map ((!) xs) ks) (take k xs)" by (auto simp: sorted_wrt_append)
  then have "subseq (map ((!) xs) ks @ [xs ! k]) (take k xs @ [xs ! k])" by (simp add: list_emb_append_mono)
  also have "take k xs @ [xs ! k] = take (Suc k) xs" using snoc.prems by (simp add: take_Suc_conv_app_nth)
  also have "subseq (take (Suc k) xs) (take n xs)"
    using snoc.prems take_is_prefix [of "Suc k" "take n xs"] by (auto simp: min_def intro: prefix_imp_subseq)
  finally show ?case by simp
qed simp

lemma net_strict_order:
  assumes inv: "net_inv dec key args True kid w s" and ord: "net_order args s hs i"
  shows "subseq (rx_shown (ns_rx s)) (ns_frames s)"
proof -
  have rx: "ns_rx s = rx_run dec \<lparr>sw_key = key\<rparr> True kid (rx_init True w) (ns_got s)"
    and unforged: "\<forall>d \<in> set (ns_got s). \<not> forgery dec \<lparr>sw_key = key\<rparr> (tx_sent (ns_tx s)) d"
    using inv by (simp_all add: net_inv_def)
  obtain H where H: "rx_history dec \<lparr>sw_key = key\<rparr> kid (ns_got s) H (ns_rx s)"
    and S: "sorted_wrt (<) (map (nonce_counter \<circ> fst) H)"
    using rx_strict_history [of dec "\<lparr>sw_key = key\<rparr>" kid "ns_got s" w] unfolding rx strict_history_def by blast
  have sent: "fst hp \<in> set hs" if "hp \<in> set H" for hp
    using that H unforged net_order_accepted [OF ord] unfolding rx_history_def by fastforce
  have "sorted_wrt before (map fst H)"
    using S unfolding sorted_wrt_map comp_def
    by (rule sorted_wrt_mono_rel [rotated]) (blast intro: net_order_before [OF ord] sent)
  from ordered_shown [OF net_history [OF inv H] this] obtain ks where
    "rx_shown (ns_rx s) = map ((!) (ns_frames s)) ks" "sorted_wrt (<) ks" "\<forall>k \<in> set ks. k < length (ns_frames s)"
    using H by (auto simp: rx_history_def)
  with subseq_nth_take [of ks "length (ns_frames s)" "ns_frames s"] show ?thesis by simp
qed

section \<open>Honest runs\<close>

text \<open>
  The sender's own loop is among the steps: a frame sent by \<open>tx_frame\<close> is a start followed by one step per
  segment, and a datagram that was sent can always be delivered.
\<close>

lemma net_reach_trans:
  "net_reach env args kid dec sw strict m t u \<Longrightarrow> net_reach env args kid dec sw strict m s t \<Longrightarrow>
     net_reach env args kid dec sw strict m s u"
  by (induction rule: net_reach.induct) (auto intro: net_reach.intros)

lemma net_sends_segments:
  assumes "tx_segments env args kid (int (length (ns_frames s)) - 1) (ns_count s) (ns_pending s) (ns_tx s) = Some (Inr (), t)"
  shows "net_reach env args kid dec sw strict m s (s\<lparr>ns_tx := t, ns_pending := []\<rparr>)"
  using assms
proof (induction "ns_pending s" arbitrary: s)
  case Nil
  then have "s\<lparr>ns_tx := t, ns_pending := []\<rparr> = s" by simp
  then show ?case using net_reach.at_start [of env args kid dec sw strict m s] by simp
next
  case (Cons x xs)
  from Cons.prems Cons.hyps(2) [symmetric] obtain u where
    u: "tx_segment env args kid (int (length (ns_frames s)) - 1) (ns_count s) x (ns_tx s) = Some (Inr (), u)"
    "tx_segments env args kid (int (length (ns_frames s)) - 1) (ns_count s) xs u = Some (Inr (), t)"
    by (auto split: option.splits sum.splits prod.splits)
  let ?s = "s\<lparr>ns_tx := u, ns_pending := xs\<rparr>"
  have "net_reach env args kid dec sw strict m s ?s"
    using net_reach.one_more [OF net_reach.at_start net_step.send_segment [OF Cons.hyps(2) [symmetric] u(1)]] .
  moreover have "net_reach env args kid dec sw strict m ?s (?s\<lparr>ns_tx := t, ns_pending := []\<rparr>)"
    by (rule Cons.hyps(1)) (use u(2) in simp_all)
  ultimately show ?case using net_reach_trans by fastforce
qed

lemma net_sends_frame:
  assumes "ns_pending s = []" "tx_frame env args kid (int (length (ns_frames s))) frame (ns_tx s) = Some (Inr (), t)"
  shows "\<exists>n. net_reach env args kid dec sw strict m s (s\<lparr>ns_frames := ns_frames s @ [frame], ns_count := n, ns_tx := t\<rparr>)"
proof -
  obtain segs where segs: "segment_frame frame (txa_segment_bytes args) = Inr segs"
    and send: "tx_segments env args kid (int (length (ns_frames s))) (int (length segs)) (enumerate_i segs) (ns_tx s) = Some (Inr (), t)"
    using assms(2) by (auto simp: tx_frame_def split: sum.splits)
  let ?s = "s\<lparr>ns_frames := ns_frames s @ [frame], ns_count := int (length segs), ns_pending := enumerate_i segs\<rparr>"
  have "net_reach env args kid dec sw strict m s ?s"
    using net_reach.one_more [OF net_reach.at_start net_step.start_frame [OF assms(1) segs]] .
  moreover have "net_reach env args kid dec sw strict m ?s (?s\<lparr>ns_tx := t, ns_pending := []\<rparr>)"
    by (rule net_sends_segments) (use send in simp)
  moreover have "?s\<lparr>ns_tx := t, ns_pending := []\<rparr> = s\<lparr>ns_frames := ns_frames s @ [frame], ns_count := int (length segs), ns_tx := t\<rparr>"
    using assms(1) by simp
  ultimately show ?thesis using net_reach_trans by metis
qed

section \<open>Properties\<close>

text \<open>
  C4. Authenticity on a hostile network. In every state that sender, attacker and receiver can reach together, in any
  interleaving of sending with deliveries of arbitrary datagrams other than forgeries, in the strict and in the default
  mode: every frame the receiver has shown is, byte for byte, a frame the sender was given.
\<close>

theorem network_shows_sent_frames:
  assumes "aesgcm_spec (te_enc env) dec" and "sw_ready key c"
    and "net_reach env args kid dec \<lparr>sw_key = key\<rparr> strict m (net_init d c strict w) s"
  shows "set (rx_shown (ns_rx s)) \<subseteq> set (ns_frames s)"
  using net_shows_sent [OF net_inv_reach [OF assms(1,3) net_inv_init [OF assms(2)]]] by blast

definition demo_adapter :: crypto_adapter where
  "demo_adapter = (crypto_adapter_init ''aesgcm'' demo_hex [])\<lparr>ca_sw := Some (replicate 32 7)\<rparr>"

definition demo_sent :: "unit tx_state" where
  "demo_sent = (case tx_frame demo_env (demo_tx_args ''synthetic'') 1 0 [5, 6] (tx_start () demo_adapter) of
     Some (_, t) \<Rightarrow> t | None \<Rightarrow> tx_start () demo_adapter)"

definition demo_packet_sent :: bytes where
  "demo_packet_sent = hd (tx_sent demo_sent)"

definition demo_shows :: "bool \<Rightarrow> rx_state" where
  "demo_shows strict = snd (rx_step demo_dec demo_sw strict 1 (snd (rx_step demo_dec demo_sw strict 1 (rx_init strict 1024) [79, 86])) demo_packet_sent)"

lemma demo_sends: "tx_frame demo_env (demo_tx_args ''synthetic'') 1 0 [5, 6] (tx_start () demo_adapter) = Some (Inr (), demo_sent)"
proof -
  have "case tx_frame demo_env (demo_tx_args ''synthetic'') 1 0 [5, 6] (tx_start () demo_adapter) of
      Some (Inr _, _) \<Rightarrow> True | _ \<Rightarrow> False" by code_simp
  then show ?thesis by (auto simp: demo_sent_def split: option.splits sum.splits prod.splits)
qed

lemma demo_ready: "sw_ready (replicate 32 7) demo_adapter"
  by (simp add: sw_ready_def demo_adapter_def crypto_adapter_init_def)

lemma demo_deliveries:
  "\<not> forgery demo_dec demo_sw (tx_sent demo_sent) [79, 86]" "\<not> forgery demo_dec demo_sw (tx_sent demo_sent) demo_packet_sent"
  "rx_completed (snd (rx_step demo_dec demo_sw strict 1 (rx_init strict 1024) [79, 86])) < 5"
  "rx_completed (rx_init strict 1024) < 5" "rx_shown (demo_shows strict) = [[5, 6]]" "length (tx_sent demo_sent) = 1"
proof -
  show "\<not> forgery demo_dec demo_sw (tx_sent demo_sent) [79, 86]" by code_simp
  show "\<not> forgery demo_dec demo_sw (tx_sent demo_sent) demo_packet_sent" by code_simp
  show "rx_completed (snd (rx_step demo_dec demo_sw strict 1 (rx_init strict 1024) [79, 86])) < 5"
  proof -
    have "list_all (\<lambda>strict. rx_completed (snd (rx_step demo_dec demo_sw strict 1 (rx_init strict 1024) [79, 86])) < 5) [True, False]"
      by code_simp
    then show ?thesis by (cases strict) simp_all
  qed
  show "rx_completed (rx_init strict 1024) < 5" by (simp add: rx_init_def)
  show "rx_shown (demo_shows strict) = [[5, 6]]"
  proof -
    have "list_all (\<lambda>strict. rx_shown (demo_shows strict) = [[5, 6]]) [True, False]" by code_simp
    then show ?thesis by (cases strict) simp_all
  qed
  show "length (tx_sent demo_sent) = 1" by code_simp
qed

text \<open>One frame is sent, the attacker delivers two bytes of its own and then the datagram.\<close>

lemma demo_reach:
  "\<exists>n. net_reach demo_env (demo_tx_args ''synthetic'') 1 demo_dec demo_sw strict 5 (net_init () demo_adapter strict 1024)
     \<lparr>ns_tx = demo_sent, ns_frames = [[5, 6]], ns_count = n, ns_pending = [], ns_rx = demo_shows strict,
      ns_got = [[79, 86], demo_packet_sent]\<rparr>"
proof -
  let ?reach = "net_reach demo_env (demo_tx_args ''synthetic'') 1 demo_dec demo_sw strict 5 (net_init () demo_adapter strict 1024)"
  have "\<exists>n. ?reach ((net_init () demo_adapter strict 1024)\<lparr>ns_frames := [[5, 6]], ns_count := n, ns_tx := demo_sent\<rparr>)"
    using net_sends_frame [of "net_init () demo_adapter strict 1024" demo_env "demo_tx_args ''synthetic''" 1 "[5, 6]" demo_sent]
      demo_sends by (simp add: net_init_def)
  then obtain n where "?reach ((net_init () demo_adapter strict 1024)\<lparr>ns_frames := [[5, 6]], ns_count := n, ns_tx := demo_sent\<rparr>)" ..
  from net_reach.one_more [OF net_reach.one_more [OF this net_step.deliver [where d = "[79, 86]"]]
      net_step.deliver [where d = demo_packet_sent]]
  show ?thesis using demo_deliveries by (auto simp: net_init_def demo_shows_def)
qed

theorem network_shows_sent_frames_witness:
  "\<exists>s. net_reach demo_env (demo_tx_args ''synthetic'') 1 demo_dec demo_sw False 5 (net_init () demo_adapter False 1024) s \<and>
     rx_shown (ns_rx s) = [[5, 6]] \<and> set (rx_shown (ns_rx s)) \<subseteq> set (ns_frames s)"
proof -
  obtain s where s: "net_reach demo_env (demo_tx_args ''synthetic'') 1 demo_dec demo_sw False 5 (net_init () demo_adapter False 1024) s"
    "rx_shown (ns_rx s) = [[5, 6]]"
    using demo_reach [of False] demo_deliveries(5) by force
  from network_shows_sent_frames [of demo_env demo_dec, OF _ demo_ready s(1) [unfolded demo_sw_def]]
  show ?thesis using s demo_aesgcm_spec by (auto simp: demo_env_def)
qed

text \<open>
  C5. Order on a hostile network. With \<^verbatim>\<open>--strict-nonce\<close> the frames shown are a subsequence of the frames sent: whatever
  the attacker replays, reorders, drops or invents, the receiver shows frames in the order they were sent and
  none of them twice. The bound on the number of datagrams is the point where the sender's counter
  starts again.
\<close>

theorem network_strict_in_order:
  assumes "aesgcm_spec (te_enc env) dec" and "sw_ready key c"
    and "net_reach env args kid dec \<lparr>sw_key = key\<rparr> True m (net_init d c True w) s"
    and "int (length (tx_sent (ns_tx s))) < 2 ^ 64"
  shows "subseq (rx_shown (ns_rx s)) (ns_frames s)"
proof -
  obtain hs i where "net_order args s hs i" using net_order_reach [OF assms(1,3,2,4)] by blast
  then show ?thesis
    by (rule net_strict_order [OF net_inv_reach [OF assms(1,3) net_inv_init [OF assms(2)]]])
qed

theorem network_strict_in_order_witness:
  "\<exists>s. net_reach demo_env (demo_tx_args ''synthetic'') 1 demo_dec demo_sw True 5 (net_init () demo_adapter True 1024) s \<and>
     rx_shown (ns_rx s) = [[5, 6]] \<and> subseq (rx_shown (ns_rx s)) (ns_frames s)"
proof -
  obtain s where s: "net_reach demo_env (demo_tx_args ''synthetic'') 1 demo_dec demo_sw True 5 (net_init () demo_adapter True 1024) s"
    "rx_shown (ns_rx s) = [[5, 6]]" "ns_tx s = demo_sent"
    using demo_reach [of True] demo_deliveries(5) by force
  from network_strict_in_order [of demo_env demo_dec, OF _ demo_ready s(1) [unfolded demo_sw_def]]
  show ?thesis using s demo_aesgcm_spec demo_deliveries(6) by (auto simp: demo_env_def)
qed

end
