(* ===== verification/Startup.thy ===== *)
theory Startup
  imports Board_Import
begin

text \<open>
  What the sender and the receiver do before \<^verbatim>\<open>main\<close>: the module bodies of \<^verbatim>\<open>pynq/runtime/main.py\<close> and
  \<^verbatim>\<open>pc/runtime/main_rx.py\<close>. They import the protocol, put the directory of \<^verbatim>\<open>config_loader.py\<close> in front of \<^verbatim>\<open>sys.path\<close>,
  import the loader and then their sibling modules, as members of a package or, after an \<^verbatim>\<open>ImportError\<close>, as plain modules.

  Importing a file of the repository runs the import statements at the top of that file in turn; the statements of
  the ten files involved are listed here. Imports of the standard library always succeed and are left out; a package
  outside the repository (\<^verbatim>\<open>yaml\<close>) is the parameter \<open>pf_module\<close> of \<open>Board_Import\<close>. The package the program runs in is an \<open>option\<close>:
  \<open>None\<close> when the file itself is run.
\<close>

section \<open>Imports\<close>

text \<open>
  \<^verbatim>\<open>from package.name import attrs\<close> with or without a package, and \<^verbatim>\<open>from .name import attrs\<close>; a file has its import
  statements and the names it defines.
\<close>

datatype import_stmt =
    From "string option" string "string list"
  | FromRel string "string list"

record source_file =
  sf_imports :: "import_stmt list"
  sf_names :: "string list"

record source_files = py_files +
  pf_source :: "string \<Rightarrow> string \<Rightarrow> source_file option"
  pf_package :: "string \<Rightarrow> string list"

text \<open>The interpreter: \<^verbatim>\<open>sys.path\<close> and the loaded modules by package and name.\<close>

record importer =
  im_path :: "string list"
  im_modules :: "((string option \<times> string) \<times> py_module) list"

datatype found = Outside "py_module result" | Source source_file

fun find_file :: "source_files \<Rightarrow> string \<Rightarrow> string list \<Rightarrow> found option" where
  "find_file fs name [] = None"
| "find_file fs name (dir # dirs) =
     (case pf_source fs dir name of
        Some s \<Rightarrow> Some (Source s)
      | None \<Rightarrow> (case pf_module fs dir name of Some r \<Rightarrow> Some (Outside r) | None \<Rightarrow> find_file fs name dirs))"








section \<open>The files\<close>












section \<open>The configuration loader\<close>

definition config_loader_candidates :: "source_files \<Rightarrow> posix_path \<Rightarrow> posix_path list" where
  "config_loader_candidates fs file =
     [path_sub (path_parent (path_parent (path_parent file))) [''config_loader.py''],
      path_sub (pf_cwd fs) [''config_loader.py'']]"

definition add_config_dir :: "source_files \<Rightarrow> posix_path \<Rightarrow> importer \<Rightarrow> importer" where
  "add_config_dir fs file st =
     (case List.find (pf_exists fs) (config_loader_candidates fs file) of
        None \<Rightarrow> st
      | Some c \<Rightarrow> st\<lparr>im_path := path_str (path_parent c) # im_path st\<rparr>)"


section \<open>The two programs\<close>









section \<open>What each phase loads\<close>
























section \<open>Properties\<close>

text \<open>
  An existing \<^verbatim>\<open>config_loader.py\<close> at the top of the repository, or else in the working directory, decides: its directory is
  first on \<^verbatim>\<open>sys.path\<close> and its file is the one that is found, whatever other directories hold.
\<close>

lemma config_loader_found:
  assumes "List.find (pf_exists fs) (config_loader_candidates fs file) = Some c"
    and "pf_source fs (path_str (path_parent c)) ''config_loader'' = Some s"
  shows "find_file fs ''config_loader'' (im_path (add_config_dir fs file st)) = Some (Source s)"
  using assms by (simp add: add_config_dir_def)






end
