(* ===== verification/Tx_Pacing.thy ===== *)
theory Tx_Pacing
  imports End_To_End Complex_Main
begin

text \<open>
  The pace of the sender in \<^verbatim>\<open>pynq/runtime/main.py\<close>: after a frame \<^verbatim>\<open>run_tx\<close> sleeps for what is left of the frame interval.
  The loops of \<open>Tx_Main\<close> are repeated here with the readings of \<^verbatim>\<open>time.perf_counter\<close>; forgetting the time gives those
  loops back. The time the sending of a frame takes, the time between two frames, and how long a call of
  \<^verbatim>\<open>time.sleep\<close> really takes are parameters.
\<close>

section \<open>The loops with their clock\<close>

record tx_timing =
  tm_between :: "nat \<Rightarrow> rat"
  tm_work :: "nat \<Rightarrow> rat"
  tm_slept :: "nat \<Rightarrow> rat \<Rightarrow> rat"

definition frame_interval_s :: "tx_args \<Rightarrow> rat" where
  "frame_interval_s args = 1 / of_int (max (txa_fps args) 1)"

definition frame_sleep :: "tx_args \<Rightarrow> rat \<Rightarrow> rat option" where
  "frame_sleep args elapsed =
     (let sleep_s = frame_interval_s args - elapsed in if sleep_s > 0 then Some sleep_s else None)"

text \<open>The time after the \<open>k\<close>-th frame, given the reading before its first segment.\<close>

definition frame_end :: "tx_timing \<Rightarrow> tx_args \<Rightarrow> nat \<Rightarrow> rat \<Rightarrow> rat" where
  "frame_end tm args k frame_start =
     (let elapsed = tm_work tm k; now = frame_start + elapsed
      in case frame_sleep args elapsed of None \<Rightarrow> now | Some d \<Rightarrow> now + tm_slept tm k d)"

text \<open>
  The synthetic loop. The third component is the list of the readings \<^verbatim>\<open>frame_start\<close>; a frame that cannot be cut into
  segments raises before its reading.
\<close>

definition start_reading :: "tx_args \<Rightarrow> bytes \<Rightarrow> rat \<Rightarrow> rat list" where
  "start_reading args frame frame_start = (if isl (segment_frame frame (txa_segment_bytes args)) then [] else [frame_start])"

fun tx_frames_paced :: "'d tx_env \<Rightarrow> tx_args \<Rightarrow> int \<Rightarrow> tx_timing \<Rightarrow> nat \<Rightarrow> rat \<Rightarrow> (bytes \<times> int) list \<Rightarrow> 'd tx_state \<Rightarrow>
    (unit result \<times> 'd tx_state) option \<times> rat list" where
  "tx_frames_paced env args kid tm k now [] s = (Some (Inr (), s), [])"
| "tx_frames_paced env args kid tm k now ((frame, fid) # rest) s =
     (let frame_start = now + tm_between tm k
      in case tx_frame env args kid fid frame s of
           None \<Rightarrow> (None, start_reading args frame frame_start)
         | Some (Inl e, s') \<Rightarrow> (Some (Inl e, s'), start_reading args frame frame_start)
         | Some (Inr _, s') \<Rightarrow>
             apsnd ((#) frame_start) (tx_frames_paced env args kid tm (k + 1) (frame_end tm args k frame_start) rest s'))"

fun tx_hdmi_paced :: "'d tx_env \<Rightarrow> tx_args \<Rightarrow> int \<Rightarrow> (nat \<Rightarrow> bytes result) \<Rightarrow> tx_timing \<Rightarrow> rat \<Rightarrow> nat \<Rightarrow> nat \<Rightarrow> 'd tx_state \<Rightarrow>
    (unit result \<times> 'd tx_state) option \<times> rat list" where
  "tx_hdmi_paced env args kid src tm now 0 k s = ((case src k of Inl e \<Rightarrow> Some (Inl e, s) | Inr _ \<Rightarrow> Some (Inr (), s)), [])"
| "tx_hdmi_paced env args kid src tm now (Suc left) k s =
     (case src k of
        Inl e \<Rightarrow> (Some (Inl e, s), [])
      | Inr frame \<Rightarrow>
          let frame_start = now + tm_between tm k
          in case tx_frame env args kid (int k) frame s of
               None \<Rightarrow> (None, start_reading args frame frame_start)
             | Some (Inl e, s') \<Rightarrow> (Some (Inl e, s'), start_reading args frame frame_start)
             | Some (Inr _, s') \<Rightarrow>
                 apsnd ((#) frame_start) (tx_hdmi_paced env args kid src tm (frame_end tm args k frame_start) left (k + 1) s'))"

section \<open>Forgetting the time\<close>

lemma tx_frames_paced_result: "fst (tx_frames_paced env args kid tm k now fs s) = tx_frames env args kid fs s"
  by (induction env args kid fs s arbitrary: k now rule: tx_frames.induct)
    (auto simp: Let_def split: option.splits sum.splits)

lemma tx_hdmi_paced_result: "fst (tx_hdmi_paced env args kid src tm now left k s) = tx_hdmi env args kid src left k s"
  by (induction env args kid src left k s arbitrary: now rule: tx_hdmi.induct)
    (auto simp: Let_def split: option.splits sum.splits)

section \<open>The pace\<close>

text \<open>
  What is relied on: time does not run backwards, and \<^verbatim>\<open>time.sleep\<close> takes at least as long as it was asked to.
\<close>

definition timing_ok :: "tx_timing \<Rightarrow> bool" where
  "timing_ok tm \<longleftrightarrow> (\<forall>k. 0 \<le> tm_between tm k \<and> 0 \<le> tm_work tm k) \<and> (\<forall>k d. 0 < d \<longrightarrow> d \<le> tm_slept tm k d)"

text \<open>Readings that start at \<open>now\<close> or later and keep the interval between neighbours.\<close>

fun paced_from :: "rat \<Rightarrow> rat \<Rightarrow> rat list \<Rightarrow> bool" where
  "paced_from i now [] = True"
| "paced_from i now (t # ts) = (now \<le> t \<and> paced_from i (t + i) ts)"

lemma paced_from_mono: "paced_from i now ts \<Longrightarrow> now' \<le> now \<Longrightarrow> paced_from i now' ts"
  by (cases ts) auto

lemma paced_from_nth: "paced_from i now ts \<Longrightarrow> j < length ts \<Longrightarrow> now + of_nat j * i \<le> ts ! j"
proof (induction ts arbitrary: now j)
  case (Cons t ts)
  then show ?case
  proof (cases j)
    case (Suc j')
    then have "t + i + of_nat j' * i \<le> ts ! j'" using Cons by simp
    then show ?thesis using Cons.prems(1) Suc by (simp add: algebra_simps)
  qed simp
qed simp

lemma paced_from_between: "paced_from d now ts \<Longrightarrow> i \<le> j \<Longrightarrow> j < length ts \<Longrightarrow> ts ! i + of_nat (j - i) * d \<le> ts ! j"
proof (induction ts arbitrary: now i j)
  case (Cons t ts)
  show ?case
  proof (cases i)
    case 0
    then show ?thesis using paced_from_nth [of d t "t # ts" j] Cons.prems by simp
  next
    case (Suc i')
    then show ?thesis using Cons.IH [of "t + d" i' "j - 1"] Cons.prems by (cases j) auto
  qed
qed simp

lemma frame_end_late: "timing_ok tm \<Longrightarrow> frame_start + frame_interval_s args \<le> frame_end tm args k frame_start"
proof -
  assume "timing_ok tm"
  then have "0 < d \<Longrightarrow> d \<le> tm_slept tm k d" for d by (simp add: timing_ok_def)
  from this [of "frame_interval_s args - tm_work tm k"] show ?thesis by (auto simp: frame_end_def frame_sleep_def Let_def)
qed

lemma start_reading_paced: "now \<le> t \<Longrightarrow> paced_from i now (start_reading args frame t)"
  by (simp add: start_reading_def)

lemma tx_frames_paced_from:
  assumes "timing_ok tm"
  shows "paced_from (frame_interval_s args) now (snd (tx_frames_paced env args kid tm k now fs s))"
proof (induction fs arbitrary: k now s)
  case (Cons f fs)
  obtain frame fid where f: "f = (frame, fid)" by (cases f)
  have start: "now \<le> now + tm_between tm k" using assms by (simp add: timing_ok_def)
  have "paced_from (frame_interval_s args) (now + tm_between tm k + frame_interval_s args)
      (snd (tx_frames_paced env args kid tm (k + 1) (frame_end tm args k (now + tm_between tm k)) fs s'))" for s'
    by (rule paced_from_mono [OF Cons.IH frame_end_late [OF assms]])
  then show ?case
    using start start_reading_paced [OF start] by (auto simp: f Let_def split: option.splits sum.splits)
qed simp

lemma tx_hdmi_paced_from:
  assumes "timing_ok tm"
  shows "paced_from (frame_interval_s args) now (snd (tx_hdmi_paced env args kid src tm now left k s))"
proof (induction left arbitrary: k now s)
  case (Suc left)
  have start: "now \<le> now + tm_between tm k" using assms by (simp add: timing_ok_def)
  have "paced_from (frame_interval_s args) (now + tm_between tm k + frame_interval_s args)
      (snd (tx_hdmi_paced env args kid src tm (frame_end tm args k (now + tm_between tm k)) left (k + 1) s'))" for s'
    by (rule paced_from_mono [OF Suc.IH frame_end_late [OF assms]])
  then show ?case
    using start start_reading_paced [OF start] by (auto simp: Let_def split: option.splits sum.splits)
qed simp

section \<open>Properties\<close>

text \<open>
  C19. The pace of the sender. With the clock, the synthetic loop and the HDMI loop send exactly what they send without it, and
  any two frames, the \<open>i\<close>-th and the \<open>j\<close>-th, start at least \<open>j - i\<close> frame intervals apart, whatever sending them
  costs: the sender never exceeds the frame rate it is given, or one frame a second when that is not positive.
\<close>

theorem sender_pace:
  assumes "timing_ok tm" and "starts = snd (tx_frames_paced env args kid tm k now fs s) \<or>
     starts = snd (tx_hdmi_paced env args kid src tm now left k s)" and "i \<le> j" and "j < length starts"
  shows "starts ! i + of_nat (j - i) / of_int (max (txa_fps args) 1) \<le> starts ! j \<and>
     fst (tx_frames_paced env args kid tm k now fs s) = tx_frames env args kid fs s \<and>
     fst (tx_hdmi_paced env args kid src tm now left k s) = tx_hdmi env args kid src left k s"
proof -
  have "paced_from (frame_interval_s args) now starts"
    using assms(2) tx_frames_paced_from [OF assms(1)] tx_hdmi_paced_from [OF assms(1)] by blast
  from paced_from_between [OF this assms(3,4)] show ?thesis
    by (simp add: tx_frames_paced_result tx_hdmi_paced_result frame_interval_s_def)
qed

text \<open>Two frames at 15 frames a second; the first one costs a fiftieth of a second and the second one more than the interval.\<close>

definition demo_timing :: tx_timing where
  "demo_timing = \<lparr>tm_between = \<lambda>_. 0, tm_work = \<lambda>k. if k = 0 then 1 / 50 else 1, tm_slept = \<lambda>_ d. d\<rparr>"

definition demo_paced :: "rat list" where
  "demo_paced = snd (tx_frames_paced demo_env (demo_tx_args ''synthetic'') 1 demo_timing 0 10 [([5, 6], 0), ([7], 1), ([8], 2)]
     (tx_start () ((crypto_adapter_init ''aesgcm'' demo_hex [])\<lparr>ca_sw := Some (replicate 32 7)\<rparr>)))"

theorem sender_pace_witness:
  "demo_paced = [10, 151 / 15, 166 / 15] \<and> demo_paced ! 0 + 2 / 15 \<le> demo_paced ! 2"
proof -
  have s: "demo_paced = [10, 151 / 15, 166 / 15]" by code_simp
  have f: "txa_fps (demo_tx_args ''synthetic'') = 15" by code_simp
  have tm: "timing_ok demo_timing" by (simp add: timing_ok_def demo_timing_def)
  have l: "2 < length demo_paced" unfolding s by simp
  have "demo_paced ! 0 + of_nat (2 - 0) / of_int (max (txa_fps (demo_tx_args ''synthetic'')) 1) \<le> demo_paced ! 2"
    by (rule conjunct1 [OF sender_pace [OF tm disjI1 [OF demo_paced_def] _ l]]) simp
  then show ?thesis unfolding f s by simp
qed

end
