(* ===== verification/Seq_Ctrl.thy ===== *)
theory Seq_Ctrl
  imports Aes_Dma
begin

text \<open>
  \<^verbatim>\<open>pynq/runtime/aes_seq_ctrl.py\<close>: the register interface of the AES session sequencer. The MMIO window
  is the same kind of parameter as in \<open>Aes_Dma\<close>: a register read and write over an arbitrary device
  state. The controller's only own state is \<^verbatim>\<open>_ctrl_enable\<close>, the enable bit that every command repeats.
  The board package is imported as in \<open>Board_Import\<close>.

  The lemmas show the bit layout of the packed register, that key and seed reach their registers whole,
  that commands never change the enable bit, and what a status word decodes to.
\<close>

section \<open>Register map\<close>

definition REG_CTRL :: int where "REG_CTRL = 0x00"
definition REG_STATUS :: int where "REG_STATUS = 0x04"
definition REG_SESSION_ID :: int where "REG_SESSION_ID = 0x08"
definition REG_STREAM_PAYLOAD :: int where "REG_STREAM_PAYLOAD = 0x0C"
definition REG_NONCE_DOMAIN :: int where "REG_NONCE_DOMAIN = 0x10"
definition REG_NONCE_SEED_HI :: int where "REG_NONCE_SEED_HI = 0x14"
definition REG_NONCE_SEED_LO :: int where "REG_NONCE_SEED_LO = 0x18"
definition REG_PAYLOAD_BYTES :: int where "REG_PAYLOAD_BYTES = 0x1C"
definition REG_KEY0 :: int where "REG_KEY0 = 0x20"
definition REG_NONCE_CUR_HI :: int where "REG_NONCE_CUR_HI = 0x40"
definition REG_NONCE_CUR_LO :: int where "REG_NONCE_CUR_LO = 0x44"
definition REG_VIDEO_BEAT_COUNT_HI :: int where "REG_VIDEO_BEAT_COUNT_HI = 0x48"
definition REG_VIDEO_BEAT_COUNT_LO :: int where "REG_VIDEO_BEAT_COUNT_LO = 0x4C"
definition REG_VIDEO_FRAME_COUNT_HI :: int where "REG_VIDEO_FRAME_COUNT_HI = 0x50"
definition REG_VIDEO_FRAME_COUNT_LO :: int where "REG_VIDEO_FRAME_COUNT_LO = 0x54"
definition REG_PREFIFO_BEAT_HI :: int where "REG_PREFIFO_BEAT_HI = 0x58"
definition REG_PREFIFO_BEAT_LO :: int where "REG_PREFIFO_BEAT_LO = 0x5C"
definition REG_TAG0 :: int where "REG_TAG0 = 0x60"
definition REG_TAG1 :: int where "REG_TAG1 = 0x64"
definition REG_TAG2 :: int where "REG_TAG2 = 0x68"
definition REG_TAG3 :: int where "REG_TAG3 = 0x6C"
definition REG_TAG_VALID :: int where "REG_TAG_VALID = 0x70"
definition REG_GHASH0 :: int where "REG_GHASH0 = 0x74"
definition REG_GHASH1 :: int where "REG_GHASH1 = 0x78"
definition REG_GHASH2 :: int where "REG_GHASH2 = 0x7C"
definition REG_GHASH3 :: int where "REG_GHASH3 = 0x80"

definition CTRL_ENABLE :: int where "CTRL_ENABLE = push_bit 0 1"
definition CTRL_LOAD_KEY_REQ :: int where "CTRL_LOAD_KEY_REQ = push_bit 1 1"
definition CTRL_APPLY_NONCE_SEED :: int where "CTRL_APPLY_NONCE_SEED = push_bit 2 1"
definition CTRL_FORCE_KEY_DIRTY :: int where "CTRL_FORCE_KEY_DIRTY = push_bit 3 1"

lemmas seq_regs =
  REG_CTRL_def REG_STATUS_def REG_SESSION_ID_def REG_STREAM_PAYLOAD_def REG_NONCE_DOMAIN_def
  REG_NONCE_SEED_HI_def REG_NONCE_SEED_LO_def REG_PAYLOAD_BYTES_def REG_KEY0_def
  REG_NONCE_CUR_HI_def REG_NONCE_CUR_LO_def REG_TAG0_def REG_TAG1_def REG_TAG2_def REG_TAG3_def
  REG_TAG_VALID_def

section \<open>Operations\<close>

record aes_seq_config =
  sq_session_id :: int
  sq_stream_id :: int
  sq_payload_type :: int
  sq_key_id :: int
  sq_nonce_domain :: int
  sq_nonce_seed :: int
  sq_payload_bytes :: int
  sq_enable :: bool

definition aes_seq_default :: aes_seq_config where
  "aes_seq_default = \<lparr>sq_session_id = 1, sq_stream_id = 1, sq_payload_type = 1, sq_key_id = 1,
     sq_nonce_domain = 1, sq_nonce_seed = 1, sq_payload_bytes = 1200, sq_enable = True\<rparr>"

record seq_controller =
  sc_ctrl_enable :: bool

text \<open>\<^verbatim>\<open>AesSeqController.__init__\<close>: whether the IP is in the overlay is a fact of the board.\<close>

definition seq_controller_init :: "bool \<Rightarrow> py_env \<Rightarrow> seq_controller result" where
  "seq_controller_init ip_present pe =
     (if \<not> ip_present then Inl KeyError
      else bind_r (fst (import_board_seq (pe_files pe) (pe_interp pe))) (\<lambda>_. Inr \<lparr>sc_ctrl_enable = True\<rparr>))"

definition seq_write :: "'d hw \<Rightarrow> int \<Rightarrow> int \<Rightarrow> 'd \<Rightarrow> 'd" where
  "seq_write hw off v d = hw_write hw off (v AND 0xFFFFFFFF) d"

definition seq_read :: "'d hw \<Rightarrow> int \<Rightarrow> 'd \<Rightarrow> int \<times> 'd" where
  "seq_read hw off d = (fst (hw_read hw off d) AND 0xFFFFFFFF, snd (hw_read hw off d))"

definition stream_payload :: "aes_seq_config \<Rightarrow> int" where
  "stream_payload cfg =
     push_bit 24 (sq_key_id cfg AND 0xFF) OR push_bit 16 (sq_payload_type cfg AND 0xFF) OR
     (sq_stream_id cfg AND 0xFFFF)"

definition configure :: "'d hw \<Rightarrow> aes_seq_config \<Rightarrow> seq_controller \<times> 'd \<Rightarrow> seq_controller \<times> 'd" where
  "configure hw cfg s =
     (let d1 = seq_write hw REG_SESSION_ID (sq_session_id cfg) (snd s);
          d2 = seq_write hw REG_STREAM_PAYLOAD (stream_payload cfg) d1;
          d3 = seq_write hw REG_NONCE_DOMAIN (sq_nonce_domain cfg) d2;
          d4 = seq_write hw REG_NONCE_SEED_HI (drop_bit 32 (sq_nonce_seed cfg) AND 0xFFFFFFFF) d3;
          d5 = seq_write hw REG_NONCE_SEED_LO (sq_nonce_seed cfg AND 0xFFFFFFFF) d4;
          d6 = seq_write hw REG_PAYLOAD_BYTES (sq_payload_bytes cfg AND 0xFFFF) d5
      in ((fst s)\<lparr>sc_ctrl_enable := sq_enable cfg\<rparr>,
          seq_write hw REG_CTRL (if sq_enable cfg then CTRL_ENABLE else 0) d6))"

fun write_key_words :: "'d hw \<Rightarrow> int \<Rightarrow> bytes list \<Rightarrow> 'd \<Rightarrow> 'd" where
  "write_key_words hw off [] d = d"
| "write_key_words hw off (w # ws) d =
     write_key_words hw (off + 4) ws (seq_write hw off (from_bytes_be w) d)"

definition set_key_hex :: "'d hw \<Rightarrow> string \<Rightarrow> 'd \<Rightarrow> unit result \<times> 'd" where
  "set_key_hex hw key_hex d =
     (case bytes_fromhex key_hex of
        Inl e \<Rightarrow> (Inl e, d)
      | Inr key \<Rightarrow> if length key \<noteq> 32 then (Inl ValueError, d)
                   else (Inr (), write_key_words hw REG_KEY0 (word_slices 8 key) d))"

definition seq_command :: "'d hw \<Rightarrow> int \<Rightarrow> seq_controller \<times> 'd \<Rightarrow> seq_controller \<times> 'd" where
  "seq_command hw cmd s =
     (fst s, seq_write hw REG_CTRL (if sc_ctrl_enable (fst s) then cmd OR CTRL_ENABLE else cmd) (snd s))"

definition request_key_load :: "'d hw \<Rightarrow> seq_controller \<times> 'd \<Rightarrow> seq_controller \<times> 'd" where
  "request_key_load hw = seq_command hw CTRL_LOAD_KEY_REQ"

definition apply_nonce_seed :: "'d hw \<Rightarrow> seq_controller \<times> 'd \<Rightarrow> seq_controller \<times> 'd" where
  "apply_nonce_seed hw = seq_command hw CTRL_APPLY_NONCE_SEED"

definition force_key_dirty :: "'d hw \<Rightarrow> seq_controller \<times> 'd \<Rightarrow> seq_controller \<times> 'd" where
  "force_key_dirty hw = seq_command hw CTRL_FORCE_KEY_DIRTY"

record seq_status =
  ss_status_raw :: int
  ss_enabled :: int
  ss_seq_busy :: int
  ss_key_dirty :: int
  ss_nonce_counter :: int
  ss_aes_status_raw :: int
  ss_aes_keys_ready :: int
  ss_aes_session_ready :: int
  ss_aes_aad_ready :: int
  ss_aes_pt_ready :: int
  ss_aes_busy :: int
  ss_aes_h_valid :: int
  ss_aes_stream_mode :: int

definition read_64 :: "'d hw \<Rightarrow> int \<Rightarrow> int \<Rightarrow> 'd \<Rightarrow> int \<times> 'd" where
  "read_64 hw hi_off lo_off d =
     (let (hi, d1) = seq_read hw hi_off d; (lo, d2) = seq_read hw lo_off d1
      in (push_bit 32 hi OR lo, d2))"

definition decode_status :: "int \<Rightarrow> int \<Rightarrow> seq_status" where
  "decode_status st nonce =
     (let aes = (st AND 0x1FFF) OR push_bit 16 (drop_bit 19 st AND 0xF)
      in \<lparr>ss_status_raw = st,
          ss_enabled = drop_bit 13 st AND 0x1,
          ss_seq_busy = drop_bit 14 st AND 0x1,
          ss_key_dirty = drop_bit 15 st AND 0x1,
          ss_nonce_counter = nonce,
          ss_aes_status_raw = aes,
          ss_aes_keys_ready = aes AND 0xF,
          ss_aes_session_ready = drop_bit 4 aes AND 0x1,
          ss_aes_aad_ready = drop_bit 5 aes AND 0x1,
          ss_aes_pt_ready = drop_bit 6 aes AND 0x1,
          ss_aes_busy = drop_bit 7 aes AND 0x1,
          ss_aes_h_valid = drop_bit 8 aes AND 0x1,
          ss_aes_stream_mode = drop_bit 17 aes AND 0x1\<rparr>)"

definition read_status :: "'d hw \<Rightarrow> 'd \<Rightarrow> seq_status \<times> 'd" where
  "read_status hw d =
     (let (st, d1) = seq_read hw REG_STATUS d;
          (nonce, d2) = read_64 hw REG_NONCE_CUR_HI REG_NONCE_CUR_LO d1
      in (decode_status st nonce, d2))"

definition seq_nonce_counter :: "'d hw \<Rightarrow> 'd \<Rightarrow> int \<times> 'd" where
  "seq_nonce_counter hw = read_64 hw REG_NONCE_CUR_HI REG_NONCE_CUR_LO"

record video_counters =
  vc_video_beat_count :: int
  vc_video_frame_count :: int
  vc_prefifo_beats :: int

definition read_video_counters :: "'d hw \<Rightarrow> 'd \<Rightarrow> video_counters \<times> 'd" where
  "read_video_counters hw d =
     (let (beat, d1) = read_64 hw REG_VIDEO_BEAT_COUNT_HI REG_VIDEO_BEAT_COUNT_LO d;
          (frame, d2) = read_64 hw REG_VIDEO_FRAME_COUNT_HI REG_VIDEO_FRAME_COUNT_LO d1;
          (prefifo, d3) = read_64 hw REG_PREFIFO_BEAT_HI REG_PREFIFO_BEAT_LO d2
      in (\<lparr>vc_video_beat_count = beat, vc_video_frame_count = frame, vc_prefifo_beats = prefifo\<rparr>, d3))"

fun read_reg_bytes :: "'d hw \<Rightarrow> int list \<Rightarrow> 'd \<Rightarrow> bytes result \<times> 'd" where
  "read_reg_bytes hw [] d = (Inr [], d)"
| "read_reg_bytes hw (off # offs) d =
     (let (w, d1) = seq_read hw off d
      in case to_bytes_be 4 w of
           Inl e \<Rightarrow> (Inl e, d1)
         | Inr bs \<Rightarrow> (let (rest, d2) = read_reg_bytes hw offs d1
                      in (bind_r rest (\<lambda>r. Inr (bs @ r)), d2)))"

definition read_tag :: "'d hw \<Rightarrow> 'd \<Rightarrow> bytes result \<times> 'd" where
  "read_tag hw = read_reg_bytes hw [REG_TAG0, REG_TAG1, REG_TAG2, REG_TAG3]"

definition read_ghash :: "'d hw \<Rightarrow> 'd \<Rightarrow> bytes result \<times> 'd" where
  "read_ghash hw = read_reg_bytes hw [REG_GHASH0, REG_GHASH1, REG_GHASH2, REG_GHASH3]"

text \<open>\<^verbatim>\<open>wait_tag_ready\<close>; \<open>None\<close> would be waiting forever. The sleep lets the clock move.\<close>

partial_function (option) tag_wait_loop :: "'d hw \<Rightarrow> int \<Rightarrow> 'd \<Rightarrow> (bool \<times> 'd) option" where
  "tag_wait_loop hw deadline d =
     (let (t, d1) = hw_clock hw d
      in if t < deadline
         then let (v, d2) = seq_read hw REG_TAG_VALID d1
              in if v AND 0x1 \<noteq> 0 then Some (True, d2) else tag_wait_loop hw deadline d2
         else Some (False, d1))"

definition wait_tag_ready :: "'d hw \<Rightarrow> int \<Rightarrow> 'd \<Rightarrow> (bool \<times> 'd) option" where
  "wait_tag_ready hw timeout d =
     (let (t, d1) = hw_clock hw d in tag_wait_loop hw (t + timeout) d1)"

text \<open>The configuration sequence of \<^verbatim>\<open>main\<close> once the controller exists.\<close>

definition seq_configure_all :: "'d hw \<Rightarrow> aes_seq_config \<Rightarrow> string \<Rightarrow> seq_controller \<times> 'd \<Rightarrow>
    seq_status result \<times> seq_controller \<times> 'd" where
  "seq_configure_all hw cfg key_hex s =
     (let s1 = configure hw cfg s
      in if key_hex = []
         then (let s2 = apply_nonce_seed hw s1; (st, d) = read_status hw (snd s2)
               in (Inr st, fst s2, d))
         else case set_key_hex hw key_hex (snd s1) of
                (Inl e, d) \<Rightarrow> (Inl e, fst s1, d)
              | (Inr _, d) \<Rightarrow>
                  (let s2 = apply_nonce_seed hw (request_key_load hw (fst s1, d));
                       (st, d3) = read_status hw (snd s2)
                   in (Inr st, fst s2, d3)))"

record seq_args =
  sqa_bitstream :: string
  sqa_ip_name :: string
  sqa_key_hex :: string
  sqa_cfg :: aes_seq_config
  sqa_disable :: bool

definition seq_main :: "'d hw \<Rightarrow> py_env \<Rightarrow> bool \<Rightarrow> bool \<Rightarrow> seq_args \<Rightarrow> 'd \<Rightarrow> seq_status result \<times> 'd" where
  "seq_main hw pe bitstream_exists ip_present args d =
     (case import_board_seq (pe_files pe) (pe_interp pe) of
        (Inl e, _) \<Rightarrow> (Inl e, d)
      | (Inr _, st) \<Rightarrow>
          if \<not> bitstream_exists then (Inl FileNotFoundError, d)
          else case seq_controller_init ip_present (pe\<lparr>pe_interp := st\<rparr>) of
             Inl e \<Rightarrow> (Inl e, d)
           | Inr c \<Rightarrow>
               (let (r, s) = seq_configure_all hw ((sqa_cfg args)\<lparr>sq_enable := \<not> sqa_disable args\<rparr>)
                               (sqa_key_hex args) (c, d)
                in (r, snd s)))"

section \<open>Bit fields\<close>

lemma and_masks:
  fixes n :: int
  shows "n AND 0x1 = take_bit 1 n" "n AND 0xF = take_bit 4 n" "n AND 0xFF = take_bit 8 n"
    "n AND 0x1FFF = take_bit 13 n" "n AND 0xFFFF = take_bit 16 n" "n AND 0xFFFFFFFF = take_bit 32 n"
  by (simp_all add: take_bit_eq_mask mask_eq_exp_minus_1)

lemma stream_payload_fields:
  "take_bit 16 (stream_payload cfg) = take_bit 16 (sq_stream_id cfg)"
  "take_bit 8 (drop_bit 16 (stream_payload cfg)) = take_bit 8 (sq_payload_type cfg)"
  "drop_bit 24 (stream_payload cfg) = take_bit 8 (sq_key_id cfg)"
  "take_bit 32 (stream_payload cfg) = stream_payload cfg"
  unfolding stream_payload_def and_masks
  by (rule bit_eqI, auto simp: bit_simps)+

lemma read_64_join:
  fixes hi lo :: int
  shows "push_bit 32 (take_bit 32 hi) OR take_bit 32 lo = take_bit 32 hi * 2 ^ 32 + take_bit 32 lo"
proof -
  have "push_bit 32 (take_bit 32 hi) OR take_bit 32 lo = push_bit 32 (take_bit 32 hi) + take_bit 32 lo"
    by (rule disjunctive_add [symmetric]) (auto simp: bit_simps)
  then show ?thesis by (simp add: push_bit_eq_mult)
qed

lemma decode_status_fields:
  "ss_aes_status_raw (decode_status st n) AND 0x1FFF = st AND 0x1FFF"
  "drop_bit 16 (ss_aes_status_raw (decode_status st n)) = drop_bit 19 st AND 0xF"
  "ss_aes_stream_mode (decode_status st n) = drop_bit 20 st AND 0x1"
  "ss_aes_h_valid (decode_status st n) = drop_bit 8 st AND 0x1"
  "ss_aes_keys_ready (decode_status st n) = st AND 0xF"
  unfolding decode_status_def Let_def seq_status.simps and_masks bit_eq_iff bit_take_bit_iff
    bit_drop_bit_eq bit_or_iff bit_push_bit_iff_int comp_def
  by auto

section \<open>Registers after configuration\<close>

lemma seq_write_view:
  "reg_file hw view \<Longrightarrow> view (seq_write hw a v d) = (view d)(a := take_bit 32 v)"
  by (simp add: seq_write_def reg_file_def and_masks)

lemma write_key_words_view:
  assumes "reg_file hw view" and "\<forall>w \<in> set ws. length w = 4"
  shows "(\<forall>i < length ws. view (write_key_words hw off ws d) (off + 4 * int i) = from_bytes_be (ws ! i)) \<and>
     (\<forall>a. a < off \<longrightarrow> view (write_key_words hw off ws d) a = view d a)"
  using assms(2)
proof (induction ws arbitrary: off d)
  case Nil
  then show ?case by simp
next
  case (Cons w ws)
  let ?d = "seq_write hw off (from_bytes_be w) d"
  have "from_bytes_be w < 2 ^ 32" using from_bytes_be_lt [of w] Cons.prems by simp
  then have "take_bit 32 (from_bytes_be w) = from_bytes_be w" by (simp add: take_bit_int_eq_self)
  then have v: "view ?d = (view d)(off := from_bytes_be w)" using seq_write_view [OF assms(1)] by simp
  note IH = Cons.IH [of "off + 4" ?d]
  have "view (write_key_words hw off (w # ws) d) (off + 4 * int i) = from_bytes_be ((w # ws) ! i)"
    if "i < length (w # ws)" for i
    using that IH Cons.prems v by (cases i) (auto simp: algebra_simps)
  then show ?case using IH Cons.prems v by auto
qed

lemma word_slices_lengths: "length bs = 4 * n \<Longrightarrow> \<forall>w \<in> set (word_slices n bs). length w = 4"
  by (auto simp: word_slices_def length_slice)

lemma key_registers:
  assumes "reg_file hw view" and "length key = 32"
  shows "concat (map (\<lambda>i. be_bytes 4 (view (write_key_words hw REG_KEY0 (word_slices 8 key) d) (REG_KEY0 + 4 * int i))) [0..<8]) = key"
proof (rule slices_in_registers(1))
  show l: "length key = 4 * 8" using assms(2) by simp
  show "\<forall>i < 8. view (write_key_words hw REG_KEY0 (word_slices 8 key) d) (REG_KEY0 + 4 * int i) = from_bytes_be (word_slices 8 key ! i)"
    using write_key_words_view [OF assms(1) word_slices_lengths [OF l], of REG_KEY0 d] by (simp add: word_slices_def)
qed

section \<open>Commands\<close>

text \<open>
  A board that records the writes to its IP instances in order, with an arbitrary answer to reads;
  \<open>log_hw rd ip\<close> is the register window of the instance \<open>ip\<close>.
\<close>

type_synonym write_log = "(string \<times> int \<times> int) list"

definition log_hw :: "(string \<Rightarrow> int \<Rightarrow> write_log \<Rightarrow> int) \<Rightarrow> string \<Rightarrow> write_log hw" where
  "log_hw rd ip = \<lparr>hw_read = (\<lambda>a d. (rd ip a d, d)), hw_write = (\<lambda>a v d. d @ [(ip, a, v)]),
     hw_clock = (\<lambda>d. (0, d)), hw_dma = idle_dma\<rparr>"

datatype seq_op = RequestKeyLoad | ApplyNonceSeed | ForceKeyDirty | ReadStatus | NonceCounter | ReadTag | ReadGhash

fun seq_step :: "'d hw \<Rightarrow> seq_controller \<times> 'd \<Rightarrow> seq_op \<Rightarrow> unit \<times> seq_controller \<times> 'd" where
  "seq_step hw s RequestKeyLoad = ((), request_key_load hw s)"
| "seq_step hw s ApplyNonceSeed = ((), apply_nonce_seed hw s)"
| "seq_step hw s ForceKeyDirty = ((), force_key_dirty hw s)"
| "seq_step hw s ReadStatus = ((), fst s, snd (read_status hw (snd s)))"
| "seq_step hw s NonceCounter = ((), fst s, snd (seq_nonce_counter hw (snd s)))"
| "seq_step hw s ReadTag = ((), fst s, snd (read_tag hw (snd s)))"
| "seq_step hw s ReadGhash = ((), fst s, snd (read_ghash hw (snd s)))"

definition ctrl_writes_ok :: "string \<Rightarrow> bool \<Rightarrow> write_log \<Rightarrow> bool" where
  "ctrl_writes_ok ip b ws0 \<longleftrightarrow>
     (\<forall>(i, a, v) \<in> set ws0. i = ip \<and> a = REG_CTRL \<longrightarrow> v AND CTRL_ENABLE = of_bool b)"

definition enable_kept :: "string \<Rightarrow> bool \<Rightarrow> seq_controller \<times> write_log \<Rightarrow> bool" where
  "enable_kept ip b s \<longleftrightarrow> sc_ctrl_enable (fst s) = b \<and> ctrl_writes_ok ip b (snd s)"

lemma log_reads [simp]:
  "snd (seq_read (log_hw rd ip) a d) = d"
  "snd (read_64 (log_hw rd ip) a b d) = d"
  "snd (read_status (log_hw rd ip) d) = d"
  "snd (read_reg_bytes (log_hw rd ip) offs d) = d"
proof -
  show 1: "snd (seq_read (log_hw rd ip) a d) = d" for a d by (simp add: seq_read_def log_hw_def)
  then show 2: "snd (read_64 (log_hw rd ip) a b d) = d" for a b d by (simp add: read_64_def case_prod_beta Let_def)
  show "snd (read_status (log_hw rd ip) d) = d" using 1 2 by (simp add: read_status_def case_prod_beta Let_def)
  show "snd (read_reg_bytes (log_hw rd ip) offs d) = d"
    using 1 by (induction offs arbitrary: d) (auto simp: case_prod_beta Let_def split: sum.split)
qed

lemma log_write: "seq_write (log_hw rd ip) a v d = d @ [(ip, a, take_bit 32 v)]"
  by (simp add: seq_write_def log_hw_def and_masks)

lemma enable_kept_command:
  assumes "enable_kept ip b s" and "cmd \<in> {CTRL_LOAD_KEY_REQ, CTRL_APPLY_NONCE_SEED, CTRL_FORCE_KEY_DIRTY}"
  shows "enable_kept ip b (seq_command (log_hw rd ip) cmd s)"
  using assms
  by (auto simp: enable_kept_def ctrl_writes_ok_def seq_command_def log_write CTRL_LOAD_KEY_REQ_def CTRL_APPLY_NONCE_SEED_def
      CTRL_FORCE_KEY_DIRTY_def CTRL_ENABLE_def)

interpretation seq_log: invariant_machine "seq_step (log_hw rd ip)" "enable_kept ip b"
proof unfold_locales
  fix s op assume "enable_kept ip b s"
  then show "enable_kept ip b (snd (seq_step (log_hw rd ip) s op))"
    by (cases op) (simp_all add: request_key_load_def apply_nonce_seed_def force_key_dirty_def
        enable_kept_command seq_nonce_counter_def read_tag_def read_ghash_def del: read_reg_bytes.simps)
qed

lemma configure_enable_kept:
  "ctrl_writes_ok ip (sq_enable cfg) ws0 \<Longrightarrow>
     enable_kept ip (sq_enable cfg) (configure (log_hw rd ip) cfg (c, ws0))"
  by (auto simp: enable_kept_def ctrl_writes_ok_def configure_def log_write Let_def seq_regs CTRL_ENABLE_def)

lemma write_key_words_log:
  "\<exists>ks. write_key_words (log_hw rd ip) off ws ws0 = ws0 @ ks \<and> (\<forall>(i, a, v) \<in> set ks. i = ip \<and> off \<le> a)"
proof (induction ws arbitrary: off ws0)
  case Nil
  show ?case by (simp add: exI [of _ "[]"])
next
  case (Cons w ws)
  obtain ks where "write_key_words (log_hw rd ip) (off + 4) ws (ws0 @ [(ip, off, take_bit 32 (from_bytes_be w))]) =
      (ws0 @ [(ip, off, take_bit 32 (from_bytes_be w))]) @ ks" "\<forall>(i, a, v) \<in> set ks. i = ip \<and> off + 4 \<le> a"
    using Cons by blast
  then show ?case
    by (intro exI [of _ "(ip, off, take_bit 32 (from_bytes_be w)) # ks"]) (auto simp: log_write)
qed

lemma ctrl_writes_ok_append:
  "ctrl_writes_ok ip b (xs @ ys) \<longleftrightarrow> ctrl_writes_ok ip b xs \<and> ctrl_writes_ok ip b ys"
  by (auto simp: ctrl_writes_ok_def)

lemma key_words_ctrl_ok:
  assumes "ctrl_writes_ok ip b ws0"
  shows "ctrl_writes_ok ip b (write_key_words (log_hw rd ip) REG_KEY0 ws ws0)"
proof -
  obtain ks where ks: "write_key_words (log_hw rd ip) REG_KEY0 ws ws0 = ws0 @ ks"
    "\<forall>(i, a, v) \<in> set ks. i = ip \<and> REG_KEY0 \<le> a"
    using write_key_words_log by blast
  have "REG_CTRL < REG_KEY0" by (simp add: seq_regs)
  then have "ctrl_writes_ok ip b ks" using ks(2) by (auto simp: ctrl_writes_ok_def)
  with assms ks(1) show ?thesis by (simp add: ctrl_writes_ok_append)
qed

lemma set_key_hex_log:
  "enable_kept ip b (c, ws0) \<Longrightarrow> enable_kept ip b (c, snd (set_key_hex (log_hw rd ip) hex ws0))"
  by (simp add: set_key_hex_def enable_kept_def key_words_ctrl_ok split: sum.split)

lemma seq_configure_all_kept:
  assumes "ctrl_writes_ok ip (sq_enable cfg) ws0"
  shows "ctrl_writes_ok ip (sq_enable cfg) (snd (snd (seq_configure_all (log_hw rd ip) cfg hex (c, ws0))))"
proof -
  let ?s = "configure (log_hw rd ip) cfg (c, ws0)"
  have k: "enable_kept ip (sq_enable cfg) (fst ?s, snd ?s)"
    using configure_enable_kept [OF assms, of rd c] by simp
  have cmd: "enable_kept ip b (request_key_load (log_hw rd ip) s)" "enable_kept ip b (apply_nonce_seed (log_hw rd ip) s)"
    if "enable_kept ip b s" for b s
    using enable_kept_command [OF that] by (simp_all add: request_key_load_def apply_nonce_seed_def)
  obtain r d where r: "set_key_hex (log_hw rd ip) hex (snd ?s) = (r, d)"
    by (cases "set_key_hex (log_hw rd ip) hex (snd ?s)")
  have k2: "enable_kept ip (sq_enable cfg) (fst ?s, d)"
    using set_key_hex_log [OF k, of rd hex] r by simp
  show ?thesis
    using cmd(2) [OF k] k2 cmd(2) [OF cmd(1) [OF k2]]
    by (auto simp: seq_configure_all_def Let_def r case_prod_beta enable_kept_def split: sum.split)
qed

section \<open>Waiting and reading\<close>

lemma tag_wait_loop_total:
  assumes "clock_runs hw now stall"
  shows "\<exists>r. tag_wait_loop hw deadline d = Some r"
proof (induction d rule: wf_induct_rule [OF wf_measures [of "[\<lambda>d. nat (deadline - now d), stall]"]])
  case (1 d)
  obtain t d1 where c: "hw_clock hw d = (t, d1)" by (cases "hw_clock hw d")
  obtain v d2 where r: "seq_read hw REG_TAG_VALID d1 = (v, d2)" by (cases "seq_read hw REG_TAG_VALID d1")
  have d2: "d2 = snd (hw_read hw REG_TAG_VALID d1)" using r by (simp add: seq_read_def)
  have "t = now d" "now d < now d1 \<or> now d = now d1 \<and> stall d1 < stall d"
    using assms c unfolding clock_runs_def by (metis fst_conv, metis snd_conv)
  moreover have "now d1 < now d2 \<or> now d1 = now d2 \<and> stall d2 \<le> stall d1"
    using assms unfolding clock_runs_def d2 by blast
  ultimately have less: "(d2, d) \<in> measures [\<lambda>d. nat (deadline - now d), stall]" if "t < deadline"
    using that by auto
  show ?case
  proof (cases "t < deadline \<and> v AND 0x1 = 0")
    case True
    with "1.IH" [OF less] show ?thesis by (subst tag_wait_loop.simps) (simp add: c r)
  next
    case False
    then show ?thesis by (subst tag_wait_loop.simps) (auto simp: c r)
  qed
qed

lemma read_reg_bytes_total: "\<exists>bs. fst (read_reg_bytes hw offs d) = Inr bs \<and> length bs = 4 * length offs"
proof (induction offs arbitrary: d)
  case Nil
  show ?case by simp
next
  case (Cons off offs)
  obtain w d1 where r: "seq_read hw off d = (w, d1)" by (cases "seq_read hw off d")
  then have "w = take_bit 32 (fst (hw_read hw off d))" by (simp add: seq_read_def and_masks)
  then have "0 \<le> w \<and> w < 256 ^ 4" using take_bit_int_less_exp [of 32 "fst (hw_read hw off d)"] by simp
  then have b: "to_bytes_be 4 w = Inr (be_bytes 4 w)" by (simp add: to_bytes_be_def)
  obtain bs where "fst (read_reg_bytes hw offs d1) = Inr bs" "length bs = 4 * length offs"
    using Cons by blast
  then show ?case by (simp add: r b case_prod_beta Let_def)
qed

text \<open>A counter that advances by one at every register read.\<close>

definition ticking_board :: "int hw" where
  "ticking_board = \<lparr>hw_read = (\<lambda>a n. (if a = REG_NONCE_CUR_HI then drop_bit 32 n else n, n + 1)),
     hw_write = (\<lambda>_ _ n. n), hw_clock = (\<lambda>n. (n, n)), hw_dma = idle_dma\<rparr>"

section \<open>Properties\<close>

text \<open>
  C26. Register layout. After \<^verbatim>\<open>configure\<close> on plain registers the packed register holds key id, payload
  type and stream id in bits 31..24, 23..16 and 15..0 without overlap, the seed's 64 bits are split
  over the two seed registers, the other fields are cut to their widths, and the control register
  holds exactly the enable bit.
\<close>

theorem configure_layout:
  assumes "reg_file hw view" and "(c', d') = configure hw cfg (c, d)"
  shows "view d' REG_SESSION_ID = take_bit 32 (sq_session_id cfg) \<and>
     drop_bit 24 (view d' REG_STREAM_PAYLOAD) = take_bit 8 (sq_key_id cfg) \<and>
     take_bit 8 (drop_bit 16 (view d' REG_STREAM_PAYLOAD)) = take_bit 8 (sq_payload_type cfg) \<and>
     take_bit 16 (view d' REG_STREAM_PAYLOAD) = take_bit 16 (sq_stream_id cfg) \<and>
     view d' REG_NONCE_DOMAIN = take_bit 32 (sq_nonce_domain cfg) \<and>
     view d' REG_NONCE_SEED_HI * 2 ^ 32 + view d' REG_NONCE_SEED_LO = take_bit 64 (sq_nonce_seed cfg) \<and>
     view d' REG_PAYLOAD_BYTES = take_bit 16 (sq_payload_bytes cfg) \<and>
     view d' REG_CTRL = of_bool (sq_enable cfg) \<and> sc_ctrl_enable c' = sq_enable cfg"
proof -
  have seed: "take_bit 32 (drop_bit 32 n) * 2 ^ 32 + take_bit 32 n = take_bit 64 n" for n :: int
    using split_64 [of "take_bit 64 n"] take_bit_int_less_exp [of 64 n]
    unfolding and_masks by (simp add: drop_bit_take_bit)
  have d: "d' = snd (configure hw cfg (c, d))" "c' = fst (configure hw cfg (c, d))"
    using assms(2) by (metis fst_conv snd_conv)+
  show ?thesis
    unfolding d configure_def Let_def snd_conv fst_conv
    using seed by (simp add: seq_write_view [OF assms(1)] seq_regs stream_payload_fields and_masks CTRL_ENABLE_def)
qed

theorem configure_layout_witness:
  "drop_bit 24 (snd (configure reg_board (aes_seq_default\<lparr>sq_key_id := 7, sq_stream_id := 0x1FFFF\<rparr>)
     (\<lparr>sc_ctrl_enable = True\<rparr>, \<lambda>_. 0)) REG_STREAM_PAYLOAD) = 7 \<and>
   take_bit 16 (snd (configure reg_board (aes_seq_default\<lparr>sq_key_id := 7, sq_stream_id := 0x1FFFF\<rparr>)
     (\<lparr>sc_ctrl_enable = True\<rparr>, \<lambda>_. 0)) REG_STREAM_PAYLOAD) = 0xFFFF"
  using configure_layout [OF reg_board_file prod.collapse [of "configure reg_board
     (aes_seq_default\<lparr>sq_key_id := 7, sq_stream_id := 0x1FFFF\<rparr>) (\<lparr>sc_ctrl_enable = True\<rparr>, \<lambda>_. 0)"]]
  by simp

text \<open>
  C27. Commands keep the enable bit. After \<^verbatim>\<open>configure\<close>, whatever sequence of key load requests, nonce
  seed applications, dirty marks and reads follows, every value written to the control register
  carries the configured enable bit and never the other one: a sequencer configured as disabled is
  not enabled by any command. The device may answer reads arbitrarily.
\<close>

theorem sequencer_enable_kept:
  "filter (\<lambda>(i, a, v). i = ip \<and> a = REG_CTRL \<and> v AND CTRL_ENABLE \<noteq> of_bool (sq_enable cfg))
     (snd (snd (run_outs (seq_step (log_hw rd ip)) (configure (log_hw rd ip) cfg (c, [])) ops))) = []"
proof -
  have "enable_kept ip (sq_enable cfg) (configure (log_hw rd ip) cfg (c, []))"
    by (rule configure_enable_kept) (simp add: ctrl_writes_ok_def)
  from seq_log.run_inv [OF this, of rd ops] show ?thesis
    by (auto simp: enable_kept_def ctrl_writes_ok_def filter_empty_conv)
qed

text \<open>
  Waiting for the tag ends. When no clock value is read forever, \<^verbatim>\<open>wait_tag_ready\<close> returns for every timeout
  and every device.
\<close>

theorem wait_tag_ready_terminates:
  assumes "clock_runs hw now stall"
  shows "\<exists>r. wait_tag_ready hw timeout d = Some r"
  using tag_wait_loop_total [OF assms] by (simp add: wait_tag_ready_def case_prod_beta Let_def)

theorem wait_tag_ready_terminates_witness: "\<exists>r. wait_tag_ready dead_board 3 0 = Some r"
  by (rule wait_tag_ready_terminates [OF dead_board_clock])

text \<open>
  Keys reach the registers whole. \<^verbatim>\<open>set_key_hex\<close> succeeds exactly on 32-byte hex strings; then the
  eight key registers hold the 32 bytes in order, and otherwise nothing is written.
\<close>

theorem set_key_hex_exact:
  assumes "reg_file hw view"
  shows "case bytes_fromhex hex of
      Inr key \<Rightarrow> if length key = 32
        then fst (set_key_hex hw hex d) = Inr () \<and>
          concat (map (\<lambda>i. be_bytes 4 (view (snd (set_key_hex hw hex d)) (REG_KEY0 + 4 * int i))) [0..<8]) = key
        else set_key_hex hw hex d = (Inl ValueError, d)
    | Inl e \<Rightarrow> set_key_hex hw hex d = (Inl e, d)"
  using key_registers [OF assms] by (auto simp: set_key_hex_def split: sum.split)

lemma demo_key_hex: "bytes_fromhex ''ab'' = Inr [0xAB]"
  by code_simp

theorem set_key_hex_exact_witness: "set_key_hex reg_board ''ab'' (\<lambda>_. 0) = (Inl ValueError, \<lambda>_. 0)"
  using set_key_hex_exact [OF reg_board_file, of "''ab''" "\<lambda>_. 0", unfolded demo_key_hex] by simp

text \<open>
  The 64-bit counters are read in two halves. On a counter that advances between two register
  reads the value can be wrong by a whole high word: around the carry, \<^verbatim>\<open>nonce_counter\<close> returns 0 for a
  counter that goes from \<open>2\<^sup>3\<^sup>2 - 1\<close> to \<open>2\<^sup>3\<^sup>2 + 1\<close>.
\<close>

theorem nonce_counter_torn:
  "seq_nonce_counter ticking_board (2 ^ 32 - 1) = (0, 2 ^ 32 + 1)"
  by (simp add: seq_nonce_counter_def read_64_def seq_read_def ticking_board_def seq_regs)

text \<open>
  Tag and GHASH reads never raise: on every device the tag and the GHASH accumulator come back as
  16 bytes.
\<close>

theorem tag_reads_total:
  "(\<exists>bs. fst (read_tag hw d) = Inr bs \<and> length bs = 16) \<and>
   (\<exists>bs. fst (read_ghash hw d) = Inr bs \<and> length bs = 16)"
  using read_reg_bytes_total [of hw "[REG_TAG0, REG_TAG1, REG_TAG2, REG_TAG3]" d]
    read_reg_bytes_total [of hw "[REG_GHASH0, REG_GHASH1, REG_GHASH2, REG_GHASH3]" d]
  unfolding read_tag_def read_ghash_def by simp

end
