(* ===== verification/Tx_Daemon.thy ===== *)
theory Tx_Daemon
  imports Seq_Ctrl
begin

text \<open>
  \<^verbatim>\<open>pynq/runtime/tx_daemon.py\<close>: the board-side configuration daemon. It checks the payload size against
  the hardware handoff, selects the design clock, programs the sequencer and leaves it disabled, pulses
  the HDMI hot-plug line, reads the status registers and then holds the overlay.

  The board is a parameter: which IP instances the overlay has, and a register window for each of them
  over one device state; the board package is imported as in \<open>Board_Import\<close>. Reaching the final sleep loop
  is the outcome \<open>Inr\<close>.
\<close>

section \<open>Register maps\<close>

definition AES_REG_STATUS :: int where "AES_REG_STATUS = 0x0004"
definition GPIO_DATA :: int where "GPIO_DATA = 0x00"
definition GPIO_TRI :: int where "GPIO_TRI = 0x04"
definition GPIO2_DATA :: int where "GPIO2_DATA = 0x08"
definition GPIO2_TRI :: int where "GPIO2_TRI = 0x0C"

section \<open>HDMI front end and AES core status\<close>

definition gpio_wr :: "'d hw \<Rightarrow> int \<Rightarrow> int \<Rightarrow> 'd \<Rightarrow> 'd" where
  "gpio_wr hw off val d = hw_write hw off (val AND 0xFFFFFFFF) d"

definition gpio_rd :: "'d hw \<Rightarrow> int \<Rightarrow> 'd \<Rightarrow> int \<times> 'd" where
  "gpio_rd hw off d = (fst (hw_read hw off d) AND 0xFFFFFFFF, snd (hw_read hw off d))"

definition set_hpd :: "'d hw \<Rightarrow> bool \<Rightarrow> 'd \<Rightarrow> 'd" where
  "set_hpd hw asserted d = gpio_wr hw GPIO_DATA (if asserted then 0x1 else 0x0) (gpio_wr hw GPIO_TRI 0x0 d)"

definition pixel_lock :: "'d hw \<Rightarrow> 'd \<Rightarrow> int \<times> 'd" where
  "pixel_lock hw d =
     (let (v, d1) = gpio_rd hw GPIO2_DATA (gpio_wr hw GPIO2_TRI 0x1 d) in (v AND 0x1, d1))"

record core_status =
  cs_raw :: int
  cs_keys_ready :: int
  cs_session_ready :: int
  cs_aad_ready :: int
  cs_pt_ready :: int
  cs_busy :: int
  cs_h_valid :: int
  cs_stream_mode :: int
  cs_ct_fifo_overflow :: int

definition core_raw :: "'d hw \<Rightarrow> 'd \<Rightarrow> int \<times> 'd" where
  "core_raw hw d = (fst (hw_read hw AES_REG_STATUS d) AND 0xFFFFFFFF, snd (hw_read hw AES_REG_STATUS d))"

definition core_decode :: "'d hw \<Rightarrow> 'd \<Rightarrow> core_status \<times> 'd" where
  "core_decode hw d =
     (let (v, d1) = core_raw hw d
      in (\<lparr>cs_raw = v, cs_keys_ready = v AND 0xF,
           cs_session_ready = drop_bit 4 v AND 0x1, cs_aad_ready = drop_bit 5 v AND 0x1,
           cs_pt_ready = drop_bit 6 v AND 0x1, cs_busy = drop_bit 7 v AND 0x1,
           cs_h_valid = drop_bit 8 v AND 0x1, cs_stream_mode = drop_bit 17 v AND 0x1,
           cs_ct_fifo_overflow = drop_bit 18 v AND 0x1\<rparr>, d1))"

section \<open>Geometry check\<close>

text \<open>
  The first match of the regular expression for \<^verbatim>\<open>PACKET_BYTES\<close>: the word, an optional quote, white space,
  \<^verbatim>\<open>VALUE=\<close>, and a quoted decimal number. No part of it can match in two ways, so scanning is exact.
\<close>

definition re_space :: "char \<Rightarrow> bool" where
  "re_space c = (let n = of_char c :: nat
     in n = 32 \<or> (9 \<le> n \<and> n \<le> 13) \<or> (28 \<le> n \<and> n \<le> 31) \<or> n = 133 \<or> n = 160)"

definition strip_prefix :: "string \<Rightarrow> string \<Rightarrow> string option" where
  "strip_prefix p s = (if take (length p) s = p then Some (drop (length p) s) else None)"

definition match_packet_bytes :: "string \<Rightarrow> int option" where
  "match_packet_bytes s =
     (case strip_prefix ''PACKET_BYTES'' s of
        None \<Rightarrow> None
      | Some s1 \<Rightarrow>
          (let s2 = (case strip_prefix [CHR 0x22] s1 of None \<Rightarrow> s1 | Some t \<Rightarrow> t)
           in if s2 = [] \<or> \<not> re_space (hd s2) then None
              else case strip_prefix (''VALUE='' @ [CHR 0x22]) (dropWhile re_space s2) of
                     None \<Rightarrow> None
                   | Some s3 \<Rightarrow>
                       (let ds = takeWhile is_digit s3
                        in if ds = [] then None
                           else case strip_prefix [CHR 0x22] (drop (length ds) s3) of
                                  None \<Rightarrow> None
                                | Some _ \<Rightarrow> Some (decimal ds))))"

fun find_packet_bytes :: "string \<Rightarrow> int option" where
  "find_packet_bytes [] = None"
| "find_packet_bytes (c # s) =
     (case match_packet_bytes (c # s) of Some n \<Rightarrow> Some n | None \<Rightarrow> find_packet_bytes s)"

definition geometry_check :: "string option \<Rightarrow> int \<Rightarrow> unit result" where
  "geometry_check handoff payload_bytes =
     (case handoff of
        None \<Rightarrow> Inr ()
      | Some text \<Rightarrow>
          (case find_packet_bytes text of
             None \<Rightarrow> Inr ()
           | Some hw_body \<Rightarrow> if payload_bytes + 64 \<noteq> hw_body then Inl SystemExit else Inr ()))"

section \<open>The daemon\<close>

record 'd overlay =
  ov_has_ip :: "string \<Rightarrow> bool"
  ov_mmio :: "string \<Rightarrow> 'd hw"

record daemon_args =
  da_cfg :: aes_seq_config
  da_key_hex :: string
  da_force_hpd :: bool
  da_configure_only :: bool
  da_aes_freq :: int

text \<open>\<^verbatim>\<open>_parse_args\<close>: the defaults (the destination and timing options are not used by \<^verbatim>\<open>run\<close>).\<close>

definition daemon_default_args :: daemon_args where
  "daemon_default_args = \<lparr>da_cfg = \<lparr>sq_session_id = 1, sq_stream_id = 1, sq_payload_type = 1, sq_key_id = 1,
     sq_nonce_domain = 1, sq_nonce_seed = 1, sq_payload_bytes = 1320, sq_enable = True\<rparr>,
     da_key_hex = [], da_force_hpd = True, da_configure_only = False, da_aes_freq = 50\<rparr>"

definition sel_map :: "int \<Rightarrow> int option" where
  "sel_map f = (if f = 50 then Some 0 else if f = 75 then Some 1 else if f = 100 then Some 2 else None)"

definition select_clock :: "'d overlay \<Rightarrow> int \<Rightarrow> 'd \<Rightarrow> unit result \<times> 'd" where
  "select_clock ov freq d =
     (if \<not> ov_has_ip ov ''axi_gpio_clkctrl'' then (Inr (), d)
      else case sel_map freq of
             None \<Rightarrow> (Inl ValueError, d)
           | Some sel \<Rightarrow>
               (let hw = ov_mmio ov ''axi_gpio_clkctrl'';
                    (v, d2) = hw_read hw 0x00 (hw_write hw 0x00 (push_bit 1 sel) d);
                    got = drop_bit 1 v AND 0x3
                in if got \<noteq> sel then (Inl RuntimeError, d2) else (Inr (), d2)))"

definition hdmi_setup :: "'d overlay \<Rightarrow> bool \<Rightarrow> 'd \<Rightarrow> int option \<times> 'd" where
  "hdmi_setup ov force_hpd d =
     (if \<not> ov_has_ip ov ''axi_gpio_hdmiin'' then (None, d)
      else let hw = ov_mmio ov ''axi_gpio_hdmiin'';
               d1 = (if force_hpd then set_hpd hw True (set_hpd hw False d) else d);
               (lock, d2) = pixel_lock hw d1
           in (Some lock, d2))"

definition core_setup :: "'d overlay \<Rightarrow> 'd \<Rightarrow> core_status option \<times> 'd" where
  "core_setup ov d =
     (if \<not> ov_has_ip ov ''aes_gcm_0'' then (None, d)
      else let (s, d1) = core_decode (ov_mmio ov ''aes_gcm_0'') d in (Some s, d1))"

text \<open>
  \<^verbatim>\<open>run\<close>: the outcome \<open>Inr\<close> is the held overlay, with the three statuses it printed. \<open>loads\<close> is the outcome of loading the
  overlay and \<open>seq_module\<close> that of importing \<^verbatim>\<open>aes_seq_ctrl\<close>.
\<close>

definition daemon_run :: "py_env \<Rightarrow> string option \<Rightarrow> bool \<Rightarrow> unit result \<Rightarrow> unit result \<Rightarrow> 'd overlay \<Rightarrow> daemon_args \<Rightarrow> 'd \<Rightarrow>
    (seq_status \<times> int option \<times> core_status option) result \<times> 'd" where
  "daemon_run pe handoff bit_exists loads seq_module ov args d =
     (case load_pynq (pe_files pe) (pe_interp pe) of
        (Inl e, _) \<Rightarrow> (Inl e, d)
      | (Inr _, st) \<Rightarrow>
      case geometry_check handoff (sq_payload_bytes (da_cfg args)) of
        Inl e \<Rightarrow> (Inl e, d)
      | Inr _ \<Rightarrow>
      if \<not> bit_exists then (Inl FileNotFoundError, d)
      else if \<not> da_configure_only args then (Inl ValueError, d)
      else case loads of
        Inl e \<Rightarrow> (Inl e, d)
      | Inr _ \<Rightarrow>
      case select_clock ov (da_aes_freq args) d of
        (Inl e, d1) \<Rightarrow> (Inl e, d1)
      | (Inr _, d1) \<Rightarrow>
      case seq_module of
        Inl e \<Rightarrow> (Inl e, d1)
      | Inr _ \<Rightarrow>
      (case seq_controller_init (ov_has_ip ov ''aes_seq_0'') (pe\<lparr>pe_interp := st\<rparr>) of
         Inl e \<Rightarrow> (Inl e, d1)
       | Inr c \<Rightarrow>
      (case seq_configure_all (ov_mmio ov ''aes_seq_0'') ((da_cfg args)\<lparr>sq_enable := \<not> da_configure_only args\<rparr>)
              (da_key_hex args) (c, d1) of
         (Inl e, s) \<Rightarrow> (Inl e, snd s)
       | (Inr st, s) \<Rightarrow>
          (let (lock, d2) = hdmi_setup ov (da_force_hpd args) (snd s);
               (core, d3) = core_setup ov d2
           in (Inr (st, lock, core), d3)))))"

section \<open>Writes on a recording board\<close>

definition log_overlay :: "(string \<Rightarrow> bool) \<Rightarrow> (string \<Rightarrow> int \<Rightarrow> write_log \<Rightarrow> int) \<Rightarrow> write_log overlay" where
  "log_overlay has rd = \<lparr>ov_has_ip = has, ov_mmio = log_hw rd\<rparr>"

lemma log_gpio_wr: "gpio_wr (log_hw rd ip) off val d = d @ [(ip, off, val AND 0xFFFFFFFF)]"
  by (simp add: gpio_wr_def log_hw_def)

lemma log_gpio_rd [simp]: "snd (gpio_rd (log_hw rd ip) off d) = d"
  by (simp add: gpio_rd_def log_hw_def)

lemma log_hdmi_setup:
  "snd (hdmi_setup (log_overlay has rd) force d) =
     d @ (if has ''axi_gpio_hdmiin''
          then (if force then [(''axi_gpio_hdmiin'', GPIO_TRI, 0), (''axi_gpio_hdmiin'', GPIO_DATA, 0),
                               (''axi_gpio_hdmiin'', GPIO_TRI, 0), (''axi_gpio_hdmiin'', GPIO_DATA, 1)] else [])
               @ [(''axi_gpio_hdmiin'', GPIO2_TRI, 1)]
          else [])"
  by (simp add: hdmi_setup_def log_overlay_def Let_def set_hpd_def pixel_lock_def log_gpio_wr case_prod_beta)

lemma log_core_setup: "snd (core_setup (log_overlay has rd) d) = d"
  by (simp add: core_setup_def log_overlay_def core_decode_def core_raw_def case_prod_beta Let_def log_hw_def)

lemma log_select_clock:
  "snd (select_clock (log_overlay has rd) freq d) =
     d @ (case sel_map freq of
            Some sel \<Rightarrow> if has ''axi_gpio_clkctrl'' then [(''axi_gpio_clkctrl'', 0, push_bit 1 sel)] else []
          | None \<Rightarrow> [])"
  by (simp add: select_clock_def log_overlay_def log_hw_def case_prod_beta Let_def split: option.split)

lemma daemon_run_ctrl_ok:
  "ctrl_writes_ok ''aes_seq_0'' False (snd (daemon_run pe handoff bit_exists loads seq_module (log_overlay has rd) args []))"
proof -
  let ?ip = "''aes_seq_0''" and ?ov = "log_overlay has rd"
  let ?clk = "snd (select_clock ?ov (da_aes_freq args) [])"
  let ?cfg = "(da_cfg args)\<lparr>sq_enable := False\<rparr>"
  have clk: "ctrl_writes_ok ?ip False ?clk"
    by (simp add: log_select_clock ctrl_writes_ok_def split: option.split)
  have seq: "ctrl_writes_ok ?ip False (snd (snd (seq_configure_all (log_hw rd ?ip) ?cfg (da_key_hex args) (c, ?clk))))" for c
    using seq_configure_all_kept [of ?ip ?cfg ?clk rd "da_key_hex args" c] clk by simp
  have tail: "ctrl_writes_ok ?ip False (snd (core_setup ?ov (snd (hdmi_setup ?ov force d))))"
    if "ctrl_writes_ok ?ip False d" for force d
    using that unfolding log_core_setup log_hdmi_setup ctrl_writes_ok_append
    by (simp add: ctrl_writes_ok_def)
  have m: "ov_mmio ?ov ?ip = log_hw rd ?ip" by (simp add: log_overlay_def)
  have nil: "ctrl_writes_ok ?ip False []" by (simp add: ctrl_writes_ok_def)
  show ?thesis
    using clk seq tail nil unfolding daemon_run_def
    by (auto simp: case_prod_beta Let_def m split: sum.split prod.split)
qed

section \<open>Properties\<close>

text \<open>
  C28. The daemon never enables the sequencer. On any board, with any answers to its reads and any
  arguments, whether it ends in the hold loop or in an exception: no value the daemon writes to the
  control register of \<^verbatim>\<open>aes_seq_0\<close> has the enable bit set; enabling is left to the separate sender.
\<close>

theorem daemon_never_enables:
  "filter (\<lambda>(ip, a, v). ip = ''aes_seq_0'' \<and> a = REG_CTRL \<and> v AND CTRL_ENABLE \<noteq> 0)
     (snd (daemon_run pe handoff bit_exists loads seq_module (log_overlay has rd) args [])) = []"
  using daemon_run_ctrl_ok [of pe handoff bit_exists loads seq_module has rd args]
  by (auto simp: ctrl_writes_ok_def filter_empty_conv)

text \<open>
  Geometry and mode gate. The daemon reaches its hold loop only in configure-only mode, with the
  bitstream present, and with a payload size that makes header, payload, nonce prefix and tag add up
  to the packet size of the hardware handoff, if the handoff states one.
\<close>

theorem daemon_gate:
  assumes "fst (daemon_run pe handoff bit_exists loads seq_module ov args d) = Inr r"
  shows "da_configure_only args \<and> bit_exists \<and> (\<exists>m. fst (load_pynq (pe_files pe) (pe_interp pe)) = Inr m) \<and> ov_has_ip ov ''aes_seq_0'' \<and>
     (case handoff of None \<Rightarrow> True | Some text \<Rightarrow>
        find_packet_bytes text \<in> {None, Some (8 + 40 + sq_payload_bytes (da_cfg args) + 16)})"
proof -
  have g: "geometry_check handoff (sq_payload_bytes (da_cfg args)) = Inr ()"
    using assms unfolding daemon_run_def
    by (cases "geometry_check handoff (sq_payload_bytes (da_cfg args))") (auto split: if_splits prod.splits sum.splits)
  then have "case handoff of None \<Rightarrow> True | Some text \<Rightarrow>
        find_packet_bytes text \<in> {None, Some (8 + 40 + sq_payload_bytes (da_cfg args) + 16)}"
    by (auto simp: geometry_check_def split: option.splits if_splits)
  moreover have "da_configure_only args \<and> bit_exists \<and> (\<exists>m. fst (load_pynq (pe_files pe) (pe_interp pe)) = Inr m)"
    using assms g by (auto simp: daemon_run_def split: if_splits prod.splits sum.splits)
  moreover have "ov_has_ip ov ''aes_seq_0''"
    using assms g
    by (auto simp: daemon_run_def seq_controller_init_def split: if_splits sum.splits prod.splits)
  ultimately show ?thesis by blast
qed

definition demo_handoff :: string where
  "demo_handoff = ''<PARAMETER NAME='' @ [CHR 0x22] @ ''PACKET_BYTES'' @ [CHR 0x22] @ '' VALUE='' @
     [CHR 0x22] @ ''1384'' @ [CHR 0x22] @ ''/>''"

definition demo_daemon_args :: daemon_args where
  "demo_daemon_args = daemon_default_args\<lparr>da_configure_only := True\<rparr>"

definition demo_daemon_run :: "(seq_status \<times> int option \<times> core_status option) result" where
  "demo_daemon_run = fst (daemon_run demo_py (Some demo_handoff) True (Inr ()) (Inr ())
     (log_overlay (\<lambda>ip. ip = ''aes_seq_0'') (\<lambda>_ _ _. 0)) demo_daemon_args [])"

lemma demo_daemon_holds: "\<exists>r. demo_daemon_run = Inr r"
proof -
  have "(case demo_daemon_run of Inr _ \<Rightarrow> True | Inl _ \<Rightarrow> False)" by code_simp
  then show ?thesis by (auto split: sum.splits)
qed

theorem daemon_gate_witness:
  "find_packet_bytes demo_handoff \<in> {None, Some (8 + 40 + sq_payload_bytes (da_cfg demo_daemon_args) + 16)}"
proof -
  obtain r where "demo_daemon_run = Inr r" using demo_daemon_holds by blast
  from daemon_gate [OF this [unfolded demo_daemon_run_def]] show ?thesis by simp
qed

text \<open>
  Clock selection. With the clock control present as a plain register, 50, 75 and 100 MHz select
  mux inputs 0, 1 and 2, leave the reset bit clear and pass the readback; any other frequency is
  refused before a write.
\<close>

theorem select_clock_exact:
  assumes "ov_has_ip ov ''axi_gpio_clkctrl''" and "reg_file (ov_mmio ov ''axi_gpio_clkctrl'') view"
  shows "case sel_map freq of
      Some sel \<Rightarrow> fst (select_clock ov freq d) = Inr () \<and>
        view (snd (select_clock ov freq d)) 0 = 2 * sel \<and> even (view (snd (select_clock ov freq d)) 0)
    | None \<Rightarrow> select_clock ov freq d = (Inl ValueError, d)"
proof (cases "sel_map freq")
  case None
  then show ?thesis using assms(1) by (simp add: select_clock_def)
next
  case (Some sel)
  let ?hw = "ov_mmio ov ''axi_gpio_clkctrl''"
  have sel: "sel \<in> {0, 1, 2}" using Some by (auto simp: sel_map_def split: if_splits)
  have "drop_bit 1 (push_bit 1 sel) AND 3 = sel" using sel by auto
  moreover have "hw_read ?hw 0 (hw_write ?hw 0 (push_bit 1 sel) d) =
      (push_bit 1 sel, hw_write ?hw 0 (push_bit 1 sel) d)" "view (hw_write ?hw 0 (push_bit 1 sel) d) 0 = push_bit 1 sel"
    using assms(2) by (simp_all add: reg_file_def)
  ultimately show ?thesis using assms(1) Some by (simp add: select_clock_def push_bit_eq_mult)
qed

theorem select_clock_exact_witness:
  "fst (select_clock \<lparr>ov_has_ip = (\<lambda>_. True), ov_mmio = (\<lambda>_. reg_board)\<rparr> 75 (\<lambda>_. 0)) = Inr ()"
  using select_clock_exact [of "\<lparr>ov_has_ip = (\<lambda>_. True), ov_mmio = (\<lambda>_. reg_board)\<rparr>" "\<lambda>d. d" 75 "\<lambda>_. 0"] reg_board_file
  by (simp add: sel_map_def)

end
