(* ===== verification/Ghash.thy ===== *)
theory Ghash
  imports Packet_Schema
begin

text \<open>
  The tag checker \<^verbatim>\<open>pc/runtime/tag_ladder_monitor.py\<close> (\<^verbatim>\<open>pc/runtime/freq_sweep.py\<close> has the same arithmetic and is
  modelled in \<open>Freq_Sweep\<close>): multiplication in the GCM field, GHASH over a ciphertext, the expected tag, and the classification of received slots.
  The AES block cipher (\<^verbatim>\<open>ecb\<close>) and \<^verbatim>\<open>AESGCM.decrypt\<close> belong to the cryptography package and are
  parameters.

  The lemmas show that \<open>gf_mul\<close> is bilinear, commutative, stays inside 128 bits and has the unit
  \<open>2\<^sup>1\<^sup>2\<^sup>7\<close>, and that \<open>ghash\<close> is the sum of the blocks multiplied by powers of the key: the loop
  form equals the polynomial form.
\<close>

section \<open>Definitions\<close>

definition GF_R :: int where
  "GF_R = 0xE1000000000000000000000000000000"

definition gf_shift :: "int \<Rightarrow> int" where
  "gf_shift v = (if v AND 1 \<noteq> 0 then drop_bit 1 v XOR GF_R else drop_bit 1 v)"

definition gf_step :: "int \<Rightarrow> nat \<Rightarrow> int \<times> int \<Rightarrow> int \<times> int" where
  "gf_step x i zv =
     (case zv of (z, v) \<Rightarrow>
        (if drop_bit (127 - i) x AND 1 \<noteq> 0 then z XOR v else z, gf_shift v))"

definition gf_mul :: "int \<Rightarrow> int \<Rightarrow> int" where
  "gf_mul x y = fst (fold (gf_step x) [0..<128] (0, y))"

definition GHASH_LENGTH_BITS :: int where
  "GHASH_LENGTH_BITS = 9728"

definition ghash_acc :: "int \<Rightarrow> bytes list \<Rightarrow> int" where
  "ghash_acc H blocks = foldl (\<lambda>y b. gf_mul (y XOR from_bytes_be b) H) 0 blocks"

definition ghash :: "int \<Rightarrow> bytes list \<Rightarrow> bytes result" where
  "ghash H blocks =
     bind_r (to_bytes_be 16 GHASH_LENGTH_BITS) (\<lambda>len.
       to_bytes_be 16 (gf_mul (ghash_acc H blocks XOR from_bytes_be len) H))"

definition xor_bytes :: "bytes \<Rightarrow> bytes \<Rightarrow> bytes" where
  "xor_bytes as bs = map (\<lambda>(a, b). a XOR b) (zip as bs)"

definition blocks_of :: "bytes \<Rightarrow> bytes list" where
  "blocks_of ct = map (\<lambda>i. slice (16 * i) (16 * i + 16) ct) [0..<(length ct + 15) div 16]"

definition expected_tag :: "(bytes \<Rightarrow> bytes) \<Rightarrow> int \<Rightarrow> bytes \<Rightarrow> bytes \<Rightarrow> bytes result" where
  "expected_tag ecb H n ct =
     bind_r (ghash H (blocks_of ct)) (\<lambda>sw. Inr (xor_bytes sw (ecb (n @ [0, 0, 0, 1]))))"

record monitor =
  mon_ok :: int
  mon_bad :: int
  mon_fails :: "(int \<times> bytes \<times> bytes) list"

text \<open>
  One received datagram of \<^verbatim>\<open>main\<close> (the time stamps and the one-shot board dump are not part of the
  state). The computation of the expected tag is inside the handler, so an exception in it would leave
  the loop.
\<close>

definition monitor_step :: "(bytes \<Rightarrow> bytes) \<Rightarrow> (bytes \<Rightarrow> bytes \<Rightarrow> bytes result) \<Rightarrow> int \<Rightarrow> monitor \<Rightarrow> bytes \<Rightarrow>
    unit result \<times> monitor" where
  "monitor_step ecb dec H m d =
     (if length d \<noteq> TRANSPORT_SLOT_BYTES then (Inr (), m\<lparr>mon_bad := mon_bad m + 1\<rparr>)
      else if list_ex (\<lambda>b. b \<noteq> 0) (drop AUTHENTICATED_BODY_BYTES d)
      then (Inr (), m\<lparr>mon_bad := mon_bad m + 1\<rparr>)
      else let body = take AUTHENTICATED_BODY_BYTES d;
               p = from_bytes_be (take 8 body);
               ct = drop 8 (take (length body - 16) body);
               wt = drop (length body - 16) body
           in case bind_r (to_bytes_be 8 p) (\<lambda>pb. Inr ([0, 0, 0, 1] @ pb)) of
                Inl e \<Rightarrow> (Inl e, m)
              | Inr n \<Rightarrow>
                  (case dec n (ct @ wt) of
                     Inr _ \<Rightarrow> (Inr (), m\<lparr>mon_ok := mon_ok m + 1\<rparr>)
                   | Inl _ \<Rightarrow>
                       (case expected_tag ecb H n ct of
                          Inl e \<Rightarrow> (Inl e, m\<lparr>mon_bad := mon_bad m + 1\<rparr>)
                        | Inr ex \<Rightarrow> (Inr (), m\<lparr>mon_bad := mon_bad m + 1,
                                               mon_fails := mon_fails m @ [(p, wt, ex)]\<rparr>))))"

text \<open>
  \<^verbatim>\<open>main\<close> of the monitor over the events of the measuring time: a datagram, or None when \<^verbatim>\<open>recvfrom\<close>
  times out. An exception ends the run.
\<close>

fun monitor_run :: "(bytes \<Rightarrow> bytes) \<Rightarrow> (bytes \<Rightarrow> bytes \<Rightarrow> bytes result) \<Rightarrow> int \<Rightarrow> monitor \<Rightarrow>
    bytes option list \<Rightarrow> unit result \<times> monitor" where
  "monitor_run ecb dec H m [] = (Inr (), m)"
| "monitor_run ecb dec H m (None # es) = monitor_run ecb dec H m es"
| "monitor_run ecb dec H m (Some d # es) =
     (case monitor_step ecb dec H m d of
        (Inl e, m') \<Rightarrow> (Inl e, m')
      | (Inr _, m') \<Rightarrow> monitor_run ecb dec H m' es)"

definition monitor_main :: "(bytes \<Rightarrow> bytes) \<Rightarrow> (bytes \<Rightarrow> bytes \<Rightarrow> bytes result) \<Rightarrow> bytes option list \<Rightarrow>
    unit result \<times> monitor" where
  "monitor_main ecb dec es =
     monitor_run ecb dec (from_bytes_be (ecb (replicate 16 0)))
       \<lparr>mon_ok = 0, mon_bad = 0, mon_fails = []\<rparr> es"

section \<open>Sums in characteristic two\<close>

interpretation xs: comm_monoid_set "(XOR) :: int \<Rightarrow> int \<Rightarrow> int" 0
  by unfold_locales (simp_all add: ac_simps)

abbreviation xsum :: "(nat \<Rightarrow> int) \<Rightarrow> nat set \<Rightarrow> int" where
  "xsum \<equiv> xs.F"

lemma xsum_if: "xsum (\<lambda>i. if P then f i else 0) A = (if P then xsum f A else 0)"
  by simp

lemma take_bit_xsum: "take_bit n y = xsum (\<lambda>j. if bit y j then 2 ^ j else 0) {0..<n}"
proof (induction n)
  case 0
  show ?case by simp
next
  case (Suc n)
  have "take_bit (Suc n) y = take_bit n y XOR (if bit y n then 2 ^ n else 0)"
    by (rule bit_eqI) (auto simp: bit_simps less_Suc_eq)
  then show ?case using Suc by (simp add: xor.commute)
qed

section \<open>The shift\<close>

lemma and_one_odd: "(v :: int) AND 1 \<noteq> 0 \<longleftrightarrow> odd v"
  by (simp add: and_one_eq odd_iff_mod_2_eq_one)

lemma gf_shift_xor: "gf_shift (a XOR b) = gf_shift a XOR gf_shift b"
  unfolding gf_shift_def and_one_odd
  by (cases "even a"; cases "even b") (simp_all add: drop_bit_xor even_xor_iff ac_simps)

lemma gf_shift_0 [simp]: "gf_shift 0 = 0"
  by (simp add: gf_shift_def)

lemma gf_shifts_xor: "(gf_shift ^^ n) (a XOR b) = (gf_shift ^^ n) a XOR (gf_shift ^^ n) b"
  by (induction n) (simp_all add: gf_shift_xor)

lemma gf_shifts_0 [simp]: "(gf_shift ^^ n) 0 = 0"
  by (induction n) simp_all

lemma gf_shifts_xsum:
  assumes "finite A"
  shows "(gf_shift ^^ n) (xsum f A) = xsum (\<lambda>i. (gf_shift ^^ n) (f i)) A"
  using assms by (induction A rule: finite_induct) (simp_all add: gf_shifts_xor)

lemma gf_shift_unit: "j \<le> 127 \<Longrightarrow> (gf_shift ^^ j) (2 ^ 127) = 2 ^ (127 - j)"
proof (induction j)
  case 0
  show ?case by simp
next
  case (Suc j)
  then have "127 - j = Suc (127 - Suc j)" by simp
  then have "(2 :: int) ^ (127 - j) = 2 * 2 ^ (127 - Suc j)" by (metis power_Suc)
  with Suc show ?case by (simp add: gf_shift_def and_one_odd drop_bit_eq_div)
qed

definition in_field :: "int \<Rightarrow> bool" where
  "in_field v \<longleftrightarrow> 0 \<le> v \<and> v < 2 ^ 128"

lemma in_field_take_bit: "in_field v \<longleftrightarrow> take_bit 128 v = v"
  unfolding in_field_def by (auto simp: take_bit_int_eq_self_iff)

lemma in_field_xor: "in_field a \<Longrightarrow> in_field b \<Longrightarrow> in_field (a XOR b)"
  by (simp add: in_field_take_bit take_bit_xor)

lemma in_field_shift: "in_field v \<Longrightarrow> in_field (gf_shift v)"
proof -
  assume v: "in_field v"
  then have "in_field (drop_bit 1 v)" by (auto simp: in_field_def drop_bit_eq_div)
  moreover have "in_field GF_R" by (simp add: in_field_def GF_R_def)
  ultimately show ?thesis by (simp add: gf_shift_def in_field_xor)
qed

lemma in_field_shifts: "in_field v \<Longrightarrow> in_field ((gf_shift ^^ n) v)"
  by (induction n) (simp_all add: in_field_shift)

lemma in_field_xsum:
  assumes "finite A" and "\<And>i. in_field (f i)"
  shows "in_field (xsum f A)"
  using assms(1) by (induction A rule: finite_induct) (simp_all add: assms(2) in_field_xor, simp add: in_field_def)

section \<open>Multiplication\<close>

lemma gf_loop:
  "fold (gf_step x) [0..<n] (0, y) =
     (xsum (\<lambda>i. if bit x (127 - i) then (gf_shift ^^ i) y else 0) {0..<n}, (gf_shift ^^ n) y)"
proof (induction n)
  case 0
  show ?case by simp
next
  case (Suc n)
  have "drop_bit (127 - n) x AND 1 \<noteq> 0 \<longleftrightarrow> bit x (127 - n)"
    unfolding and_one_odd by (simp add: bit_iff_odd_drop_bit)
  then show ?case using Suc by (simp add: gf_step_def xor.commute)
qed

lemma gf_mul_xsum: "gf_mul x y = xsum (\<lambda>i. if bit x (127 - i) then (gf_shift ^^ i) y else 0) {0..<128}"
  unfolding gf_mul_def gf_loop by simp

lemma gf_mul_xor_right: "gf_mul x (a XOR b) = gf_mul x a XOR gf_mul x b"
  unfolding gf_mul_xsum xs.distrib [symmetric]
  by (rule xs.cong) (simp_all add: gf_shifts_xor)

lemma gf_mul_xor_left: "gf_mul (a XOR b) y = gf_mul a y XOR gf_mul b y"
  unfolding gf_mul_xsum xs.distrib [symmetric]
  by (rule xs.cong) (auto simp: bit_xor_iff)

lemma gf_mul_in_field: "in_field y \<Longrightarrow> in_field (gf_mul x y)"
  unfolding gf_mul_xsum by (rule in_field_xsum) (simp_all add: in_field_shifts, simp add: in_field_def)

lemma field_decomposition:
  assumes "in_field y"
  shows "y = xsum (\<lambda>j. if bit y (127 - j) then (gf_shift ^^ j) (2 ^ 127) else 0) {0..<128}"
proof -
  have "y = xsum (\<lambda>j. if bit y j then 2 ^ j else 0) {0..<128}"
    using assms take_bit_xsum [of 128 y] by (simp add: in_field_take_bit)
  also have "\<dots> = xsum (\<lambda>j. if bit y (127 - j) then 2 ^ (127 - j) else 0) {0..<128}"
    by (subst xs.atLeastLessThan_rev, rule xs.cong) simp_all
  also have "\<dots> = xsum (\<lambda>j. if bit y (127 - j) then (gf_shift ^^ j) (2 ^ 127) else 0) {0..<128}"
    by (intro xs.cong refl) (simp add: gf_shift_unit del: power_numeral)
  finally show ?thesis .
qed

lemma gf_mul_double:
  assumes "in_field y"
  shows "gf_mul x y = xsum (\<lambda>i. xsum (\<lambda>j.
     if bit x (127 - i) \<and> bit y (127 - j) then (gf_shift ^^ (i + j)) (2 ^ 127) else 0) {0..<128}) {0..<128}"
  unfolding gf_mul_xsum
proof (rule xs.cong)
  fix i
  have "(gf_shift ^^ i) y = xsum (\<lambda>j. (gf_shift ^^ i) (if bit y (127 - j) then (gf_shift ^^ j) (2 ^ 127) else 0)) {0..<128}"
    by (subst field_decomposition [OF assms]) (simp add: gf_shifts_xsum)
  also have "\<dots> = xsum (\<lambda>j. if bit y (127 - j) then (gf_shift ^^ (i + j)) (2 ^ 127) else 0) {0..<128}"
    by (rule xs.cong) (simp_all add: funpow_add)
  finally show "(if bit x (127 - i) then (gf_shift ^^ i) y else 0) = xsum (\<lambda>j.
     if bit x (127 - i) \<and> bit y (127 - j) then (gf_shift ^^ (i + j)) (2 ^ 127) else 0) {0..<128}"
    by simp
qed simp

lemma gf_mul_commute:
  assumes "in_field x" and "in_field y"
  shows "gf_mul x y = gf_mul y x"
  unfolding gf_mul_double [OF assms(1)] gf_mul_double [OF assms(2)]
  by (subst xs.swap, intro xs.cong refl) (simp_all add: add.commute conj_commute)

lemma gf_mul_unit: "gf_mul (2 ^ 127) y = y"
proof -
  have "bit (2 ^ 127 :: int) (127 - i) \<longleftrightarrow> i = 0" for i :: nat
    unfolding bit_exp_iff by auto
  then have "gf_mul (2 ^ 127) y = xsum (\<lambda>i. if i = 0 then y else 0) {0..<128}"
    unfolding gf_mul_xsum by (intro xs.cong refl) (simp del: power_numeral)
  then show ?thesis by (simp add: xs.delta del: power_numeral)
qed

lemma gf_shifts_commute: "(gf_shift ^^ m) ((gf_shift ^^ n) y) = (gf_shift ^^ n) ((gf_shift ^^ m) y)"
  by (metis add.commute comp_apply funpow_add)

lemma gf_shifts_mul_right: "gf_mul x ((gf_shift ^^ n) y) = (gf_shift ^^ n) (gf_mul x y)"
  unfolding gf_mul_xsum gf_shifts_xsum [OF finite_atLeastLessThan]
  by (intro xs.cong refl) (simp add: gf_shifts_commute [of _ n])

lemma gf_shifts_mul_left:
  assumes "in_field x" and "in_field y"
  shows "gf_mul ((gf_shift ^^ n) x) y = (gf_shift ^^ n) (gf_mul x y)"
  using assms
  by (simp add: gf_mul_commute [of _ y] in_field_shifts gf_shifts_mul_right)

lemma gf_mul_0 [simp]: "gf_mul 0 y = 0" "gf_mul x 0 = 0"
  by (simp_all add: gf_mul_xsum cong: if_cong)

lemma gf_mul_xsum_left:
  assumes "finite A"
  shows "gf_mul (xsum f A) y = xsum (\<lambda>i. gf_mul (f i) y) A"
  using assms by (induction A rule: finite_induct) (simp_all add: gf_mul_xor_left)

lemma gf_mul_assoc:
  assumes "in_field y" and "in_field z"
  shows "gf_mul (gf_mul x y) z = gf_mul x (gf_mul y z)"
  unfolding gf_mul_xsum [of x] gf_mul_xsum_left [OF finite_atLeastLessThan]
  by (intro xs.cong refl) (simp add: gf_shifts_mul_left [OF assms])

text \<open>
  C38. The bit-serial multiplication of the tag checkers (\<^verbatim>\<open>gf_mul\<close>) is the multiplication of a commutative
  ring on 128-bit values: it stays within 128 bits, it is commutative and associative, it distributes
  over XOR, and the value whose top bit alone is set is its unit.
\<close>

theorem gf_mul_ring:
  assumes "in_field x" and "in_field y" and "in_field z"
  shows "in_field (gf_mul x y) \<and> gf_mul x y = gf_mul y x \<and>
     gf_mul (gf_mul x y) z = gf_mul x (gf_mul y z) \<and>
     gf_mul x (y XOR z) = gf_mul x y XOR gf_mul x z \<and> gf_mul (2 ^ 127) x = x"
  using gf_mul_in_field [OF assms(2)] gf_mul_commute [OF assms(1,2)] gf_mul_assoc [OF assms(2,3)]
    gf_mul_xor_right gf_mul_unit by blast

theorem gf_mul_ring_witness:
  "gf_mul 3 5 = gf_mul 5 3 \<and> gf_mul (gf_mul 3 5) 9 = gf_mul 3 (gf_mul 5 9)"
proof -
  have "in_field 3" "in_field 5" "in_field 9" by (simp_all add: in_field_def)
  from gf_mul_ring [OF this] show ?thesis by blast
qed

section \<open>The hash\<close>

text \<open>Powers of the hash key, and the hash as a polynomial in it.\<close>

primrec gf_pow :: "int \<Rightarrow> nat \<Rightarrow> int" where
  "gf_pow H 0 = 2 ^ 127"
| "gf_pow H (Suc n) = gf_mul (gf_pow H n) H"

definition ghash_poly :: "int \<Rightarrow> int list \<Rightarrow> int" where
  "ghash_poly H cs = xsum (\<lambda>i. gf_mul (cs ! i) (gf_pow H (length cs - i))) {0..<length cs}"

lemma in_field_pow: "in_field H \<Longrightarrow> in_field (gf_pow H n)"
  by (cases n) (simp_all add: gf_mul_in_field, simp add: in_field_def)

lemma ghash_poly_snoc:
  assumes "in_field H"
  shows "ghash_poly H (cs @ [c]) = gf_mul (ghash_poly H cs XOR c) H"
proof -
  let ?n = "length cs"
  have "ghash_poly H (cs @ [c]) =
      xsum (\<lambda>i. gf_mul ((cs @ [c]) ! i) (gf_pow H (Suc ?n - i))) {0..<?n} XOR gf_mul c (gf_pow H 1)"
    unfolding ghash_poly_def by (simp add: xor.commute del: gf_pow.simps)
  also have "xsum (\<lambda>i. gf_mul ((cs @ [c]) ! i) (gf_pow H (Suc ?n - i))) {0..<?n} =
      xsum (\<lambda>i. gf_mul (gf_mul (cs ! i) (gf_pow H (?n - i))) H) {0..<?n}"
    by (intro xs.cong refl)
      (simp add: nth_append Suc_diff_le less_imp_le gf_mul_assoc [OF in_field_pow [OF assms] assms])
  also have "\<dots> = gf_mul (ghash_poly H cs) H"
    unfolding ghash_poly_def by (simp add: gf_mul_xsum_left)
  finally show ?thesis by (simp add: gf_mul_xor_left gf_mul_unit del: power_numeral)
qed

lemma ghash_acc_poly:
  assumes "in_field H"
  shows "ghash_acc H bs = ghash_poly H (map from_bytes_be bs)"
proof (induction bs rule: rev_induct)
  case Nil
  show ?case by (simp add: ghash_acc_def ghash_poly_def)
next
  case (snoc b bs)
  then show ?case by (simp add: ghash_acc_def ghash_poly_snoc [OF assms])
qed

lemma stale_length_inverse: "gf_mul 3200 162573284788762156558179977149454323094 = 2 ^ 127"
  by code_simp

lemma in_field_256: "in_field v \<longleftrightarrow> 0 \<le> v \<and> v < 256 ^ 16"
  by (simp add: in_field_def)

lemma length_block: "to_bytes_be 16 GHASH_LENGTH_BITS = Inr (be_bytes 16 9728)"
    "from_bytes_be (be_bytes 16 9728) = 9728"
  by (simp_all add: to_bytes_be_def GHASH_LENGTH_BITS_def from_be_bytes_id)

lemma ghash_value:
  assumes "in_field H"
  shows "ghash H bs = Inr (be_bytes 16 (ghash_poly H (map from_bytes_be bs @ [9728])))"
proof -
  have "in_field (gf_mul (ghash_acc H bs XOR 9728) H)" by (rule gf_mul_in_field [OF assms])
  then show ?thesis
    unfolding ghash_def length_block
    by (simp add: bind_r_def length_block to_bytes_be_def in_field_256 ghash_poly_snoc [OF assms]
        ghash_acc_poly [OF assms])
qed

text \<open>
  For every 128-bit hash key, \<^verbatim>\<open>ghash\<close> returns 16 bytes and never raises: the big-endian form of the
  polynomial in the key whose coefficients are the blocks followed by the constant length word 9728.
\<close>

theorem ghash_polynomial:
  assumes "in_field H"
  shows "ghash H bs = Inr (be_bytes 16 (ghash_poly H (map from_bytes_be bs @ [9728]))) \<and>
     length (be_bytes 16 (ghash_poly H (map from_bytes_be bs @ [9728]))) = 16"
  by (simp add: ghash_value [OF assms])

theorem ghash_polynomial_witness:
  "ghash 7 [[1, 2]] = Inr (be_bytes 16 (ghash_poly 7 [258, 9728]))"
proof -
  have "in_field 7" by (simp add: in_field_def)
  from ghash_polynomial [OF this, of "[[1, 2]]"] show ?thesis by (simp add: from_bytes_be_def)
qed

section \<open>The expected tag against the standard\<close>

text \<open>
  The GCM tag of a ciphertext without additional data, for a length that is a multiple of the block:
  the length word is the number of ciphertext bits.
\<close>

definition gcm_tag :: "(bytes \<Rightarrow> bytes) \<Rightarrow> int \<Rightarrow> bytes \<Rightarrow> bytes \<Rightarrow> bytes" where
  "gcm_tag ecb H n ct =
     xor_bytes (be_bytes 16 (ghash_poly H (map from_bytes_be (blocks_of ct) @ [8 * int (length ct)])))
       (ecb (n @ [0, 0, 0, 1]))"

lemma xor_bytes_cancel:
  "length as = length ks \<Longrightarrow> length bs = length ks \<Longrightarrow>
     xor_bytes as ks = xor_bytes bs ks \<longleftrightarrow> as = bs"
proof (induction as ks arbitrary: bs rule: list_induct2)
  case Nil
  then show ?case by simp
next
  case (Cons a as k ks)
  have "(a XOR k = b XOR k) = (a = b)" for b :: byte
    by (metis xor.assoc xor.right_neutral xor_self_eq)
  with Cons show ?case by (cases bs) (simp_all add: xor_bytes_def)
qed

lemma xor_cancel: "(x :: int) XOR a = x XOR b \<longleftrightarrow> a = b"
  by (metis xor.assoc xor.left_neutral xor_self_eq)

lemma xor_eq_0: "(a :: int) XOR b = 0 \<longleftrightarrow> a = b"
  by (metis xor_cancel xor_self_eq)

lemma ghash_poly_last_eq:
  assumes "in_field H"
  shows "ghash_poly H (cs @ [a]) = ghash_poly H (cs @ [b]) \<longleftrightarrow> gf_mul (a XOR b) H = 0"
  unfolding ghash_poly_snoc [OF assms] gf_mul_xor_left by (simp add: xor_cancel xor_eq_0)

lemma stale_length_cancel:
  assumes "in_field H"
  shows "gf_mul 3200 H = 0 \<longleftrightarrow> H = 0"
proof
  let ?i = "162573284788762156558179977149454323094 :: int"
  have i: "in_field ?i" "in_field 3200" by (simp_all add: in_field_def)
  assume "gf_mul 3200 H = 0"
  then have "0 = gf_mul ?i (gf_mul 3200 H)" by simp
  also have "\<dots> = gf_mul (gf_mul 3200 ?i) H"
    using gf_mul_assoc [OF i(2) assms, of ?i] gf_mul_commute [OF i] by simp
  also have "\<dots> = H" unfolding stale_length_inverse by (rule gf_mul_unit)
  finally show "H = 0" by simp
qed simp

lemma ghash_poly_in_field: "in_field H \<Longrightarrow> in_field (ghash_poly H (cs @ [c]))"
  by (simp add: ghash_poly_snoc gf_mul_in_field)

lemma be_bytes_field_inj: "in_field a \<Longrightarrow> in_field b \<Longrightarrow> be_bytes 16 a = be_bytes 16 b \<longleftrightarrow> a = b"
  unfolding in_field_256 by (blast dest: be_bytes_inj)

lemma expected_tag_standard:
  assumes H: "in_field H" and ecb: "length (ecb (n @ [0, 0, 0, 1])) = 16"
  shows "expected_tag ecb H n ct = Inr (gcm_tag ecb H n ct) \<longleftrightarrow>
     gf_mul (9728 XOR 8 * int (length ct)) H = 0"
proof -
  let ?p = "\<lambda>l. ghash_poly H (map from_bytes_be (blocks_of ct) @ [l])"
  have "expected_tag ecb H n ct = Inr (gcm_tag ecb H n ct) \<longleftrightarrow>
      be_bytes 16 (?p 9728) = be_bytes 16 (?p (8 * int (length ct)))"
    by (simp add: expected_tag_def ghash_value [OF H] bind_r_def gcm_tag_def xor_bytes_cancel ecb)
  also have "\<dots> \<longleftrightarrow> ?p 9728 = ?p (8 * int (length ct))"
    by (rule be_bytes_field_inj [OF ghash_poly_in_field [OF H] ghash_poly_in_field [OF H]])
  finally show ?thesis by (simp add: ghash_poly_last_eq [OF H])
qed

text \<open>
  C39. The tag the checkers call expected uses the length word of a 1216-byte ciphertext. For the 1360
  ciphertext bytes that an authenticated body of 1384 bytes carries it differs from the GCM tag for
  every key whose hash subkey is not zero, so the reported word-by-word comparison is against a wrong
  tag; for 1216 bytes it is the GCM tag.
\<close>

theorem expected_tag_stale:
  assumes "in_field H" and "length (ecb (n @ [0, 0, 0, 1])) = 16"
  shows "(length ct = 1360 \<longrightarrow> (expected_tag ecb H n ct = Inr (gcm_tag ecb H n ct) \<longleftrightarrow> H = 0)) \<and>
     (length ct = 1216 \<longrightarrow> expected_tag ecb H n ct = Inr (gcm_tag ecb H n ct))"
  using expected_tag_standard [where ct = ct, OF assms(1), of ecb n, OF assms(2)] stale_length_cancel [OF assms(1)] by auto

theorem expected_tag_stale_witness:
  "expected_tag (\<lambda>_. replicate 16 0) 1 [] (replicate 1360 0) \<noteq>
     Inr (gcm_tag (\<lambda>_. replicate 16 0) 1 [] (replicate 1360 0))"
proof -
  have "in_field 1" by (simp add: in_field_def)
  from expected_tag_stale [OF this, of "\<lambda>_. replicate 16 0" "[]" "replicate 1360 0"]
  show ?thesis by simp
qed

section \<open>The monitor\<close>

definition slot_shaped :: "bytes \<Rightarrow> bool" where
  "slot_shaped d \<longleftrightarrow> length d = TRANSPORT_SLOT_BYTES \<and> list_all (\<lambda>b. b = 0) (drop AUTHENTICATED_BODY_BYTES d)"

definition slot_opens :: "(bytes \<Rightarrow> bytes \<Rightarrow> bytes result) \<Rightarrow> bytes \<Rightarrow> bool" where
  "slot_opens dec d \<longleftrightarrow>
     (\<exists>pt. dec ([0, 0, 0, 1] @ take 8 d) (drop 8 (take AUTHENTICATED_BODY_BYTES d)) = Inr pt)"

lemma drop_take_split: "a \<le> b \<Longrightarrow> b \<le> c \<Longrightarrow> drop a (take b xs) @ drop b (take c xs) = drop a (take c xs)"
proof (cases "length xs \<le> b")
  case False
  assume "a \<le> b" "b \<le> c"
  moreover have "take b xs @ drop b (take c xs) = take c xs"
    using append_take_drop_id [of b "take c xs"] \<open>b \<le> c\<close> by (simp add: min_def)
  ultimately show ?thesis
    using drop_append [of a "take b xs" "drop b (take c xs)"] False by (simp add: min_def)
qed simp

lemma expected_tag_total:
  "in_field H \<Longrightarrow> \<exists>t. expected_tag ecb H n ct = Inr t"
  by (simp add: expected_tag_def ghash_value bind_r_def)

lemma monitor_step_counts:
  assumes "in_field H"
  shows "\<exists>m'. monitor_step ecb dec H m d = (Inr (), m') \<and>
     mon_ok m' = mon_ok m + (if slot_shaped d \<and> slot_opens dec d then 1 else 0) \<and>
     mon_bad m' = mon_bad m + (if slot_shaped d \<and> slot_opens dec d then 0 else 1) \<and>
     length (mon_fails m') = length (mon_fails m) + (if slot_shaped d \<and> \<not> slot_opens dec d then 1 else 0)"
proof (cases "slot_shaped d")
  case False
  then show ?thesis by (auto simp: monitor_step_def slot_shaped_def list_all_iff list_ex_iff)
next
  case True
  let ?body = "take AUTHENTICATED_BODY_BYTES d"
  have len: "length d = 1408" and b: "AUTHENTICATED_BODY_BYTES = 1384"
    using True by (simp_all add: slot_shaped_def TRANSPORT_SLOT_BYTES_def AUTHENTICATED_BODY_BYTES_def)
  have nonce: "to_bytes_be 8 (from_bytes_be (take 8 d)) = Inr (take 8 d)"
    using from_bytes_be_lt [of "take 8 d"] be_bytes_from [of "take 8 d"] len by (simp add: to_bytes_be_def)
  have split: "drop 8 (take (length ?body - 16) ?body) @ drop (length ?body - 16) ?body = drop 8 ?body"
    using len by (simp add: b drop_take_split)
  obtain t where t: "expected_tag ecb H ([0, 0, 0, 1] @ take 8 d) (drop 8 (take (length ?body - 16) ?body)) = Inr t"
    using expected_tag_total [OF assms] by blast
  show ?thesis
  proof (cases "dec ([0, 0, 0, 1] @ take 8 d) (drop 8 ?body)")
    case (Inl e)
    then show ?thesis using True nonce split t len
      by (simp add: monitor_step_def slot_shaped_def slot_opens_def b bind_r_def Let_def TRANSPORT_SLOT_BYTES_def list_ex_iff list_all_iff)
  next
    case (Inr pt)
    then show ?thesis using True nonce split len
      by (simp add: monitor_step_def slot_shaped_def slot_opens_def b bind_r_def Let_def TRANSPORT_SLOT_BYTES_def list_ex_iff list_all_iff)
  qed
qed

lemma monitor_run_counts:
  assumes H: "in_field H"
  shows "\<exists>m'. monitor_run ecb dec H m es = (Inr (), m') \<and>
     mon_ok m' = mon_ok m + int (length (filter (\<lambda>d. slot_shaped d \<and> slot_opens dec d) (List.map_filter id es))) \<and>
     mon_bad m' = mon_bad m + int (length (filter (\<lambda>d. \<not> (slot_shaped d \<and> slot_opens dec d)) (List.map_filter id es))) \<and>
     length (mon_fails m') = length (mon_fails m) +
        length (filter (\<lambda>d. slot_shaped d \<and> \<not> slot_opens dec d) (List.map_filter id es))"
proof (induction es arbitrary: m)
  case Nil
  show ?case by (simp add: map_filter_simps)
next
  case (Cons e es)
  show ?case
  proof (cases e)
    case None
    then show ?thesis using Cons.IH [of m] by (simp add: map_filter_simps)
  next
    case (Some d)
    obtain m1 where "monitor_step ecb dec H m d = (Inr (), m1)"
      "mon_ok m1 = mon_ok m + (if slot_shaped d \<and> slot_opens dec d then 1 else 0)"
      "mon_bad m1 = mon_bad m + (if slot_shaped d \<and> slot_opens dec d then 0 else 1)"
      "length (mon_fails m1) = length (mon_fails m) + (if slot_shaped d \<and> \<not> slot_opens dec d then 1 else 0)"
      using monitor_step_counts [OF H, of ecb dec m d] by blast
    then show ?thesis using Cons.IH [of m1] Some by (auto simp: map_filter_simps)
  qed
qed

lemma in_field_ecb: "length (ecb (replicate 16 0)) = 16 \<Longrightarrow> in_field (from_bytes_be (ecb (replicate 16 0)))"
  using from_bytes_be_lt [of "ecb (replicate 16 0)"] by (simp add: in_field_256)

text \<open>
  The tag monitor counts every datagram once and never leaves its loop through an exception: the good
  count is the number of slots of the transport size, with zero padding, that decrypt under the nonce in
  their first eight bytes; the bad count is the number of all other datagrams; and one entry is listed for every
  slot of the right shape that fails to decrypt. The only fact used of the block cipher is that it returns 16
  bytes on the zero block.
\<close>

theorem monitor_counts:
  assumes "length (ecb (replicate 16 0)) = 16"
  shows "\<exists>m. monitor_main ecb dec es = (Inr (), m) \<and>
     mon_ok m = int (length (filter (\<lambda>d. slot_shaped d \<and> slot_opens dec d) (List.map_filter id es))) \<and>
     mon_bad m = int (length (filter (\<lambda>d. \<not> (slot_shaped d \<and> slot_opens dec d)) (List.map_filter id es))) \<and>
     length (mon_fails m) = length (filter (\<lambda>d. slot_shaped d \<and> \<not> slot_opens dec d) (List.map_filter id es))"
  using monitor_run_counts [OF in_field_ecb [of ecb, OF assms],
      of ecb dec "\<lparr>mon_ok = 0, mon_bad = 0, mon_fails = []\<rparr>" es]
  by (simp add: monitor_main_def)

theorem monitor_counts_witness:
  "\<exists>m. monitor_main (\<lambda>_. replicate 16 5) (\<lambda>n c. Inr c) [Some (replicate 1408 0), None, Some [1]] = (Inr (), m) \<and>
     mon_ok m = 1 \<and> mon_bad m = 1"
proof -
  have "slot_shaped (replicate 1408 0)" "slot_opens (\<lambda>n c. Inr c) (replicate 1408 0)" "\<not> slot_shaped [1]"
    by (simp_all add: slot_shaped_def slot_opens_def TRANSPORT_SLOT_BYTES_def AUTHENTICATED_BODY_BYTES_def list_all_iff)
  then show ?thesis
    using monitor_counts [of "\<lambda>_. replicate 16 5" "\<lambda>n c. Inr c" "[Some (replicate 1408 0), None, Some [1]]"]
    by (auto simp: map_filter_simps)
qed

end
