(* ===== verification/Freq_Sweep.thy ===== *)
theory Freq_Sweep
  imports Ghash
begin

text \<open>
  \<^verbatim>\<open>pc/runtime/freq_sweep.py\<close>: for each clock frequency the board is stopped and started again over ssh, and one
  measuring leg checks the tags of what it sends. The board behind ssh is the parameter \<open>ssh\<close>: a command
  and a timeout give the output or the exception of \<^verbatim>\<open>subprocess.run\<close>, over an arbitrary state. The texts of the
  shell commands are the constructors of \<open>board_cmd\<close>. What a leg receives, and whether it can open and bind its socket, are
  functions of the frequency; \<open>None\<close> is a receive that times out.

  The lemmas show that a leg counts exactly like the ladder monitor, which commands the board gets in which
  order, and which failures of ssh end the sweep.
\<close>

section \<open>Definitions\<close>

datatype board_cmd = KillCmd | DaemonCmd int | DaemonLogCmd | ShimCmd | ShimLogCmd | DumpCmd

type_synonym 'd ssh = "board_cmd \<Rightarrow> int \<Rightarrow> 'd \<Rightarrow> string result \<times> 'd"

definition board_kill :: "'d ssh \<Rightarrow> 'd \<Rightarrow> unit result \<times> 'd" where
  "board_kill ssh d = (case ssh KillCmd 45 d of (r, d') \<Rightarrow> (bind_r r (\<lambda>_. Inr ()), d'))"

text \<open>A launch whose ssh call times out goes on: the started program keeps the connection open.\<close>

definition try_launch :: "'d ssh \<Rightarrow> board_cmd \<Rightarrow> 'd \<Rightarrow> unit result \<times> 'd" where
  "try_launch ssh c d =
     (case ssh c 40 d of
        (Inl e, d') \<Rightarrow> (if e = TimeoutExpired then Inr () else Inl e, d')
      | (Inr _, d') \<Rightarrow> (Inr (), d'))"

definition read_log :: "'d ssh \<Rightarrow> board_cmd \<Rightarrow> 'd \<Rightarrow> unit result \<times> 'd" where
  "read_log ssh c d = (case ssh c 30 d of (r, d') \<Rightarrow> (bind_r r (\<lambda>_. Inr ()), d'))"

definition and_then :: "unit result \<times> 'd \<Rightarrow> ('d \<Rightarrow> 'a result \<times> 'd) \<Rightarrow> 'a result \<times> 'd" where
  "and_then r f = (case r of (Inl e, d) \<Rightarrow> (Inl e, d) | (Inr _, d) \<Rightarrow> f d)"

definition board_launch :: "'d ssh \<Rightarrow> int \<Rightarrow> 'd \<Rightarrow> unit result \<times> 'd" where
  "board_launch ssh freq d =
     and_then (try_launch ssh (DaemonCmd freq) d) (\<lambda>d1.
     and_then (read_log ssh DaemonLogCmd d1) (\<lambda>d2.
     and_then (try_launch ssh ShimCmd d2) (\<lambda>d3.
     read_log ssh ShimLogCmd d3)))"

record leg =
  leg_ok :: int
  leg_bad :: int
  leg_dumped :: bool

text \<open>The two dumps at the first failing tag; whatever ssh raises is printed and forgotten.\<close>

definition dump_board :: "'d ssh \<Rightarrow> leg \<Rightarrow> 'd \<Rightarrow> leg \<times> 'd" where
  "dump_board ssh m d =
     (if leg_dumped m then (m, d)
      else (m\<lparr>leg_dumped := True\<rparr>, snd (ssh DumpCmd 30 (snd (ssh DumpCmd 30 d)))))"

definition leg_step :: "'d ssh \<Rightarrow> (bytes \<Rightarrow> bytes) \<Rightarrow> (bytes \<Rightarrow> bytes \<Rightarrow> bytes result) \<Rightarrow> int \<Rightarrow> leg \<times> 'd \<Rightarrow> bytes \<Rightarrow>
    unit result \<times> leg \<times> 'd" where
  "leg_step ssh ecb dec H s data =
     (let m = fst s; m_bad = m\<lparr>leg_bad := leg_bad m + 1\<rparr>
      in if length data \<noteq> TRANSPORT_SLOT_BYTES \<or> list_ex (\<lambda>b. b \<noteq> 0) (drop AUTHENTICATED_BODY_BYTES data)
         then (Inr (), m_bad, snd s)
         else let body = take AUTHENTICATED_BODY_BYTES data;
                  p = from_bytes_be (take 8 body);
                  ct = drop 8 (take (length body - 16) body);
                  wt = drop (length body - 16) body
              in case bind_r (to_bytes_be 8 p) (\<lambda>pb. Inr ([0, 0, 0, 1] @ pb)) of
                   Inl e \<Rightarrow> (Inl e, s)
                 | Inr n \<Rightarrow>
                     (case dec n (ct @ wt) of
                        Inr _ \<Rightarrow> (Inr (), m\<lparr>leg_ok := leg_ok m + 1\<rparr>, snd s)
                      | Inl _ \<Rightarrow>
                          (case expected_tag ecb H n ct of
                             Inl e \<Rightarrow> (Inl e, m_bad, snd s)
                           | Inr _ \<Rightarrow> (Inr (), dump_board ssh m_bad (snd s)))))"

fun leg_loop :: "'d ssh \<Rightarrow> (bytes \<Rightarrow> bytes) \<Rightarrow> (bytes \<Rightarrow> bytes \<Rightarrow> bytes result) \<Rightarrow> int \<Rightarrow> leg \<times> 'd \<Rightarrow>
    bytes option list \<Rightarrow> unit result \<times> leg \<times> 'd" where
  "leg_loop ssh ecb dec H s [] = (Inr (), s)"
| "leg_loop ssh ecb dec H s (None # es) = leg_loop ssh ecb dec H s es"
| "leg_loop ssh ecb dec H s (Some data # es) =
     (case leg_step ssh ecb dec H s data of
        (Inl e, s') \<Rightarrow> (Inl e, s')
      | (Inr _, s') \<Rightarrow> leg_loop ssh ecb dec H s' es)"

definition monitor_leg :: "'d ssh \<Rightarrow> (bytes \<Rightarrow> bytes) \<Rightarrow> (bytes \<Rightarrow> bytes \<Rightarrow> bytes result) \<Rightarrow> int \<Rightarrow>
    unit result \<Rightarrow> bytes option list \<Rightarrow> 'd \<Rightarrow> (int \<times> int) result \<times> 'd" where
  "monitor_leg ssh ecb dec H opened es d =
     (case opened of
        Inl e \<Rightarrow> (Inl e, d)
      | Inr _ \<Rightarrow>
          (case leg_loop ssh ecb dec H (\<lparr>leg_ok = 0, leg_bad = 0, leg_dumped = False\<rparr>, d) es of
             (r, m, d') \<Rightarrow> (bind_r r (\<lambda>_. Inr (leg_ok m, leg_bad m)), d')))"

definition FREQS :: "int list" where
  "FREQS = [50, 75, 100]"

fun sweep_legs :: "'d ssh \<Rightarrow> (bytes \<Rightarrow> bytes) \<Rightarrow> (bytes \<Rightarrow> bytes \<Rightarrow> bytes result) \<Rightarrow> int \<Rightarrow>
    (int \<Rightarrow> unit result) \<Rightarrow> (int \<Rightarrow> bytes option list) \<Rightarrow> int list \<Rightarrow> 'd \<Rightarrow> (int \<times> int \<times> int) list result \<times> 'd" where
  "sweep_legs ssh ecb dec H opens events [] d = (Inr [], d)"
| "sweep_legs ssh ecb dec H opens events (f # fs) d =
     and_then (board_kill ssh d) (\<lambda>d1.
     and_then (board_launch ssh f d1) (\<lambda>d2.
       case monitor_leg ssh ecb dec H (opens f) (events f) d2 of
         (Inl e, d3) \<Rightarrow> (Inl e, d3)
       | (Inr (ok, bad), d3) \<Rightarrow>
           (case sweep_legs ssh ecb dec H opens events fs d3 of
              (r, d4) \<Rightarrow> (bind_r r (\<lambda>summary. Inr ((f, ok, bad) # summary)), d4))))"

definition sweep_main :: "'d ssh \<Rightarrow> (bytes \<Rightarrow> bytes) \<Rightarrow> (bytes \<Rightarrow> bytes \<Rightarrow> bytes result) \<Rightarrow>
    (int \<Rightarrow> unit result) \<Rightarrow> (int \<Rightarrow> bytes option list) \<Rightarrow> 'd \<Rightarrow> (int \<times> int \<times> int) list result \<times> 'd" where
  "sweep_main ssh ecb dec opens events d =
     sweep_legs ssh ecb dec (from_bytes_be (ecb (replicate 16 0))) opens events FREQS d"

section \<open>A leg counts like the monitor\<close>

definition leg_of :: "monitor \<Rightarrow> leg" where
  "leg_of m = \<lparr>leg_ok = mon_ok m, leg_bad = mon_bad m, leg_dumped = mon_fails m \<noteq> []\<rparr>"

text \<open>What the board is asked for during a leg: two dumps when the failures begin, nothing else.\<close>

definition dumps :: "'d ssh \<Rightarrow> monitor \<Rightarrow> monitor \<Rightarrow> 'd \<Rightarrow> 'd" where
  "dumps ssh m m' d =
     (if mon_fails m = [] \<and> mon_fails m' \<noteq> [] then snd (ssh DumpCmd 30 (snd (ssh DumpCmd 30 d))) else d)"

lemma monitor_step_fails: "mon_fails m \<noteq> [] \<Longrightarrow> mon_fails (snd (monitor_step ecb dec H m d)) \<noteq> []"
  by (auto simp: monitor_step_def Let_def split: sum.splits)

lemma monitor_run_fails: "mon_fails m \<noteq> [] \<Longrightarrow> mon_fails (snd (monitor_run ecb dec H m es)) \<noteq> []"
proof (induction es arbitrary: m)
  case (Cons e es)
  show ?case
  proof (cases e)
    case None
    then show ?thesis using Cons by simp
  next
    case (Some data)
    obtain r m1 where s: "monitor_step ecb dec H m data = (r, m1)" by (cases "monitor_step ecb dec H m data")
    then have "mon_fails m1 \<noteq> []" using monitor_step_fails [OF Cons.prems, of ecb dec H data] by simp
    then show ?thesis using Cons.IH [of m1] s Some by (cases r) simp_all
  qed
qed simp

lemma leg_step_monitor:
  assumes "in_field H"
  shows "leg_step ssh ecb dec H (leg_of m, d) data =
     (case monitor_step ecb dec H m data of (r, m') \<Rightarrow> (r, leg_of m', dumps ssh m m' d))"
  by (auto simp: leg_step_def monitor_step_def Let_def expected_tag_def ghash_value [OF assms] bind_r_def
      leg_of_def dumps_def dump_board_def split: sum.splits)

lemma dumps_trans:
  assumes "mon_fails m1 \<noteq> [] \<Longrightarrow> mon_fails m2 \<noteq> []"
    and "mon_fails m \<noteq> [] \<Longrightarrow> mon_fails m1 \<noteq> []"
  shows "dumps ssh m1 m2 (dumps ssh m m1 d) = dumps ssh m m2 d"
  using assms by (auto simp: dumps_def)

lemma leg_loop_monitor:
  assumes H: "in_field H"
  shows "leg_loop ssh ecb dec H (leg_of m, d) es =
     (case monitor_run ecb dec H m es of (r, m') \<Rightarrow> (r, leg_of m', dumps ssh m m' d))"
proof (induction es arbitrary: m d)
  case Nil
  show ?case by (simp add: dumps_def)
next
  case (Cons e es)
  show ?case
  proof (cases e)
    case None
    then show ?thesis using Cons.IH by simp
  next
    case (Some data)
    obtain r m1 where s: "monitor_step ecb dec H m data = (r, m1)" by (cases "monitor_step ecb dec H m data")
    have "dumps ssh m1 (snd (monitor_run ecb dec H m1 es)) (dumps ssh m m1 d) =
        dumps ssh m (snd (monitor_run ecb dec H m1 es)) d"
      using monitor_step_fails [of m ecb dec H data] s by (intro dumps_trans monitor_run_fails) auto
    then show ?thesis
      using Cons.IH [of m1 "dumps ssh m m1 d"] s Some
      by (auto simp: leg_step_monitor [OF H] split: sum.splits prod.splits)
  qed
qed

lemma monitor_leg_monitor:
  assumes "length (ecb (replicate 16 0)) = 16"
  shows "monitor_leg ssh ecb dec (from_bytes_be (ecb (replicate 16 0))) (Inr ()) es d =
     (let m = snd (monitor_main ecb dec es)
      in (Inr (mon_ok m, mon_bad m), if mon_fails m = [] then d else snd (ssh DumpCmd 30 (snd (ssh DumpCmd 30 d)))))"
proof -
  let ?H = "from_bytes_be (ecb (replicate 16 0))" and ?m = "\<lparr>mon_ok = 0, mon_bad = 0, mon_fails = []\<rparr>"
  note H = in_field_ecb [of ecb, OF assms]
  obtain m where m: "monitor_run ecb dec ?H ?m es = (Inr (), m)" using monitor_run_counts [OF H, of ecb dec ?m es] by blast
  have "\<lparr>leg_ok = 0, leg_bad = 0, leg_dumped = False\<rparr> = leg_of ?m" by (simp add: leg_of_def)
  then have "leg_loop ssh ecb dec ?H (\<lparr>leg_ok = 0, leg_bad = 0, leg_dumped = False\<rparr>, d) es = (Inr (), leg_of m, dumps ssh ?m m d)"
    using leg_loop_monitor [OF H, of ssh ecb dec ?m d es] m by simp
  then show ?thesis using m by (simp add: monitor_leg_def monitor_main_def leg_of_def dumps_def Let_def)
qed

section \<open>The commands of a sweep\<close>

text \<open>A board that records the commands it is given; the answer may depend on all of them.\<close>

definition log_ssh :: "(board_cmd list \<Rightarrow> string result) \<Rightarrow> board_cmd list ssh" where
  "log_ssh reply c timeout cs = (reply (cs @ [c]), cs @ [c])"

lemma snd_log_ssh [simp]: "snd (log_ssh reply c t cs) = cs @ [c]"
  by (simp add: log_ssh_def)

text \<open>Failures that a sweep survives: a launch that times out, and anything during a dump.\<close>

definition survivable :: "board_cmd \<Rightarrow> string result \<Rightarrow> bool" where
  "survivable c r \<longleftrightarrow>
     (case r of
        Inr _ \<Rightarrow> True
      | Inl e \<Rightarrow> c = DumpCmd \<or> e = TimeoutExpired \<and> (case c of DaemonCmd _ \<Rightarrow> True | ShimCmd \<Rightarrow> True | _ \<Rightarrow> False))"

definition leg_cmds :: "int \<Rightarrow> bool \<Rightarrow> board_cmd list" where
  "leg_cmds f failed =
     [KillCmd, DaemonCmd f, DaemonLogCmd, ShimCmd, ShimLogCmd] @ (if failed then [DumpCmd, DumpCmd] else [])"

lemma launch_log:
  assumes "\<And>cs c. survivable c (reply (cs @ [c]))"
  shows "board_kill (log_ssh reply) cs = (Inr (), cs @ [KillCmd])"
    and "board_launch (log_ssh reply) f cs = (Inr (), cs @ [DaemonCmd f, DaemonLogCmd, ShimCmd, ShimLogCmd])"
proof -
  have ok: "bind_r (reply (cs @ [c])) (\<lambda>_. Inr ()) = Inr ()" if "c \<in> {KillCmd, DaemonLogCmd, ShimLogCmd}" for cs c
    using assms [of c cs] that by (auto simp: survivable_def bind_r_def split: sum.splits)
  have launch: "try_launch (log_ssh reply) c cs = (Inr (), cs @ [c])" if "c \<in> {DaemonCmd f, ShimCmd}" for cs c
    using assms [of c cs] that by (auto simp: survivable_def try_launch_def log_ssh_def split: sum.splits)
  show "board_kill (log_ssh reply) cs = (Inr (), cs @ [KillCmd])"
    using ok by (simp add: board_kill_def log_ssh_def)
  show "board_launch (log_ssh reply) f cs = (Inr (), cs @ [DaemonCmd f, DaemonLogCmd, ShimCmd, ShimLogCmd])"
    using ok [of DaemonLogCmd "cs @ [DaemonCmd f]"] ok [of ShimLogCmd "cs @ [DaemonCmd f, DaemonLogCmd, ShimCmd]"]
    by (simp add: board_launch_def launch and_then_def read_log_def log_ssh_def)
qed

text \<open>The first leg whose socket cannot be opened, with the exception; the legs before it.\<close>

fun first_unopened :: "(int \<Rightarrow> unit result) \<Rightarrow> int list \<Rightarrow> (int \<times> py_error) option" where
  "first_unopened opens [] = None"
| "first_unopened opens (f # fs) = (case opens f of Inl e \<Rightarrow> Some (f, e) | Inr _ \<Rightarrow> first_unopened opens fs)"

definition measured :: "(int \<Rightarrow> unit result) \<Rightarrow> int list \<Rightarrow> int list" where
  "measured opens fs = takeWhile (\<lambda>f. opens f = Inr ()) fs"

lemma sweep_legs_log:
  assumes e: "length (ecb (replicate 16 0)) = 16" and r: "\<And>cs c. survivable c (reply (cs @ [c]))"
  shows "sweep_legs (log_ssh reply) ecb dec (from_bytes_be (ecb (replicate 16 0))) opens events fs cs =
     (case first_unopened opens fs of
        None \<Rightarrow> Inr (map (\<lambda>f. (f, mon_ok (snd (monitor_main ecb dec (events f))), mon_bad (snd (monitor_main ecb dec (events f))))) fs)
      | Some (f, e) \<Rightarrow> Inl e,
      cs @ concat (map (\<lambda>f. leg_cmds f (mon_fails (snd (monitor_main ecb dec (events f))) \<noteq> [])) (measured opens fs)) @
        (case first_unopened opens fs of None \<Rightarrow> [] | Some (f, e) \<Rightarrow> leg_cmds f False))"
proof (induction fs arbitrary: cs)
  case (Cons f fs)
  show ?case
  proof (cases "opens f")
    case (Inl e)
    then show ?thesis by (simp add: launch_log [OF r] and_then_def monitor_leg_def measured_def leg_cmds_def)
  next
    case (Inr u)
    then show ?thesis using Cons
      by (simp add: launch_log [OF r] and_then_def monitor_leg_monitor [of ecb, OF e] Let_def leg_cmds_def measured_def
          split: option.split)
  qed
qed (simp add: measured_def)

section \<open>Properties\<close>

text \<open>
  C40. The sweep. On a board that answers every ssh command in any way except for an error while it is stopped, while a
  log is read, or other than a timeout while a program is launched, the sweep goes through the frequencies until a leg
  cannot open or bind its socket. If none fails so, it ends with one row per
  frequency, and the counts in it are those of the ladder monitor on the datagrams of that leg; otherwise it ends with the
  exception of that leg. Over the whole sweep the board gets, per frequency and in this order, the stop, the launch of the daemon,
  its log, the launch of the shim, its log, and two register dumps exactly when a well-formed slot failed to decrypt; the leg
  without a socket gets the first five.
\<close>

theorem sweep_agrees_with_monitor:
  assumes "length (ecb (replicate 16 0)) = 16" and "\<forall>cs c. survivable c (reply (cs @ [c]))"
  shows "sweep_main (log_ssh reply) ecb dec opens events [] =
     (case first_unopened opens [50, 75, 100] of
        None \<Rightarrow> Inr (map (\<lambda>f. (f, mon_ok (snd (monitor_main ecb dec (events f))),
                                mon_bad (snd (monitor_main ecb dec (events f))))) [50, 75, 100])
      | Some (f, e) \<Rightarrow> Inl e,
      concat (map (\<lambda>f. leg_cmds f (mon_fails (snd (monitor_main ecb dec (events f))) \<noteq> [])) (measured opens [50, 75, 100])) @
        (case first_unopened opens [50, 75, 100] of None \<Rightarrow> [] | Some (f, e) \<Rightarrow> leg_cmds f False))"
  using sweep_legs_log [of ecb, OF assms(1), of reply dec opens events FREQS "[]"] assms(2)
  unfolding sweep_main_def FREQS_def append_Nil by blast

theorem sweep_agrees_with_monitor_witness:
  "sweep_main (log_ssh (\<lambda>cs. if last cs = ShimCmd then Inl TimeoutExpired else Inr [])) (\<lambda>_. replicate 16 5)
       (\<lambda>n c. Inr c) (\<lambda>f. if f = 100 then Inl OSError else Inr ()) (\<lambda>f. [None]) [] =
     (Inl OSError, concat (map (\<lambda>f. leg_cmds f False) [50, 75, 100])) \<and>
   sweep_main (log_ssh (\<lambda>cs. if last cs = ShimCmd then Inl TimeoutExpired else Inr [])) (\<lambda>_. replicate 16 5)
       (\<lambda>n c. Inr c) (\<lambda>f. Inr ()) (\<lambda>f. [None]) [] =
     (Inr [(50, 0, 0), (75, 0, 0), (100, 0, 0)], concat (map (\<lambda>f. leg_cmds f False) [50, 75, 100]))"
proof -
  have "\<forall>cs c. survivable c (if last (cs @ [c]) = ShimCmd then Inl TimeoutExpired else Inr [])"
    by (simp add: survivable_def)
  note run = sweep_agrees_with_monitor [of "\<lambda>_. replicate 16 5", OF _ this, of "\<lambda>n c. Inr c" _ "\<lambda>f. [None]"]
  show ?thesis
    using run [of "\<lambda>f. if f = 100 then Inl OSError else Inr ()"] run [of "\<lambda>f. Inr ()"] by (simp add: monitor_main_def measured_def)
qed

text \<open>An error while the board is stopped ends the sweep before the next leg, without a summary.\<close>

lemma sweep_kill_fails:
  assumes "ssh KillCmd 45 d = (Inl e, d')"
  shows "sweep_main ssh ecb dec opens events d = (Inl e, d')"
  using assms by (simp add: sweep_main_def FREQS_def board_kill_def and_then_def)

end
