(* ===== verification/Rx_Tools.thy ===== *)
theory Rx_Tools
  imports Packet_Schema
begin

text \<open>
  The single-purpose receivers \<^verbatim>\<open>pc/runtime/rx_lossless.py\<close> (counts packets, gaps and complete frames) and
  \<^verbatim>\<open>pc/runtime/rx_snapshot.py\<close> (returns the first complete frame). Both keep, per frame id, a list of a
  byte buffer, the segment count (\<^verbatim>\<open>None\<close> once complete) and a fill count. \<^verbatim>\<open>AESGCM(KEY).decrypt\<close> with
  empty associated data is the parameter \<open>dec\<close> of nonce and data.

  The lemmas show that a run never raises and keeps at most eight frames, that the counters account for
  every packet, that the segments of one frame in any order give the whole frame, and that the fill count
  takes a repeated segment for a new one.
\<close>

section \<open>Definitions\<close>

definition SLOT :: nat where "SLOT = 1408"
definition BODY :: nat where "BODY = 1384"
definition PREFIX :: nat where "PREFIX = 8"
definition HEADER :: nat where "HEADER = 40"
definition TAG :: int where "TAG = 16"
definition PAYLOAD :: nat where "PAYLOAD = 1320"
definition NONCE_PREFIX :: bytes where "NONCE_PREFIX = [0, 0, 0, 1]"
definition MAX_ACTIVE_FRAMES :: nat where "MAX_ACTIVE_FRAMES = 8"
definition REAL_BYTES :: nat where "REAL_BYTES = 1280 * 720 * 3"
definition PAD_BYTES :: nat where "PAD_BYTES = 600"

lemmas tool_consts = SLOT_def BODY_def PREFIX_def HEADER_def TAG_def PAYLOAD_def NONCE_PREFIX_def
  MAX_ACTIVE_FRAMES_def REAL_BYTES_def PAD_BYTES_def

text \<open>\<^verbatim>\<open>HDR.unpack_from\<close>: the header fields of the plaintext, or \<^verbatim>\<open>struct.error\<close>.\<close>

definition hdr_unpack_from :: "bytes \<Rightarrow> packet_header result" where
  "hdr_unpack_from plain =
     (if length plain < HEADER then Inl StructError else unpack_header plain)"

definition slot_counter :: "bytes \<Rightarrow> int" where
  "slot_counter buf = from_bytes_be (take 8 buf)"

definition slot_decrypt :: "(bytes \<Rightarrow> bytes \<Rightarrow> bytes result) \<Rightarrow> bytes \<Rightarrow> bytes result" where
  "slot_decrypt dec buf =
     bind_r (to_bytes_be 8 (slot_counter buf)) (\<lambda>c. dec (NONCE_PREFIX @ c) (slice PREFIX BODY buf))"

record tool_entry =
  te_buf :: bytes
  te_count :: "int option"
  te_fill :: int

type_synonym tool_frames = "(int \<times> tool_entry) list"

text \<open>Deleting the smallest keys until at most the limit is left.\<close>

definition evict_stale :: "nat \<Rightarrow> (int \<times> 'a) list \<Rightarrow> (int \<times> 'a) list" where
  "evict_stale limit fs =
     (if length fs > limit
      then fold AList.delete (take (length fs - limit) (sort (map fst fs))) fs else fs)"

text \<open>
  The entry of a frame id, a new one when there is none or when the old one is complete; the flag says that a
  complete one was replaced. The eviction may remove the new entry itself, which the caller still holds.
\<close>

definition tool_slot :: "tool_frames \<Rightarrow> int \<Rightarrow> int \<Rightarrow> bool \<times> tool_entry \<times> tool_frames" where
  "tool_slot fs fid n =
     (let new = \<lparr>te_buf = replicate (nat n * PAYLOAD) 0, te_count = Some n, te_fill = 0\<rparr>;
          fs' = evict_stale MAX_ACTIVE_FRAMES (AList.update fid new fs)
      in case map_of fs fid of
           None \<Rightarrow> (False, new, fs')
         | Some e \<Rightarrow> if te_count e = None then (True, new, fs') else (False, e, fs))"

text \<open>Writing a segment into the entry and counting it.\<close>

definition tool_fill :: "tool_entry \<Rightarrow> int \<Rightarrow> bytes \<Rightarrow> tool_entry" where
  "tool_fill e seg plain =
     e\<lparr>te_buf := set_slice (nat seg * PAYLOAD) (nat seg * PAYLOAD + PAYLOAD) (te_buf e)
                  (slice HEADER (HEADER + PAYLOAD) plain),
       te_fill := te_fill e + 1\<rparr>"

text \<open>The entry is shared with the dictionary, unless the eviction removed it.\<close>

definition store_entry :: "int \<Rightarrow> 'a \<Rightarrow> (int \<times> 'a) list \<Rightarrow> (int \<times> 'a) list" where
  "store_entry fid e fs = (if fid \<in> fst ` set fs then AList.update fid e fs else fs)"

text \<open>
  One accepted packet: the entry when this packet completed it, and the new dictionary. A complete entry
  stays in the dictionary with the count \<^verbatim>\<open>None\<close>.
\<close>

definition tool_place :: "tool_frames \<Rightarrow> packet_header \<Rightarrow> bytes \<Rightarrow> bool \<times> tool_entry option \<times> tool_frames" where
  "tool_place fs h plain =
     (case tool_slot fs (frame_id h) (segment_count h) of
        (reused, e, fs') \<Rightarrow>
          let e1 = tool_fill e (segment_id h) plain
          in if Some (te_fill e1) = te_count e1
             then (reused, Some e1, store_entry (frame_id h) (e1\<lparr>te_count := None\<rparr>) fs')
             else (reused, None, store_entry (frame_id h) e1 fs'))"

record lossless =
  ll_packets :: int
  ll_auth_bad :: int
  ll_bad_frame :: int
  ll_complete :: int
  ll_gaps :: int
  ll_dups :: int
  ll_last_counter :: int
  ll_frames :: tool_frames
  ll_frame_reuse :: int
  ll_frame_pad_ok :: int
  ll_first_counter :: "int option"

definition lossless_init :: lossless where
  "lossless_init = \<lparr>ll_packets = 0, ll_auth_bad = 0, ll_bad_frame = 0, ll_complete = 0, ll_gaps = 0,
     ll_dups = 0, ll_last_counter = -1, ll_frames = [], ll_frame_reuse = 0, ll_frame_pad_ok = 0,
     ll_first_counter = None\<rparr>"

definition lossless_counter :: "lossless \<Rightarrow> int \<Rightarrow> lossless" where
  "lossless_counter s c =
     (let s1 = (if ll_first_counter s = None then s\<lparr>ll_first_counter := Some c\<rparr> else s);
          delta = c - ll_last_counter s;
          s2 = (if ll_last_counter s \<ge> 0
                then if delta = 1 then s1
                     else if delta = 0 then s1\<lparr>ll_dups := ll_dups s1 + 1\<rparr>
                     else if delta > 1 then s1\<lparr>ll_gaps := ll_gaps s1 + (delta - 1)\<rparr>
                     else s1
                else s1)
      in s2\<lparr>ll_last_counter := c\<rparr>)"

definition lossless_bad_header :: "packet_header \<Rightarrow> int \<Rightarrow> bool" where
  "lossless_bad_header h c \<longleftrightarrow>
     magic h \<noteq> 0x4F56 \<or> version h \<noteq> 0 \<or> session_id h \<noteq> 1 \<or> stream_id h \<noteq> 1 \<or> key_id h \<noteq> 1 \<or>
     payload_length h \<noteq> int PAYLOAD \<or> nonce_counter h \<noteq> c \<or> tag_length h \<noteq> TAG \<or>
     segment_id h \<ge> segment_count h"

definition lossless_place :: "lossless \<Rightarrow> packet_header \<Rightarrow> bytes \<Rightarrow> lossless" where
  "lossless_place s h plain =
     (case tool_place (ll_frames s) h plain of
        (reused, done, fs) \<Rightarrow>
          let s1 = s\<lparr>ll_frame_reuse := ll_frame_reuse s + (if reused then 1 else 0), ll_frames := fs\<rparr>
          in case done of
               None \<Rightarrow> s1
             | Some e \<Rightarrow>
                 s1\<lparr>ll_frame_pad_ok := ll_frame_pad_ok s1 +
                       (if te_fill e * int PAYLOAD - int REAL_BYTES = int PAD_BYTES then 1 else 0),
                    ll_complete := ll_complete s1 + 1\<rparr>)"

definition lossless_step :: "(bytes \<Rightarrow> bytes \<Rightarrow> bytes result) \<Rightarrow> lossless \<Rightarrow> bytes \<Rightarrow> unit result \<times> lossless" where
  "lossless_step dec s d =
     (if length d \<noteq> SLOT then (Inr (), s)
      else let c = slot_counter d;
               s1 = lossless_counter (s\<lparr>ll_packets := ll_packets s + 1\<rparr>) c
           in case slot_decrypt dec d of
                Inl _ \<Rightarrow> (Inr (), s1\<lparr>ll_auth_bad := ll_auth_bad s1 + 1\<rparr>)
              | Inr plain \<Rightarrow>
                  (case hdr_unpack_from plain of
                     Inl e \<Rightarrow> (Inl e, s1)
                   | Inr h \<Rightarrow>
                       if lossless_bad_header h c then (Inr (), s1\<lparr>ll_bad_frame := ll_bad_frame s1 + 1\<rparr>)
                       else (Inr (), lossless_place s1 h plain)))"

text \<open>The loop over what the socket delivers; a time-out only continues it.\<close>

fun lossless_run :: "(bytes \<Rightarrow> bytes \<Rightarrow> bytes result) \<Rightarrow> lossless \<Rightarrow> bytes option list \<Rightarrow>
    unit result \<times> lossless" where
  "lossless_run dec s [] = (Inr (), s)"
| "lossless_run dec s (None # es) = lossless_run dec s es"
| "lossless_run dec s (Some d # es) =
     (case lossless_step dec s d of
        (Inl e, s') \<Rightarrow> (Inl e, s')
      | (Inr _, s') \<Rightarrow> lossless_run dec s' es)"

text \<open>The report: the span of counters, how many are missing, and the exit status.\<close>

definition lossless_span :: "lossless \<Rightarrow> int" where
  "lossless_span s =
     (case ll_first_counter s of None \<Rightarrow> 0 | Some f \<Rightarrow> ll_last_counter s - f + 1)"

definition lossless_lost :: "lossless \<Rightarrow> int" where
  "lossless_lost s = lossless_span s - ll_packets s"

definition lossless_main :: "(bytes \<Rightarrow> bytes \<Rightarrow> bytes result) \<Rightarrow> bytes option list \<Rightarrow> (int \<times> lossless) result" where
  "lossless_main dec es =
     (case lossless_run dec lossless_init es of
        (Inl e, _) \<Rightarrow> Inl e
      | (Inr _, s) \<Rightarrow> Inr (if ll_auth_bad s = 0 then 0 else 1, s))"

record snapshot =
  sn_packets :: int
  sn_auth_bad :: int
  sn_complete :: int
  sn_frames :: tool_frames

definition snapshot_bad_header :: "packet_header \<Rightarrow> int \<Rightarrow> bool" where
  "snapshot_bad_header h c \<longleftrightarrow>
     magic h \<noteq> 0x4F56 \<or> version h \<noteq> 0 \<or> session_id h \<noteq> 1 \<or> stream_id h \<noteq> 1 \<or>
     payload_length h \<noteq> int PAYLOAD \<or> nonce_counter h \<noteq> c \<or> segment_id h \<ge> segment_count h"

text \<open>A step returns the pixels of the saved frame, when it is the one that saves it.\<close>

definition snapshot_place :: "snapshot \<Rightarrow> packet_header \<Rightarrow> bytes \<Rightarrow> bytes option \<times> snapshot" where
  "snapshot_place s h plain =
     (case tool_place (sn_frames s) h plain of
        (_, done, fs) \<Rightarrow>
          (case done of
             None \<Rightarrow> (None, s\<lparr>sn_frames := fs\<rparr>)
           | Some e \<Rightarrow>
               (if int (length (te_buf e)) - int REAL_BYTES \<noteq> int PAD_BYTES then None
                else Some (take REAL_BYTES (te_buf e)),
                s\<lparr>sn_complete := sn_complete s + 1, sn_frames := fs\<rparr>)))"

definition snapshot_step :: "(bytes \<Rightarrow> bytes \<Rightarrow> bytes result) \<Rightarrow> snapshot \<Rightarrow> bytes \<Rightarrow>
    bytes option result \<times> snapshot" where
  "snapshot_step dec s d =
     (if length d \<noteq> SLOT then (Inr None, s)
      else let c = slot_counter d;
               s1 = s\<lparr>sn_packets := sn_packets s + 1\<rparr>
           in case slot_decrypt dec d of
                Inl _ \<Rightarrow> (Inr None, s1\<lparr>sn_auth_bad := sn_auth_bad s1 + 1\<rparr>)
              | Inr plain \<Rightarrow>
                  (case hdr_unpack_from plain of
                     Inl e \<Rightarrow> (Inl e, s1)
                   | Inr h \<Rightarrow>
                       if snapshot_bad_header h c then (Inr None, s1)
                       else (case snapshot_place s1 h plain of (r, s2) \<Rightarrow> (Inr r, s2))))"

fun snapshot_run :: "(bytes \<Rightarrow> bytes \<Rightarrow> bytes result) \<Rightarrow> snapshot \<Rightarrow> bytes option list \<Rightarrow>
    bytes option result \<times> snapshot" where
  "snapshot_run dec s [] = (Inr None, s)"
| "snapshot_run dec s (None # es) = snapshot_run dec s es"
| "snapshot_run dec s (Some d # es) =
     (case snapshot_step dec s d of
        (Inr None, s') \<Rightarrow> snapshot_run dec s' es
      | r \<Rightarrow> r)"

section \<open>The dictionary of frames\<close>

lemma fold_delete: "fold AList.delete ks fs = filter (\<lambda>p. fst p \<notin> set ks) fs"
  by (induction ks arbitrary: fs) (auto simp: AList.delete_eq intro: filter_cong)

lemma length_filter_keys:
  assumes "distinct (map fst fs)" and "distinct ks" and "set ks \<subseteq> fst ` set fs"
  shows "length (filter (\<lambda>p. fst p \<notin> set ks) fs) = length fs - length ks"
proof -
  have "length (filter (\<lambda>p. fst p \<in> set ks) fs) = length (filter (\<lambda>k. k \<in> set ks) (map fst fs))"
    by (simp add: filter_map o_def)
  also have "\<dots> = card (set (filter (\<lambda>k. k \<in> set ks) (map fst fs)))"
    using assms(1) by (metis distinct_card distinct_filter)
  also have "set (filter (\<lambda>k. k \<in> set ks) (map fst fs)) = set ks" using assms(3) by auto
  finally show ?thesis
    using assms(2) sum_length_filter_compl [of "\<lambda>p. fst p \<in> set ks" fs] distinct_card by force
qed

lemma evict_stale_props:
  assumes "distinct (map fst fs)"
  shows "length (evict_stale n fs) \<le> n" and "distinct (map fst (evict_stale n fs))"
proof -
  have "length (evict_stale n fs) \<le> n \<and> distinct (map fst (evict_stale n fs))"
  proof (cases "length fs > n")
    case True
    let ?ks = "take (length fs - n) (sort (map fst fs))"
    have "distinct ?ks" "set ?ks \<subseteq> fst ` set fs"
      using assms set_take_subset [of "length fs - n" "sort (map fst fs)"] by auto
    from length_filter_keys [OF assms this] assms True show ?thesis
      by (simp add: evict_stale_def fold_delete distinct_map_filter)
  qed (use assms in \<open>simp add: evict_stale_def\<close>)
  then show "length (evict_stale n fs) \<le> n" and "distinct (map fst (evict_stale n fs))" by auto
qed

lemma store_entry_props:
  "length (store_entry k e fs) = length fs"
  "distinct (map fst (store_entry k e fs)) \<longleftrightarrow> distinct (map fst fs)"
  by (auto simp: store_entry_def update_length_old update_keys)

definition tool_inv :: "tool_frames \<Rightarrow> bool" where
  "tool_inv fs \<longleftrightarrow> length fs \<le> MAX_ACTIVE_FRAMES \<and> distinct (map fst fs)"

lemma tool_place_inv: "tool_inv fs \<Longrightarrow> tool_inv (snd (snd (tool_place fs h plain)))"
  by (auto simp: tool_inv_def tool_place_def tool_slot_def Let_def store_entry_props evict_stale_props
      distinct_update split: option.splits)

section \<open>Totality and accounting\<close>

text \<open>
  What the receivers rely on of \<^verbatim>\<open>decrypt\<close>: a plaintext is 16 bytes shorter than the data. It makes every
  decrypted slot long enough for the header.
\<close>

definition dec_lengths :: "(bytes \<Rightarrow> bytes \<Rightarrow> bytes result) \<Rightarrow> bool" where
  "dec_lengths dec \<longleftrightarrow> (\<forall>n c p. dec n c = Inr p \<longrightarrow> length p + 16 = length c)"

definition slots :: "bytes option list \<Rightarrow> bytes list" where
  "slots es = filter (\<lambda>d. length d = SLOT) (List.map_filter id es)"

definition slot_forged :: "(bytes \<Rightarrow> bytes \<Rightarrow> bytes result) \<Rightarrow> bytes \<Rightarrow> bool" where
  "slot_forged dec d \<longleftrightarrow> (\<exists>e. slot_decrypt dec d = Inl e)"

definition slot_misfit :: "(bytes \<Rightarrow> bytes \<Rightarrow> bytes result) \<Rightarrow> bytes \<Rightarrow> bool" where
  "slot_misfit dec d \<longleftrightarrow> (\<exists>plain h. slot_decrypt dec d = Inr plain \<and> hdr_unpack_from plain = Inr h \<and>
     lossless_bad_header h (slot_counter d))"

lemma slots_simps [simp]:
  "slots [] = []"
  "slots (None # es) = slots es"
  "slots (Some d # es) = (if length d = SLOT then d # slots es else slots es)"
  by (simp_all add: slots_def map_filter_simps)

lemma slot_plain_length:
  assumes "dec_lengths dec" and "length d = SLOT" and "slot_decrypt dec d = Inr plain"
  shows "length plain = HEADER + PAYLOAD"
  using assms unfolding dec_lengths_def slot_decrypt_def bind_r_eq_Inr
  by (fastforce simp: length_slice tool_consts)

lemma slot_header:
  assumes "dec_lengths dec" and "length d = SLOT" and "slot_decrypt dec d = Inr plain"
  obtains h where "hdr_unpack_from plain = Inr h"
  using slot_plain_length [OF assms]
  by (auto simp: hdr_unpack_from_def unpack_header_def tool_consts HEADER_SIZE_BYTES_def Let_def)

lemma lossless_counter_other [simp]:
  "ll_packets (lossless_counter s c) = ll_packets s"
  "ll_auth_bad (lossless_counter s c) = ll_auth_bad s"
  "ll_bad_frame (lossless_counter s c) = ll_bad_frame s"
  "ll_frames (lossless_counter s c) = ll_frames s"
  "ll_last_counter (lossless_counter s c) = c"
  "ll_complete (lossless_counter s c) = ll_complete s"
  by (simp_all add: lossless_counter_def Let_def)

lemma lossless_place_other [simp]:
  "ll_packets (lossless_place s h p) = ll_packets s"
  "ll_auth_bad (lossless_place s h p) = ll_auth_bad s"
  "ll_bad_frame (lossless_place s h p) = ll_bad_frame s"
  "ll_frames (lossless_place s h p) = snd (snd (tool_place (ll_frames s) h p))"
  "ll_last_counter (lossless_place s h p) = ll_last_counter s"
  "ll_first_counter (lossless_place s h p) = ll_first_counter s"
  "ll_gaps (lossless_place s h p) = ll_gaps s"
  "ll_dups (lossless_place s h p) = ll_dups s"
  by (simp_all add: lossless_place_def Let_def split: prod.split option.split)

lemma lossless_step_total:
  assumes "dec_lengths dec"
  shows "\<exists>s'. lossless_step dec s d = (Inr (), s') \<and>
     (tool_inv (ll_frames s) \<longrightarrow> tool_inv (ll_frames s')) \<and>
     ll_packets s' = ll_packets s + (if length d = SLOT then 1 else 0) \<and>
     ll_auth_bad s' = ll_auth_bad s + (if length d = SLOT \<and> slot_forged dec d then 1 else 0) \<and>
     ll_bad_frame s' = ll_bad_frame s + (if length d = SLOT \<and> slot_misfit dec d then 1 else 0)"
proof (cases "length d = SLOT")
  case True
  show ?thesis
  proof (cases "slot_decrypt dec d")
    case (Inl e)
    then show ?thesis using True
      by (simp add: lossless_step_def Let_def slot_forged_def slot_misfit_def)
  next
    case (Inr plain)
    obtain h where "hdr_unpack_from plain = Inr h" using slot_header [OF assms True Inr] .
    then show ?thesis using True Inr
      by (simp add: lossless_step_def Let_def slot_forged_def slot_misfit_def tool_place_inv)
  qed
qed (simp add: lossless_step_def)

lemma lossless_run_total:
  assumes "dec_lengths dec"
  shows "\<exists>s'. lossless_run dec s es = (Inr (), s') \<and>
     (tool_inv (ll_frames s) \<longrightarrow> tool_inv (ll_frames s')) \<and>
     ll_packets s' = ll_packets s + int (length (slots es)) \<and>
     ll_auth_bad s' = ll_auth_bad s + int (length (filter (slot_forged dec) (slots es))) \<and>
     ll_bad_frame s' = ll_bad_frame s + int (length (filter (slot_misfit dec) (slots es)))"
proof (induction es arbitrary: s)
  case Nil
  show ?case by simp
next
  case (Cons e es)
  show ?case
  proof (cases e)
    case None
    then show ?thesis using Cons.IH [of s] by simp
  next
    case (Some d)
    obtain s1 where "lossless_step dec s d = (Inr (), s1)"
      "tool_inv (ll_frames s) \<longrightarrow> tool_inv (ll_frames s1)"
      "ll_packets s1 = ll_packets s + (if length d = SLOT then 1 else 0)"
      "ll_auth_bad s1 = ll_auth_bad s + (if length d = SLOT \<and> slot_forged dec d then 1 else 0)"
      "ll_bad_frame s1 = ll_bad_frame s + (if length d = SLOT \<and> slot_misfit dec d then 1 else 0)"
      using lossless_step_total [OF assms, of s d] by blast
    then show ?thesis using Cons.IH [of s1] Some by auto
  qed
qed

text \<open>
  For every sequence of datagrams and time-outs the lossless checker ends normally: no exception leaves
  the loop, at most eight frame buffers are kept, the packet count is the number of datagrams of
  the slot size, the authentication and header error counts are exactly the numbers of slots that fail
  there, and the exit status is 0 exactly when every slot authenticated.
\<close>

theorem lossless_accounts:
  assumes "dec_lengths dec"
  shows "\<exists>rc s. lossless_main dec es = Inr (rc, s) \<and> length (ll_frames s) \<le> 8 \<and>
     ll_packets s = int (length (slots es)) \<and>
     ll_auth_bad s = int (length (filter (slot_forged dec) (slots es))) \<and>
     ll_bad_frame s = int (length (filter (slot_misfit dec) (slots es))) \<and>
     (rc = 0 \<longleftrightarrow> filter (slot_forged dec) (slots es) = [])"
  using lossless_run_total [OF assms, of lossless_init es]
  by (auto simp: lossless_main_def lossless_init_def tool_inv_def tool_consts)

theorem lossless_accounts_witness:
  "\<exists>rc s. lossless_main (\<lambda>n c. Inl ValueError) [Some [1, 2], None] = Inr (rc, s) \<and> ll_packets s = 0 \<and> rc = 0"
  using lossless_accounts [of "\<lambda>n c. Inl ValueError" "[Some [1, 2], None]"]
  by (auto simp: dec_lengths_def SLOT_def)

section \<open>Gap counting\<close>

lemma lossless_counter_gap:
  assumes "0 \<le> ll_last_counter s" and "ll_last_counter s < c"
  shows "ll_gaps (lossless_counter s c) = ll_gaps s + (c - ll_last_counter s - 1)"
    and "ll_dups (lossless_counter s c) = ll_dups s"
    and "ll_first_counter s \<noteq> None \<Longrightarrow> ll_first_counter (lossless_counter s c) = ll_first_counter s"
  using assms by (auto simp: lossless_counter_def Let_def)

lemma lossless_step_counter:
  assumes "dec_lengths dec" and "length d = SLOT"
  shows "\<exists>s'. lossless_step dec s d = (Inr (), s') \<and> ll_packets s' = ll_packets s + 1 \<and>
     ll_last_counter s' = slot_counter d \<and>
     ll_gaps s' = ll_gaps (lossless_counter s (slot_counter d)) \<and>
     ll_dups s' = ll_dups (lossless_counter s (slot_counter d)) \<and>
     ll_first_counter s' = ll_first_counter (lossless_counter s (slot_counter d))"
proof -
  have p: "ll_gaps (lossless_counter (s\<lparr>ll_packets := x\<rparr>) c) = ll_gaps (lossless_counter s c)"
    "ll_dups (lossless_counter (s\<lparr>ll_packets := x\<rparr>) c) = ll_dups (lossless_counter s c)"
    "ll_first_counter (lossless_counter (s\<lparr>ll_packets := x\<rparr>) c) = ll_first_counter (lossless_counter s c)"
    for x c by (auto simp: lossless_counter_def Let_def)
  show ?thesis
  proof (cases "slot_decrypt dec d")
    case (Inl e)
    then show ?thesis using assms(2) by (simp add: lossless_step_def Let_def p)
  next
    case (Inr plain)
    obtain h where "hdr_unpack_from plain = Inr h" using slot_header [OF assms Inr] .
    then show ?thesis using assms(2) Inr by (simp add: lossless_step_def Let_def p)
  qed
qed

lemma lossless_run_gaps:
  assumes "dec_lengths dec" and "sorted_wrt (<) (ll_last_counter s # map slot_counter (slots es))"
    and "0 \<le> ll_last_counter s" and "ll_first_counter s = Some f"
  shows "\<exists>s'. lossless_run dec s es = (Inr (), s') \<and> ll_first_counter s' = Some f \<and> ll_dups s' = ll_dups s \<and>
     ll_last_counter s' = last (ll_last_counter s # map slot_counter (slots es)) \<and>
     ll_last_counter s' - ll_packets s' - ll_gaps s' = ll_last_counter s - ll_packets s - ll_gaps s"
  using assms(2-4)
proof (induction es arbitrary: s)
  case Nil
  then show ?case by simp
next
  case (Cons e es)
  show ?case
  proof (cases e)
    case None
    then show ?thesis using Cons by simp
  next
    case (Some d)
    show ?thesis
    proof (cases "length d = SLOT")
      case False
      then have "lossless_step dec s d = (Inr (), s)" by (simp add: lossless_step_def)
      then show ?thesis using Cons Some False by simp
    next
      case True
      obtain s1 where "lossless_step dec s d = (Inr (), s1)" "ll_packets s1 = ll_packets s + 1"
        "ll_last_counter s1 = slot_counter d"
        "ll_gaps s1 = ll_gaps s + (slot_counter d - ll_last_counter s - 1)" "ll_dups s1 = ll_dups s"
        "ll_first_counter s1 = Some f"
        using lossless_step_counter [OF assms(1) True, of s] lossless_counter_gap [of s "slot_counter d"]
          Cons.prems Some True by auto
      then show ?thesis using Cons.IH [of s1] Cons.prems Some True by auto
    qed
  qed
qed

lemma slot_counter_ge0 [simp]: "0 \<le> slot_counter d"
  by (simp add: slot_counter_def)

lemma lossless_first:
  assumes "dec_lengths dec" and "slots es \<noteq> []"
  shows "\<exists>es1 s1. slots es = hd (slots es) # slots es1 \<and> lossless_run dec lossless_init es = lossless_run dec s1 es1 \<and>
     ll_packets s1 = 1 \<and> ll_last_counter s1 = slot_counter (hd (slots es)) \<and> ll_gaps s1 = 0 \<and> ll_dups s1 = 0 \<and>
     ll_first_counter s1 = Some (slot_counter (hd (slots es)))"
  using assms(2)
proof (induction es)
  case (Cons e es)
  show ?case
  proof (cases "\<exists>d. e = Some d \<and> length d = SLOT")
    case True
    then obtain d where d: "e = Some d" "length d = SLOT" by blast
    obtain s1 where "lossless_step dec lossless_init d = (Inr (), s1)" "ll_packets s1 = 1"
      "ll_last_counter s1 = slot_counter d" "ll_gaps s1 = 0" "ll_dups s1 = 0"
      "ll_first_counter s1 = Some (slot_counter d)"
      using lossless_step_counter [OF assms(1) d(2), of lossless_init]
      by (auto simp: lossless_init_def lossless_counter_def Let_def)
    then show ?thesis using d by (intro exI [of _ es] exI [of _ s1]) simp
  next
    case False
    then have "slots (e # es) = slots es" "lossless_run dec lossless_init (e # es) = lossless_run dec lossless_init es"
      by (cases e; simp add: lossless_step_def)+
    then show ?thesis using Cons by simp
  qed
qed simp

lemma from_bytes_be_zeros [simp]: "from_bytes_be (replicate k 0) = 0"
  by (induction k) (simp_all add: from_bytes_be_def)

lemma lossless_no_slots:
  "slots es = [] \<Longrightarrow> lossless_run dec s es = (Inr (), s)"
proof (induction es)
  case (Cons e es)
  then show ?case by (cases e) (auto simp: lossless_step_def split: if_splits)
qed simp

text \<open>
  When the packet counters of the received slots increase, the gaps the lossless checker adds up are exactly
  the missing packets it reports: the span of counters minus the packets received, with no duplicate.
\<close>

theorem lossless_gaps_exact:
  assumes "dec_lengths dec" and "sorted_wrt (<) (map slot_counter (slots es))"
  shows "\<exists>rc s. lossless_main dec es = Inr (rc, s) \<and> ll_dups s = 0 \<and> ll_gaps s = lossless_lost s \<and>
     lossless_span s = (if slots es = [] then 0
        else slot_counter (last (slots es)) - slot_counter (hd (slots es)) + 1)"
proof (cases "slots es = []")
  case True
  then show ?thesis
    by (simp add: lossless_main_def lossless_no_slots lossless_init_def lossless_lost_def lossless_span_def)
next
  case False
  obtain es1 s1 where 1: "slots es = hd (slots es) # slots es1"
    "lossless_run dec lossless_init es = lossless_run dec s1 es1" "ll_packets s1 = 1"
    "ll_last_counter s1 = slot_counter (hd (slots es))" "ll_gaps s1 = 0" "ll_dups s1 = 0"
    "ll_first_counter s1 = Some (slot_counter (hd (slots es)))"
    using lossless_first [OF assms(1) False] by blast
  have "sorted_wrt (<) (ll_last_counter s1 # map slot_counter (slots es1))"
    using assms(2) 1(1,4) by (metis list.simps(9))
  from lossless_run_gaps [OF assms(1) this] 1
  obtain s' where "lossless_run dec lossless_init es = (Inr (), s')"
    "ll_first_counter s' = Some (slot_counter (hd (slots es)))" "ll_dups s' = 0"
    "ll_last_counter s' = last (map slot_counter (slots es))"
    "ll_last_counter s' - ll_packets s' - ll_gaps s' = slot_counter (hd (slots es)) - 1"
    by (metis diff_zero list.simps(9) slot_counter_ge0)
  then show ?thesis using False
    by (auto simp: lossless_main_def lossless_lost_def lossless_span_def last_map)
qed

theorem lossless_gaps_exact_witness:
  "\<exists>rc s. lossless_main (\<lambda>n c. Inl ValueError)
       [Some (replicate 7 0 @ [3] @ replicate 1400 0), Some (replicate 7 0 @ [9] @ replicate 1400 0)] = Inr (rc, s) \<and>
     ll_gaps s = lossless_lost s \<and> lossless_span s = 7"
proof -
  let ?es = "[Some (replicate 7 0 @ [3] @ replicate 1400 0), Some (replicate 7 0 @ [9] @ replicate 1400 0)] :: bytes option list"
  have "slot_counter (replicate 7 0 @ [3] @ replicate 1400 0) = 3"
    "slot_counter (replicate 7 0 @ [9] @ replicate 1400 0) = 9"
    by (simp_all add: slot_counter_def)
  then show ?thesis
    using lossless_gaps_exact [of "\<lambda>n c. Inl ValueError" ?es] by (auto simp: dec_lengths_def SLOT_def)
qed

section \<open>Complete frames\<close>

lemma concat_chunk_length:
  "(\<And>i. i \<in> set is \<Longrightarrow> length (g i) = p) \<Longrightarrow> length (concat (map g is)) = length is * p"
  by (induction "is") auto

text \<open>Overwriting one segment of a buffer of segments; only the last one may be short.\<close>

lemma set_slice_segment:
  assumes "k < n" and len: "\<And>i. Suc i < n \<Longrightarrow> length (g i) = p" and "length (g (n - 1)) \<le> p"
  shows "set_slice (k * p) (k * p + p) (concat (map g [0..<n])) v = concat (map (g(k := v)) [0..<n])"
proof -
  have split: "[0..<n] = [0..<k] @ k # [Suc k..<n]"
    using assms(1) upt_add_eq_append [of 0 k "n - k"] by (simp add: upt_conv_Cons)
  have l: "length (concat (map g [0..<k])) = k * p"
    using concat_chunk_length [of "[0..<k]" g p] len assms(1) by simp
  have "map (g(k := v)) ([0..<k] @ k # [Suc k..<n]) = map g [0..<k] @ v # map g [Suc k..<n]" by simp
  moreover have "length (g k) = p \<or> (length (g k) \<le> p \<and> [Suc k..<n] = [])"
  proof (cases "Suc k < n")
    case False
    then have "k = n - 1" using assms(1) by simp
    then show ?thesis using assms(3) False by simp
  qed (simp add: len)
  ultimately show ?thesis unfolding split using l by (elim disjE) (auto simp: set_slice_def)
qed

lemma set_slice_chunk:
  assumes "k < n" and "\<And>i. i < n \<Longrightarrow> length (g i) = p"
  shows "set_slice (k * p) (k * p + p) (concat (map g [0..<n])) v = concat (map (g(k := v)) [0..<n])"
  using assms by (intro set_slice_segment) simp_all

definition segment_bytes :: "bytes \<Rightarrow> bytes" where
  "segment_bytes plain = slice HEADER (HEADER + PAYLOAD) plain"

text \<open>The packets of one frame: its id and segment count in every header, full payloads.\<close>

definition frame_of :: "int \<Rightarrow> nat \<Rightarrow> (packet_header \<times> bytes) list \<Rightarrow> bool" where
  "frame_of fid n ps \<longleftrightarrow> list_all (\<lambda>(h, plain). frame_id h = fid \<and> segment_count h = int n \<and>
     0 \<le> segment_id h \<and> segment_id h < int n \<and> length plain = HEADER + PAYLOAD) ps"

definition fill_segments :: "(nat \<Rightarrow> bytes) \<Rightarrow> (packet_header \<times> bytes) list \<Rightarrow> nat \<Rightarrow> bytes" where
  "fill_segments g ps = foldl (\<lambda>g (h, plain). g(nat (segment_id h) := segment_bytes plain)) g ps"

definition entry_of :: "(nat \<Rightarrow> bytes) \<Rightarrow> nat \<Rightarrow> int \<Rightarrow> tool_entry" where
  "entry_of g n k = \<lparr>te_buf = concat (map g [0..<n]), te_count = Some (int n), te_fill = k\<rparr>"

lemma tool_fill_entry:
  assumes "frame_of fid n [(h, plain)]" and "\<And>i. i < n \<Longrightarrow> length (g i) = PAYLOAD"
  shows "tool_fill (entry_of g n k) (segment_id h) plain =
     entry_of (g(nat (segment_id h) := segment_bytes plain)) n (k + 1)"
  using assms by (auto simp: frame_of_def entry_of_def tool_fill_def segment_bytes_def set_slice_chunk)

lemma tool_place_pending:
  assumes "map_of fs fid = Some (entry_of g n k)" and "frame_of fid n [(h, plain)]"
    and "\<And>i. i < n \<Longrightarrow> length (g i) = PAYLOAD"
  shows "tool_place fs h plain =
     (let e = entry_of (g(nat (segment_id h) := segment_bytes plain)) n (k + 1)
      in if k + 1 = int n then (False, Some e, AList.update fid (e\<lparr>te_count := None\<rparr>) fs)
         else (False, None, AList.update fid e fs))"
proof -
  have fid: "frame_id h = fid" "segment_count h = int n" using assms(2) by (simp_all add: frame_of_def)
  have "tool_slot fs fid (int n) = (False, entry_of g n k, fs)"
    using assms(1) by (simp add: tool_slot_def entry_of_def)
  moreover have "fid \<in> fst ` set fs" using assms(1) by (rule dict_get_in)
  ultimately show ?thesis
    by (simp add: tool_place_def fid tool_fill_entry [OF assms(2,3)] store_entry_def Let_def)
      (simp add: entry_of_def)
qed

lemma tool_place_new:
  assumes "fid \<notin> fst ` set fs" and "length fs < MAX_ACTIVE_FRAMES" and "frame_of fid n [(h, plain)]"
  shows "tool_place fs h plain =
     tool_place (AList.update fid (entry_of (\<lambda>_. replicate PAYLOAD 0) n 0) fs) h plain"
proof -
  have fid: "frame_id h = fid" "segment_count h = int n" using assms(3) by (simp_all add: frame_of_def)
  have new: "entry_of (\<lambda>_. replicate PAYLOAD 0) n 0 =
      \<lparr>te_buf = replicate (n * PAYLOAD) 0, te_count = Some (int n), te_fill = 0\<rparr>"
  proof -
    have "concat (map (\<lambda>_. replicate p (0::byte)) [0..<m]) = replicate (m * p) 0" for m p
      by (induction m) (simp_all add: add.commute flip: replicate_add)
    then show ?thesis by (simp add: entry_of_def)
  qed
  have "evict_stale MAX_ACTIVE_FRAMES (AList.update fid e fs) = AList.update fid e fs" for e :: tool_entry
    using assms(1,2) by (simp add: evict_stale_def update_length_new)
  moreover have "map_of fs fid = None" using assms(1) by (simp add: map_of_eq_None_iff)
  ultimately show ?thesis by (simp add: tool_place_def fid tool_slot_def new Let_def)
qed

definition tool_run :: "tool_frames \<Rightarrow> packet_header \<times> bytes \<Rightarrow> tool_entry option \<times> tool_frames" where
  "tool_run fs hp = snd (tool_place fs (fst hp) (snd hp))"

text \<open>
  The run of one frame: nothing completes before the last packet, and the last one completes the entry with
  every segment written where it belongs.
\<close>

lemma tool_places:
  assumes "map_of fs fid = Some (entry_of g n k)" and "frame_of fid n ps" and "ps \<noteq> []"
    and "k + int (length ps) = int n" and "\<And>i. i < n \<Longrightarrow> length (g i) = PAYLOAD"
  shows "\<exists>fs'. run_outs tool_run fs ps =
     (replicate (length ps - 1) None @ [Some (entry_of (fill_segments g ps) n (int n))], fs')"
  using assms
proof (induction ps arbitrary: fs g k)
  case Nil
  then show ?case by simp
next
  case (Cons hp ps)
  obtain h plain where hp: "hp = (h, plain)" by (cases hp)
  let ?g = "g(nat (segment_id h) := segment_bytes plain)"
  have one: "frame_of fid n [(h, plain)]" "frame_of fid n ps" using Cons.prems(2) by (simp_all add: hp frame_of_def)
  have g: "\<And>i. i < n \<Longrightarrow> length (?g i) = PAYLOAD"
    using Cons.prems(5) one(1) by (auto simp: segment_bytes_def length_slice frame_of_def)
  note place = tool_place_pending [OF Cons.prems(1) one(1) Cons.prems(5)]
  show ?case
  proof (cases ps)
    case Nil
    then show ?thesis using Cons.prems(4) place by (simp add: hp tool_run_def Let_def fill_segments_def fun_upd_def)
  next
    case (Cons x xs)
    let ?fs = "AList.update fid (entry_of ?g n (k + 1)) fs"
    have "k + 1 \<noteq> int n" using Cons.prems(4) Cons by simp
    then have p: "tool_run fs hp = (None, ?fs)" using place by (simp add: hp tool_run_def Let_def)
    have f: "fill_segments g (hp # ps) = fill_segments ?g ps" by (simp add: fill_segments_def hp)
    have "\<exists>fs'. run_outs tool_run ?fs ps =
       (replicate (length ps - 1) None @ [Some (entry_of (fill_segments ?g ps) n (int n))], fs')"
    proof (rule Cons.IH [OF _ one(2)])
      show "map_of ?fs fid = Some (entry_of ?g n (k + 1))" by simp
      show "k + 1 + int (length ps) = int n" using Cons.prems(4) by simp
    qed (use Cons g in simp_all)
    then show ?thesis unfolding f using Cons by (auto simp: p)
  qed
qed

lemma tool_places_new:
  assumes "fid \<notin> fst ` set fs" and "length fs < MAX_ACTIVE_FRAMES" and "frame_of fid (length ps) ps" and "ps \<noteq> []"
  shows "\<exists>fs'. run_outs tool_run fs ps = (replicate (length ps - 1) None @
     [Some (entry_of (fill_segments (\<lambda>_. replicate PAYLOAD 0) ps) (length ps) (int (length ps)))], fs')"
proof -
  let ?n = "length ps" and ?z = "\<lambda>_ :: nat. replicate PAYLOAD (0 :: byte)"
  obtain h plain qs where ps: "ps = (h, plain) # qs" using assms(4) by (cases ps) auto
  have one: "frame_of fid ?n [(h, plain)]" using assms(3) by (simp add: ps frame_of_def)
  let ?fs = "AList.update fid (entry_of ?z ?n 0) fs"
  have "run_outs tool_run fs ps = run_outs tool_run ?fs ps"
    using tool_place_new [OF assms(1,2) one] by (simp add: ps tool_run_def)
  moreover have "\<exists>fs'. run_outs tool_run ?fs ps =
      (replicate (?n - 1) None @ [Some (entry_of (fill_segments ?z ps) ?n (int ?n))], fs')"
    by (rule tool_places [OF _ assms(3,4)]) simp_all
  ultimately show ?thesis by simp
qed

lemma lossless_places:
  "ll_complete (foldl (\<lambda>s (h, p). lossless_place s h p) s ps) =
     ll_complete s + int (length (filter (\<lambda>r. r \<noteq> None) (fst (run_outs tool_run (ll_frames s) ps))))"
proof (induction ps arbitrary: s)
  case Nil
  show ?case by simp
next
  case (Cons hp ps)
  have "ll_complete (lossless_place s (fst hp) (snd hp)) =
      ll_complete s + (if fst (tool_run (ll_frames s) hp) = None then 0 else 1)"
    by (simp add: lossless_place_def tool_run_def Let_def split: prod.split option.split)
  then show ?case using Cons.IH [of "lossless_place s (fst hp) (snd hp)"]
    by (simp add: case_prod_beta tool_run_def)
qed

text \<open>
  The lossless checker counts a frame as complete when as many packets with the frame's id and count have
  arrived as the frame has segments, whichever segments they carry: a repeated segment counts like
  a missing one, and a frame with a hole is reported complete.
\<close>

theorem lossless_counts_repeats:
  assumes "frame_of fid (length ps) ps" and "ps \<noteq> []"
    and "fid \<notin> fst ` set (ll_frames s)" and "length (ll_frames s) < MAX_ACTIVE_FRAMES"
  shows "ll_complete (foldl (\<lambda>s (h, p). lossless_place s h p) s ps) = ll_complete s + 1"
proof -
  obtain fs' e where "run_outs tool_run (ll_frames s) ps = (replicate (length ps - 1) None @ [Some e], fs')"
    using tool_places_new [OF assms(3,4,1,2)] by blast
  then show ?thesis by (simp add: lossless_places)
qed

theorem lossless_counts_repeats_witness:
  "ll_complete (foldl (\<lambda>s (h, p). lossless_place s h p) lossless_init
     (replicate 2 (default_header\<lparr>segment_count := 2, segment_id := 0\<rparr>, replicate 1360 7))) = 1"
  using lossless_counts_repeats [of 0
      "replicate 2 (default_header\<lparr>segment_count := 2, segment_id := 0\<rparr>, replicate 1360 7)" lossless_init]
  by (simp add: frame_of_def default_header_def lossless_init_def tool_consts numeral_2_eq_2)

lemma fill_segments_distinct:
  assumes "distinct (map (\<lambda>(h, p). nat (segment_id h)) ps)" and "(h, plain) \<in> set ps"
  shows "fill_segments g ps (nat (segment_id h)) = segment_bytes plain"
  using assms
proof (induction ps rule: rev_induct)
  case (snoc hp ps)
  obtain h' plain' where hp: "hp = (h', plain')" by (cases hp)
  have step: "fill_segments g (ps @ [hp]) = (fill_segments g ps)(nat (segment_id h') := segment_bytes plain')"
    by (simp add: fill_segments_def hp)
  show ?case
  proof (cases "(h, plain) \<in> set ps")
    case True
    then have "nat (segment_id h) \<noteq> nat (segment_id h')" using snoc.prems(1) by (force simp: hp)
    then show ?thesis using snoc True by (simp add: step)
  qed (use snoc.prems step in \<open>auto simp: hp\<close>)
qed simp

definition snapshot_result :: "tool_entry option \<Rightarrow> bytes option" where
  "snapshot_result r =
     (case r of None \<Rightarrow> None
      | Some e \<Rightarrow> if int (length (te_buf e)) - int REAL_BYTES \<noteq> int PAD_BYTES then None
                 else Some (take REAL_BYTES (te_buf e)))"

lemma snapshot_places:
  "fst (run_outs (\<lambda>s hp. snapshot_place s (fst hp) (snd hp)) s ps) =
     map snapshot_result (fst (run_outs tool_run (sn_frames s) ps))"
proof (induction ps arbitrary: s)
  case Nil
  show ?case by simp
next
  case (Cons hp ps)
  let ?s = "snd (snapshot_place s (fst hp) (snd hp))"
  have "fst (snapshot_place s (fst hp) (snd hp)) = snapshot_result (fst (tool_run (sn_frames s) hp))"
    "sn_frames ?s = snd (tool_run (sn_frames s) hp)"
    by (simp_all add: snapshot_place_def tool_run_def snapshot_result_def split: prod.split option.split)
  then show ?case using Cons.IH [of ?s] by simp
qed

text \<open>
  The snapshot tool, given the 2095 packets of one frame in any order, saves nothing before the last of
  them and then returns the pixels of that frame: the payloads in segment order, cut to the picture size.
\<close>

theorem snapshot_any_order:
  assumes "frame_of fid 2095 ps" and "length ps = 2095" and "distinct (map (\<lambda>(h, p). nat (segment_id h)) ps)"
    and "fid \<notin> fst ` set (sn_frames s)" and "length (sn_frames s) < MAX_ACTIVE_FRAMES"
    and "map (\<lambda>(h, p). slice HEADER (HEADER + PAYLOAD) p) ps = map (\<lambda>(h, p). pay (nat (segment_id h))) ps"
  shows "fst (run_outs (\<lambda>s hp. snapshot_place s (fst hp) (snd hp)) s ps) =
     replicate 2094 None @ [Some (take REAL_BYTES (concat (map pay [0..<2095])))]"
proof -
  let ?f = "fill_segments (\<lambda>_. replicate PAYLOAD 0) ps"
  have ids: "set (map (\<lambda>(h, p). nat (segment_id h)) ps) = {0..<2095}"
  proof (rule card_subset_eq)
    show "card (set (map (\<lambda>(h, p). nat (segment_id h)) ps)) = card {0..<2095 :: nat}"
      using assms(2,3) distinct_card by fastforce
    show "set (map (\<lambda>(h, p). nat (segment_id h)) ps) \<subseteq> {0..<2095}"
      using assms(1) by (fastforce simp: frame_of_def list_all_iff)
  qed simp
  have fill: "?f i = pay i \<and> length (?f i) = PAYLOAD" if i: "i < 2095" for i
  proof -
    obtain h plain where hp: "(h, plain) \<in> set ps" "i = nat (segment_id h)" using ids i by fastforce
    have "length plain = HEADER + PAYLOAD" using assms(1) hp(1) by (auto simp: frame_of_def list_all_iff)
    then show ?thesis
      using fill_segments_distinct [OF assms(3) hp(1)] assms(6) hp by (auto simp: segment_bytes_def length_slice)
  qed
  then have buf: "concat (map ?f [0..<2095]) = concat (map pay [0..<2095])"
    by (metis (no_types, lifting) atLeastLessThan_iff map_cong set_upt)
  have len: "length (concat (map ?f [0..<2095])) = 2095 * PAYLOAD"
    by (subst concat_chunk_length [where p = PAYLOAD]) (use fill in \<open>metis atLeastLessThan_iff set_upt\<close>, simp)
  obtain fs' where "run_outs tool_run (sn_frames s) ps =
      (replicate 2094 None @ [Some (entry_of ?f 2095 2095)], fs')"
    using tool_places_new [OF assms(4,5), of ps] assms(1,2) by fastforce
  then show ?thesis using buf len
    by (simp add: snapshot_places snapshot_result_def entry_of_def PAYLOAD_def REAL_BYTES_def PAD_BYTES_def
        del: upt_rec_numeral)
qed

definition demo_packets :: "(packet_header \<times> bytes) list" where
  "demo_packets = map (\<lambda>i. (default_header\<lparr>frame_id := 5, segment_count := 2095, segment_id := int i\<rparr>,
     replicate 1360 0)) (rev [0..<2095])"

theorem snapshot_any_order_witness:
  "fst (run_outs (\<lambda>s hp. snapshot_place s (fst hp) (snd hp))
       \<lparr>sn_packets = 0, sn_auth_bad = 0, sn_complete = 0, sn_frames = []\<rparr> demo_packets) =
     replicate 2094 None @ [Some (take REAL_BYTES (concat (map (\<lambda>i. replicate 1320 0) [0..<2095])))]"
proof (rule snapshot_any_order [of 5 demo_packets _ "\<lambda>i. replicate 1320 0"])
  show "frame_of 5 2095 demo_packets"
    by (auto simp: frame_of_def demo_packets_def list_all_iff tool_consts default_header_def simp del: upt_rec_numeral)
  show "length demo_packets = 2095" by (simp add: demo_packets_def del: upt_rec_numeral)
  have "map (\<lambda>(h, p). nat (segment_id h)) demo_packets = rev [0..<2095]"
    by (simp add: demo_packets_def o_def rev_map [symmetric] del: upt_rec_numeral)
  then show "distinct (map (\<lambda>(h, p). nat (segment_id h)) demo_packets)"
    by (simp del: upt_rec_numeral)
  show "map (\<lambda>(h, p). slice HEADER (HEADER + PAYLOAD) p) demo_packets =
      map (\<lambda>(h, p). replicate 1320 0) demo_packets"
    by (simp add: demo_packets_def slice_def HEADER_def PAYLOAD_def del: upt_rec_numeral)
qed (simp_all add: MAX_ACTIVE_FRAMES_def)

end
