(* ===== verification/Rx_Live.thy ===== *)
theory Rx_Live
  imports Rx_Tools
begin

text \<open>
  \<^verbatim>\<open>pc/runtime/rx_record.py\<close> (writes the newest frame to a video file) and \<^verbatim>\<open>pc/runtime/rx_display.py\<close> (shows
  it): one raster per frame id, which starts as a copy of the last picture and is overwritten segment by
  segment. A turn of the loop drains the socket and then writes or draws when the clock says so; the
  clock's answer is an input of the turn. OpenCV is not modelled: the pictures handed to it are recorded.

  The lemmas show the size invariant of the rasters, so that every picture has the right number of bytes, the
  bound on the frames kept, that a run never fails when the sender uses one segment count, and
  that a frame whose segments have all arrived is the picture, whatever was there before.
\<close>

section \<open>Definitions\<close>

definition put_segment :: "bytes \<Rightarrow> int \<Rightarrow> bytes \<Rightarrow> bytes" where
  "put_segment buf seg plain =
     (let off = nat seg * PAYLOAD
      in if off < REAL_BYTES then set_slice off (off + PAYLOAD) buf (slice HEADER (HEADER + PAYLOAD) plain)
         else buf)"

definition MAX_ACTIVE :: nat where "MAX_ACTIVE = 8"

definition newest_frame :: "(int \<times> 'a) list \<Rightarrow> int" where
  "newest_frame fs = foldr max (map fst (tl fs)) (fst (hd fs))"

text \<open>\<^verbatim>\<open>np.frombuffer(...).reshape\<close> on the first picture bytes: a buffer of another size raises.\<close>

definition to_picture :: "bytes \<Rightarrow> bytes result" where
  "to_picture buf = (if length (take REAL_BYTES buf) = REAL_BYTES then Inr (take REAL_BYTES buf) else Inl ValueError)"

subsection \<open>rx_record.py\<close>

record recorder =
  rc_frames :: "(int \<times> bytes) list"
  rc_seen :: "(int \<times> bool list) list"
  rc_seg_counts :: "(int \<times> int) list"
  rc_last_written :: bytes
  rc_packets :: int
  rc_auth_bad :: int
  rc_malformed :: int
  rc_written :: "bytes list"
  rc_completeness :: "(int \<times> int) list"

definition record_init :: recorder where
  "record_init = \<lparr>rc_frames = [], rc_seen = [], rc_seg_counts = [], rc_last_written = replicate REAL_BYTES 0,
     rc_packets = 0, rc_auth_bad = 0, rc_malformed = 0, rc_written = [], rc_completeness = []\<rparr>"

definition record_bad_header :: "packet_header \<Rightarrow> int \<Rightarrow> bool" where
  "record_bad_header h c \<longleftrightarrow>
     magic h \<noteq> 0x4F56 \<or> version h \<noteq> 0 \<or> session_id h \<noteq> 1 \<or> stream_id h \<noteq> 1 \<or>
     payload_length h \<noteq> int PAYLOAD \<or> nonce_counter h \<noteq> c \<or> segment_id h \<ge> segment_count h \<or> segment_count h = 0"

definition stale_ids :: "(int \<times> 'a) list \<Rightarrow> int list" where
  "stale_ids fs =
     (if length fs > MAX_ACTIVE then take (length fs - MAX_ACTIVE) (sort (map fst fs)) else [])"

text \<open>A frame id without a raster: old frames go first, then the new raster inherits the last picture.\<close>

definition record_slot :: "recorder \<Rightarrow> int \<Rightarrow> int \<Rightarrow> recorder" where
  "record_slot s fid n =
     (if fid \<in> fst ` set (rc_frames s) then s
      else let old = stale_ids (rc_frames s)
           in s\<lparr>rc_frames := AList.update fid (rc_last_written s) (fold AList.delete old (rc_frames s)),
                rc_seen := AList.update fid (replicate (nat n) False) (fold AList.delete old (rc_seen s)),
                rc_seg_counts := AList.update fid n (fold AList.delete old (rc_seg_counts s))\<rparr>)"

definition record_place :: "recorder \<Rightarrow> packet_header \<Rightarrow> bytes \<Rightarrow> unit result \<times> recorder" where
  "record_place s h plain =
     (let fid = frame_id h; seg = segment_id h; s1 = record_slot s fid (segment_count h)
      in if nat seg * PAYLOAD < REAL_BYTES
         then (case map_of (rc_frames s1) fid of
                 None \<Rightarrow> (Inl KeyError, s1)
               | Some buf \<Rightarrow>
                   let s2 = s1\<lparr>rc_frames := AList.update fid (put_segment buf seg plain) (rc_frames s1)\<rparr>
                   in case map_of (rc_seen s2) fid of
                        None \<Rightarrow> (Inl KeyError, s2)
                      | Some sn \<Rightarrow>
                          if nat seg < length sn
                          then (Inr (), s2\<lparr>rc_seen := AList.update fid (sn[nat seg := True]) (rc_seen s2)\<rparr>)
                          else (Inl IndexError, s2))
         else (Inr (), s1))"

definition record_packet :: "(bytes \<Rightarrow> bytes \<Rightarrow> bytes result) \<Rightarrow> recorder \<Rightarrow> bytes \<Rightarrow> unit result \<times> recorder" where
  "record_packet dec s d =
     (if length d \<noteq> SLOT then (Inr (), s)
      else let s1 = s\<lparr>rc_packets := rc_packets s + 1\<rparr>
           in case slot_decrypt dec d of
                Inl _ \<Rightarrow> (Inr (), s1\<lparr>rc_auth_bad := rc_auth_bad s1 + 1\<rparr>)
              | Inr plain \<Rightarrow>
                  (case hdr_unpack_from plain of
                     Inl e \<Rightarrow> (Inl e, s1)
                   | Inr h \<Rightarrow>
                       if record_bad_header h (slot_counter d)
                       then (Inr (), s1\<lparr>rc_malformed := rc_malformed s1 + 1\<rparr>)
                       else record_place s1 h plain))"

definition record_drain :: "(bytes \<Rightarrow> bytes \<Rightarrow> bytes result) \<Rightarrow> recorder \<Rightarrow> bytes list \<Rightarrow> unit result \<times> recorder" where
  "record_drain dec = loop_r (record_packet dec)"

definition record_write :: "recorder \<Rightarrow> unit result \<times> recorder" where
  "record_write s =
     (if rc_frames s = [] then (Inr (), s)
      else let fid = newest_frame (rc_frames s)
           in case (map_of (rc_frames s) fid, map_of (rc_seg_counts s) fid, map_of (rc_seen s) fid) of
                (Some buf, Some n, Some sn) \<Rightarrow>
                  (case to_picture buf of
                     Inl e \<Rightarrow> (Inl e, s)
                   | Inr pic \<Rightarrow>
                       let s1 = s\<lparr>rc_written := rc_written s @ [pic], rc_last_written := buf\<rparr>
                       in if n = 0 then (Inl ZeroDivisionError, s1)
                          else (Inr (), s1\<lparr>rc_completeness := rc_completeness s1 @
                                            [(int (length (filter id sn)), n)]\<rparr>))
              | _ \<Rightarrow> (Inl KeyError, s))"

text \<open>
  The main loop. A turn has the datagrams that reached the socket before it and the clock's answer; at most
  800 datagrams are taken per turn and the others wait.
\<close>

definition record_turn :: "(bytes \<Rightarrow> bytes \<Rightarrow> bytes result) \<Rightarrow> recorder \<times> bytes list \<Rightarrow> bytes list \<times> bool \<Rightarrow>
    unit result \<times> recorder \<times> bytes list" where
  "record_turn dec sq turn =
     (case (sq, turn) of ((s, q), (arrived, due)) \<Rightarrow>
        (case record_drain dec s (take 800 (q @ arrived)) of
           (Inl e, s1) \<Rightarrow> (Inl e, s1, q)
         | (Inr _, s1) \<Rightarrow>
             (case (if due then record_write s1 else (Inr (), s1)) of
                (r, s2) \<Rightarrow> (r, s2, drop 800 (q @ arrived)))))"

definition record_run :: "(bytes \<Rightarrow> bytes \<Rightarrow> bytes result) \<Rightarrow> (bytes list \<times> bool) list \<Rightarrow> unit result \<times> recorder" where
  "record_run dec ts = (case loop_r (record_turn dec) (record_init, []) ts of (r, s, q) \<Rightarrow> (r, s))"

subsection \<open>rx_display.py\<close>

record displayer =
  dp_frames :: "(int \<times> bytes) list"
  dp_last_shown :: bytes
  dp_shown_fid :: int
  dp_packets :: int
  dp_auth_bad :: int
  dp_bad :: int
  dp_shown :: "bytes list"

definition display_init :: displayer where
  "display_init = \<lparr>dp_frames = [], dp_last_shown = replicate REAL_BYTES 0, dp_shown_fid = -1,
     dp_packets = 0, dp_auth_bad = 0, dp_bad = 0, dp_shown = []\<rparr>"

definition display_slot :: "displayer \<Rightarrow> int \<Rightarrow> displayer" where
  "display_slot s fid =
     (if fid \<in> fst ` set (dp_frames s) then s
      else let old = stale_ids (dp_frames s)
           in s\<lparr>dp_frames := AList.update fid (dp_last_shown s) (fold AList.delete old (dp_frames s))\<rparr>)"

text \<open>The fields are read at their offsets; a short plaintext would raise \<^verbatim>\<open>struct.error\<close>.\<close>

definition display_place :: "displayer \<Rightarrow> bytes \<Rightarrow> unit result \<times> displayer" where
  "display_place s plain =
     (if slice 0 2 plain = [0x4F, 0x56]
      then if length plain < 16 then (Inl StructError, s)
           else let fid = from_bytes_be (slice 10 14 plain);
                    seg = from_bytes_be (slice 14 16 plain);
                    s1 = display_slot s fid
                in (case map_of (dp_frames s1) fid of
                      None \<Rightarrow> (Inl KeyError, s1)
                    | Some buf \<Rightarrow>
                        (Inr (), s1\<lparr>dp_frames := AList.update fid (put_segment buf seg plain) (dp_frames s1)\<rparr>))
      else (Inr (), s\<lparr>dp_bad := dp_bad s + 1\<rparr>))"

definition display_packet :: "(bytes \<Rightarrow> bytes \<Rightarrow> bytes result) \<Rightarrow> displayer \<Rightarrow> bytes \<Rightarrow> unit result \<times> displayer" where
  "display_packet dec s d =
     (if length d \<noteq> SLOT then (Inr (), s)
      else let s1 = s\<lparr>dp_packets := dp_packets s + 1\<rparr>
           in case slot_decrypt dec d of
                Inl _ \<Rightarrow> (Inr (), s1\<lparr>dp_auth_bad := dp_auth_bad s1 + 1\<rparr>)
              | Inr plain \<Rightarrow> display_place s1 plain)"

definition display_drain :: "(bytes \<Rightarrow> bytes \<Rightarrow> bytes result) \<Rightarrow> displayer \<Rightarrow> bytes list \<Rightarrow> unit result \<times> displayer" where
  "display_drain dec = loop_r (display_packet dec)"

definition display_draw :: "displayer \<Rightarrow> unit result \<times> displayer" where
  "display_draw s =
     (let newest = (if dp_frames s = [] then -1 else newest_frame (dp_frames s))
      in if newest \<ge> 0
         then (case map_of (dp_frames s) newest of
                 None \<Rightarrow> (Inl KeyError, s)
               | Some buf \<Rightarrow>
                   (case to_picture buf of
                      Inl e \<Rightarrow> (Inl e, s)
                    | Inr pic \<Rightarrow> (Inr (), s\<lparr>dp_shown := dp_shown s @ [pic], dp_last_shown := buf,
                                            dp_shown_fid := newest\<rparr>)))
         else (Inr (), s))"

text \<open>A turn also has what the window says: closed or the quit key, which ends the loop.\<close>

fun display_run :: "(bytes \<Rightarrow> bytes \<Rightarrow> bytes result) \<Rightarrow> displayer \<Rightarrow> bytes list \<Rightarrow>
    (bytes list \<times> bool \<times> bool) list \<Rightarrow> unit result \<times> displayer" where
  "display_run dec s q [] = (Inr (), s)"
| "display_run dec s q ((arrived, due, quit) # ts) =
     (case display_drain dec s (take 500 (q @ arrived)) of
        (Inl e, s1) \<Rightarrow> (Inl e, s1)
      | (Inr _, s1) \<Rightarrow>
          (case (if due then display_draw s1 else (Inr (), s1)) of
             (Inl e, s2) \<Rightarrow> (Inl e, s2)
           | (Inr _, s2) \<Rightarrow> if quit then (Inr (), s2) else display_run dec s2 (drop 500 (q @ arrived)) ts))"

section \<open>Rasters\<close>

text \<open>A raster is one picture, or one picture with the slack of its last segment.\<close>

definition raster_ok :: "bytes \<Rightarrow> bool" where
  "raster_ok b \<longleftrightarrow> length b = REAL_BYTES \<or> length b = 2095 * PAYLOAD"

lemma raster_init: "raster_ok (replicate REAL_BYTES 0)"
  by (simp add: raster_ok_def)

lemma put_segment_ok:
  assumes "raster_ok b" and "length plain = HEADER + PAYLOAD"
  shows "raster_ok (put_segment b seg plain)"
proof (cases "nat seg * PAYLOAD < REAL_BYTES")
  case True
  then have "nat seg = 2094 \<or> nat seg \<le> 2093" by (auto simp: tool_consts)
  moreover have "length (slice HEADER (HEADER + PAYLOAD) plain) = PAYLOAD" using assms(2) by (simp add: length_slice)
  ultimately show ?thesis using assms(1) True
    by (auto simp: put_segment_def set_slice_def raster_ok_def tool_consts Let_def)
qed (use assms(1) in \<open>simp add: put_segment_def\<close>)

lemma to_picture_ok: "raster_ok b \<Longrightarrow> to_picture b = Inr (take REAL_BYTES b) \<and> length (take REAL_BYTES b) = REAL_BYTES"
  by (auto simp: raster_ok_def to_picture_def tool_consts)

definition rasters_inv :: "(int \<times> bytes) list \<Rightarrow> bytes \<Rightarrow> bool" where
  "rasters_inv fs prev \<longleftrightarrow> distinct (map fst fs) \<and> length fs \<le> Suc MAX_ACTIVE \<and>
     list_all (\<lambda>(k, b). raster_ok b) fs \<and> raster_ok prev"

lemma list_all_update:
  "list_all (\<lambda>(k, b). P b) fs \<Longrightarrow> P b \<Longrightarrow> list_all (\<lambda>(k, b). P b) (AList.update k b fs)"
  by (induction fs) auto

lemma list_all_delete: "list_all P fs \<Longrightarrow> list_all P (fold AList.delete ks fs)"
  by (auto simp: fold_delete list_all_iff)

lemma delete_stale:
  assumes "distinct (map fst fs)"
  shows "length (fold AList.delete (stale_ids fs) fs) \<le> MAX_ACTIVE"
    and "distinct (map fst (fold AList.delete ks fs))"
proof -
  show "length (fold AList.delete (stale_ids fs) fs) \<le> MAX_ACTIVE"
    using evict_stale_props(1) [OF assms, of MAX_ACTIVE] by (auto simp: evict_stale_def stale_ids_def)
  show "distinct (map fst (fold AList.delete ks fs))"
    using assms by (simp add: fold_delete distinct_map_filter)
qed

lemma rasters_new:
  assumes "rasters_inv fs prev"
  shows "rasters_inv (AList.update fid prev (fold AList.delete (stale_ids fs) fs)) prev"
proof -
  let ?fs = "fold AList.delete (stale_ids fs) fs"
  have "distinct (map fst fs)" using assms by (simp add: rasters_inv_def)
  note del = delete_stale [OF this]
  have "length (AList.update fid prev ?fs) \<le> Suc (length ?fs)"
    by (cases "fid \<in> fst ` set ?fs") (simp_all add: update_length_old update_length_new)
  then show ?thesis using assms del
    by (simp add: rasters_inv_def distinct_update list_all_update list_all_delete)
qed

lemma rasters_put:
  assumes "rasters_inv fs prev" and "map_of fs fid = Some b" and "length plain = HEADER + PAYLOAD"
  shows "rasters_inv (AList.update fid (put_segment b seg plain) fs) prev"
proof -
  have "raster_ok b" using assms(1) map_of_SomeD [OF assms(2)] by (auto simp: rasters_inv_def list_all_iff)
  then show ?thesis using assms put_segment_ok dict_get_in [OF assms(2)]
    by (simp add: rasters_inv_def distinct_update list_all_update update_length_old)
qed

lemma rasters_get:
  "rasters_inv fs prev \<Longrightarrow> map_of fs fid = Some b \<Longrightarrow> raster_ok b \<and> rasters_inv fs b"
  using map_of_SomeD by (fastforce simp: rasters_inv_def list_all_iff)

lemma newest_frame_in: "fs \<noteq> [] \<Longrightarrow> newest_frame fs \<in> fst ` set fs"
proof -
  have "foldr max ks (k :: int) \<in> insert k (set ks)" for ks k by (induction ks) (auto simp: max_def)
  then show "fs \<noteq> [] \<Longrightarrow> newest_frame fs \<in> fst ` set fs"
    by (cases fs) (force simp: newest_frame_def)+
qed

lemma newest_frame_get: "fs \<noteq> [] \<Longrightarrow> \<exists>b. map_of fs (newest_frame fs) = Some b"
  using newest_frame_in [of fs] map_of_eq_None_iff [of fs "newest_frame fs"] by blast

section \<open>The display\<close>

definition display_inv :: "displayer \<Rightarrow> bool" where
  "display_inv s \<longleftrightarrow> rasters_inv (dp_frames s) (dp_last_shown s) \<and>
     list_all (\<lambda>p. length p = REAL_BYTES) (dp_shown s)"

lemma display_packet_inv:
  assumes "dec_lengths dec" and "display_inv s"
  shows "\<exists>s'. display_packet dec s d = (Inr (), s') \<and> display_inv s' \<and>
     dp_packets s' = dp_packets s + (if length d = SLOT then 1 else 0) \<and> dp_shown s' = dp_shown s"
proof (cases "\<exists>plain. length d = SLOT \<and> slot_decrypt dec d = Inr plain \<and> slice 0 2 plain = [0x4F, 0x56]")
  case True
  then obtain plain where p: "length d = SLOT" "slot_decrypt dec d = Inr plain" "slice 0 2 plain = [0x4F, 0x56]"
    by blast
  have len: "length plain = HEADER + PAYLOAD" by (rule slot_plain_length [OF assms(1) p(1,2)])
  let ?fid = "from_bytes_be (slice 10 14 plain)"
  let ?s = "display_slot (s\<lparr>dp_packets := dp_packets s + 1\<rparr>) ?fid"
  have inv: "rasters_inv (dp_frames ?s) (dp_last_shown s)" "dp_last_shown ?s = dp_last_shown s"
    "dp_packets ?s = dp_packets s + 1" "dp_shown ?s = dp_shown s"
    using assms(2) rasters_new by (auto simp: display_inv_def display_slot_def Let_def)
  obtain b where b: "map_of (dp_frames ?s) ?fid = Some b"
    by (cases "?fid \<in> fst ` set (dp_frames s)")
      (auto simp: display_slot_def Let_def dest: weak_map_of_SomeI)
  show ?thesis
    using p len inv rasters_put [OF inv(1) b len] b assms(2)
    by (simp add: display_packet_def display_place_def Let_def display_inv_def HEADER_def PAYLOAD_def)
qed (use assms(2) in \<open>auto simp: display_packet_def display_place_def display_inv_def Let_def split: sum.splits\<close>)

interpretation dp: total_machine "display_packet dec" "\<lambda>s. dec_lengths dec \<and> display_inv s" "\<lambda>_. True"
  by unfold_locales (use display_packet_inv in blast)

lemma display_drain_inv:
  "dec_lengths dec \<Longrightarrow> display_inv s \<Longrightarrow> \<exists>s'. display_drain dec s ds = (Inr (), s') \<and> display_inv s'"
  using dp.loop_total [of dec s ds] by (auto simp: display_drain_def list_all_iff)

lemma display_draw_inv: "display_inv s \<Longrightarrow> \<exists>s'. display_draw s = (Inr (), s') \<and> display_inv s'"
proof -
  assume inv: "display_inv s"
  show ?thesis
  proof (cases "dp_frames s = [] \<or> newest_frame (dp_frames s) < 0")
    case False
    then obtain b where b: "map_of (dp_frames s) (newest_frame (dp_frames s)) = Some b"
      using newest_frame_get by blast
    then have "raster_ok b" "rasters_inv (dp_frames s) b" using inv rasters_get by (auto simp: display_inv_def)
    then show ?thesis using False b inv to_picture_ok [of b] by (simp add: display_draw_def display_inv_def Let_def)
  qed (use inv in \<open>auto simp: display_draw_def Let_def\<close>)
qed

lemma display_run_inv:
  "dec_lengths dec \<Longrightarrow> display_inv s \<Longrightarrow> \<exists>s'. display_run dec s q ts = (Inr (), s') \<and> display_inv s'"
proof (induction ts arbitrary: s q)
  case (Cons t ts)
  obtain arrived due quit where t: "t = (arrived, due, quit)" by (cases t)
  obtain s1 where s1: "display_drain dec s (take 500 (q @ arrived)) = (Inr (), s1)" "display_inv s1"
    using display_drain_inv [OF Cons.prems] by blast
  obtain s2 where "(if due then display_draw s1 else (Inr (), s1)) = (Inr (), s2)" "display_inv s2"
    using display_draw_inv [OF s1(2)] s1(2) by (cases due) auto
  then show ?case using s1 Cons.IH [OF Cons.prems(1), of s2] by (simp add: t)
qed simp

text \<open>
  The live display never raises, whatever datagrams arrive and however the clock and the window behave:
  it keeps at most nine rasters, and every picture it hands to the window has exactly the bytes of one
  1280 x 720 RGB frame.
\<close>

theorem display_never_fails:
  assumes "dec_lengths dec"
  shows "\<exists>s. display_run dec display_init [] ts = (Inr (), s) \<and> length (dp_frames s) \<le> 9 \<and>
     filter (\<lambda>p. length p \<noteq> REAL_BYTES) (dp_shown s) = []"
proof -
  have "display_inv display_init" by (simp add: display_inv_def display_init_def rasters_inv_def raster_init)
  from display_run_inv [OF assms this, of "[]" ts] show ?thesis
    by (auto simp: display_inv_def rasters_inv_def MAX_ACTIVE_def list_all_iff filter_empty_conv)
qed

theorem display_never_fails_witness:
  "\<exists>s. display_run (\<lambda>n c. Inl ValueError) display_init [] [([[1, 2]], True, False)] = (Inr (), s) \<and>
     length (dp_frames s) \<le> 9"
  using display_never_fails [of "\<lambda>n c. Inl ValueError" "[([[1, 2]], True, False)]"]
  by (auto simp: dec_lengths_def)

section \<open>The recorder\<close>

text \<open>
  The three dictionaries have the same keys in the same order; with one segment count \<open>n\<close> in use every map of
  received segments has that length.
\<close>

definition record_inv :: "nat \<Rightarrow> recorder \<Rightarrow> bool" where
  "record_inv n s \<longleftrightarrow> rasters_inv (rc_frames s) (rc_last_written s) \<and>
     map fst (rc_seen s) = map fst (rc_frames s) \<and> map fst (rc_seg_counts s) = map fst (rc_frames s) \<and>
     list_all (\<lambda>(k, l). length l = n) (rc_seen s) \<and> list_all (\<lambda>(k, c). c = int n) (rc_seg_counts s) \<and>
     list_all (\<lambda>p. length p = REAL_BYTES) (rc_written s)"

text \<open>Every packet the recorder would place carries the segment count \<open>n\<close>.\<close>

definition uniform_count :: "(bytes \<Rightarrow> bytes \<Rightarrow> bytes result) \<Rightarrow> nat \<Rightarrow> bytes \<Rightarrow> bool" where
  "uniform_count dec n d \<longleftrightarrow>
     (case slot_decrypt dec d of Inl _ \<Rightarrow> True
      | Inr plain \<Rightarrow> (case hdr_unpack_from plain of Inl _ \<Rightarrow> True
          | Inr h \<Rightarrow> record_bad_header h (slot_counter d) \<or> segment_count h = int n))"

lemma update_keys_cong:
  "map fst a = map fst b \<Longrightarrow> map fst (AList.update k x a) = map fst (AList.update k y b)"
  by (simp add: update_keys)

lemma delete_keys_cong:
  "map fst a = map fst b \<Longrightarrow> map fst (fold AList.delete ks a) = map fst (fold AList.delete ks b)"
proof -
  have "map fst (filter (\<lambda>p. fst p \<notin> set ks) xs) = filter (\<lambda>k. k \<notin> set ks) (map fst xs)" for xs :: "('a \<times> 'c) list"
    by (simp add: filter_map o_def)
  moreover have "map fst (filter (\<lambda>p. fst p \<notin> set ks) xs) = filter (\<lambda>k. k \<notin> set ks) (map fst xs)" for xs :: "('a \<times> 'b) list"
    by (simp add: filter_map o_def)
  ultimately show "map fst a = map fst b \<Longrightarrow> map fst (fold AList.delete ks a) = map fst (fold AList.delete ks b)"
    by (simp add: fold_delete)
qed

lemma same_keys_get:
  "map fst a = map fst b \<Longrightarrow> map_of b k = Some x \<Longrightarrow> \<exists>y. map_of a k = Some y"
  by (metis dict_get_in list.set_map map_of_eq_None_iff not_None_eq)

lemma record_slot_inv:
  assumes "record_inv n s"
  shows "record_inv n (record_slot s fid (int n))"
    and "\<exists>b. map_of (rc_frames (record_slot s fid (int n))) fid = Some b"
proof -
  show "record_inv n (record_slot s fid (int n))"
  proof (cases "fid \<in> fst ` set (rc_frames s)")
    case False
    let ?d = "\<lambda>fs. fold AList.delete (stale_ids (rc_frames s)) fs"
    have "map fst (AList.update fid x (?d (rc_seen s))) = map fst (AList.update fid y (?d (rc_frames s)))"
      "map fst (AList.update fid z (?d (rc_seg_counts s))) = map fst (AList.update fid y (?d (rc_frames s)))" for x y z
      using assms by (intro update_keys_cong delete_keys_cong; simp add: record_inv_def)+
    then show ?thesis using False assms rasters_new
      by (simp add: record_slot_def record_inv_def Let_def list_all_update list_all_delete)
  qed (use assms in \<open>simp add: record_slot_def\<close>)
  show "\<exists>b. map_of (rc_frames (record_slot s fid (int n))) fid = Some b"
    by (cases "fid \<in> fst ` set (rc_frames s)")
      (auto simp: record_slot_def Let_def dest: weak_map_of_SomeI)
qed

lemma record_place_inv:
  assumes inv: "record_inv n s" and "segment_count h = int n" and "segment_id h < segment_count h"
    and "segment_count h \<noteq> 0" and len: "length plain = HEADER + PAYLOAD"
  shows "\<exists>s'. record_place s h plain = (Inr (), s') \<and> record_inv n s'"
proof -
  let ?s = "record_slot s (frame_id h) (int n)"
  note slot = record_slot_inv [OF inv, of "frame_id h"]
  obtain b where b: "map_of (rc_frames ?s) (frame_id h) = Some b" using slot(2) by blast
  have keys: "map fst (rc_seen ?s) = map fst (rc_frames ?s)" using slot(1) by (simp add: record_inv_def)
  obtain l where l: "map_of (rc_seen ?s) (frame_id h) = Some l" using same_keys_get [OF keys b] by blast
  have "length l = n" using slot(1) map_of_SomeD [OF l] by (auto simp: record_inv_def list_all_iff)
  moreover have "nat (segment_id h) < n" using assms(2-4) by linarith
  moreover have "rasters_inv (AList.update (frame_id h) (put_segment b (segment_id h) plain) (rc_frames ?s)) (rc_last_written ?s)"
    using rasters_put [OF _ b len] slot(1) by (simp add: record_inv_def)
  moreover have "map fst (AList.update (frame_id h) x (rc_seen ?s)) = map fst (rc_seen ?s)"
    "map fst (AList.update (frame_id h) y (rc_frames ?s)) = map fst (rc_frames ?s)" for x y
    using dict_get_in [OF b] dict_get_in [OF l] by (simp_all add: update_keys)
  ultimately show ?thesis using slot(1) b l assms(2)
    by (simp add: record_place_def record_inv_def Let_def list_all_update)
qed

lemma record_packet_inv:
  assumes "dec_lengths dec" and "record_inv n s" and "uniform_count dec n d"
  shows "\<exists>s'. record_packet dec s d = (Inr (), s') \<and> record_inv n s'"
proof (cases "length d = SLOT")
  case True
  let ?s = "s\<lparr>rc_packets := rc_packets s + 1\<rparr>"
  have s: "record_inv n ?s" using assms(2) by (simp add: record_inv_def)
  show ?thesis
  proof (cases "slot_decrypt dec d")
    case (Inl e)
    then show ?thesis using True s by (simp add: record_packet_def record_inv_def)
  next
    case (Inr plain)
    obtain h where h: "hdr_unpack_from plain = Inr h" using slot_header [OF assms(1) True Inr] .
    show ?thesis
    proof (cases "record_bad_header h (slot_counter d)")
      case bad: True
      then show ?thesis using True Inr h s by (simp add: record_packet_def record_inv_def)
    next
      case False
      then have "segment_count h = int n" "segment_id h < segment_count h" "segment_count h \<noteq> 0"
        using assms(3) Inr h by (auto simp: uniform_count_def record_bad_header_def)
      from record_place_inv [OF s this slot_plain_length [OF assms(1) True Inr]] show ?thesis
        using True False Inr h by (simp add: record_packet_def)
    qed
  qed
qed (use assms(2) in \<open>simp add: record_packet_def\<close>)

interpretation rc: total_machine "record_packet dec" "\<lambda>s. dec_lengths dec \<and> record_inv n s" "uniform_count dec n"
  by unfold_locales (use record_packet_inv in blast)

lemma record_write_inv:
  assumes "record_inv n s" and "0 < n"
  shows "\<exists>s'. record_write s = (Inr (), s') \<and> record_inv n s'"
proof (cases "rc_frames s = []")
  case False
  let ?k = "newest_frame (rc_frames s)"
  obtain b where b: "map_of (rc_frames s) ?k = Some b" using newest_frame_get [OF False] by blast
  have "map fst (rc_seen s) = map fst (rc_frames s)" "map fst (rc_seg_counts s) = map fst (rc_frames s)"
    using assms(1) by (simp_all add: record_inv_def)
  then obtain l c where l: "map_of (rc_seen s) ?k = Some l" and c: "map_of (rc_seg_counts s) ?k = Some c"
    using same_keys_get [OF _ b] by metis
  have "c = int n" using assms(1) map_of_SomeD [OF c] by (auto simp: record_inv_def list_all_iff)
  moreover have "raster_ok b" "rasters_inv (rc_frames s) b"
    using assms(1) rasters_get [OF _ b] by (auto simp: record_inv_def)
  ultimately show ?thesis using False assms b l c to_picture_ok [of b]
    by (simp add: record_write_def record_inv_def Let_def)
qed (use assms in \<open>simp add: record_write_def\<close>)

lemma record_turn_inv:
  assumes "dec_lengths dec" and "0 < n" and "record_inv n s" and "list_all (uniform_count dec n) q"
    and "list_all (uniform_count dec n) arrived"
  shows "\<exists>s'. record_turn dec (s, q) (arrived, due) = (Inr (), s', drop 800 (q @ arrived)) \<and> record_inv n s'"
proof -
  have "list_all (uniform_count dec n) (take 800 (q @ arrived))"
    using assms(4,5) by (auto simp: list_all_iff dest: in_set_takeD)
  then obtain s1 where s1: "record_drain dec s (take 800 (q @ arrived)) = (Inr (), s1)" "record_inv n s1"
    using rc.loop_total [of dec n s] assms(1,3) unfolding record_drain_def by blast
  then show ?thesis using record_write_inv [OF s1(2) assms(2)] by (cases due) (auto simp: record_turn_def)
qed

interpretation rct: total_machine "record_turn dec"
  "\<lambda>(s, q). dec_lengths dec \<and> 0 < n \<and> record_inv n s \<and> list_all (uniform_count dec n) q"
  "\<lambda>(arrived, due). list_all (uniform_count dec n) arrived"
proof unfold_locales
  fix sq and turn :: "bytes list \<times> bool"
  assume "case sq of (s, q) \<Rightarrow> dec_lengths dec \<and> 0 < n \<and> record_inv n s \<and> list_all (uniform_count dec n) q"
    and "case turn of (arrived, due) \<Rightarrow> list_all (uniform_count dec n) arrived"
  then show "\<exists>sq'. record_turn dec sq turn = (Inr (), sq') \<and>
      (case sq' of (s, q) \<Rightarrow> dec_lengths dec \<and> 0 < n \<and> record_inv n s \<and> list_all (uniform_count dec n) q)"
    using record_turn_inv [of dec n "fst sq" "snd sq" "fst turn" "snd turn"]
    by (cases sq; cases turn) (fastforce simp: list_all_iff dest: in_set_dropD)
qed

text \<open>
  When every packet the recorder accepts carries the same positive segment count, a recording never raises,
  whatever else arrives and whenever the clock asks for a frame: at most nine rasters are kept and every
  written picture has exactly the bytes of one frame.
\<close>

theorem record_never_fails:
  assumes "dec_lengths dec" and "0 < n"
    and "list_all (\<lambda>(arrived, due). list_all (uniform_count dec n) arrived) ts"
  shows "\<exists>s. record_run dec ts = (Inr (), s) \<and> length (rc_frames s) \<le> 9 \<and>
     filter (\<lambda>p. length p \<noteq> REAL_BYTES) (rc_written s) = []"
proof -
  have "record_inv n record_init" by (simp add: record_inv_def record_init_def rasters_inv_def raster_init)
  then obtain s q where "loop_r (record_turn dec) (record_init, []) ts = (Inr (), s, q)" "record_inv n s"
    using rct.loop_total [of dec n "(record_init, [])" ts] assms by auto
  then show ?thesis
    by (auto simp: record_run_def record_inv_def rasters_inv_def MAX_ACTIVE_def list_all_iff filter_empty_conv)
qed

theorem record_never_fails_witness:
  "\<exists>s. record_run (\<lambda>n c. Inl ValueError) [([replicate 1408 0], True)] = (Inr (), s) \<and>
     length (rc_frames s) \<le> 9"
proof -
  have "uniform_count (\<lambda>n c. Inl ValueError) 2095 d" for d
    by (auto simp: uniform_count_def slot_decrypt_def bind_r_def split: sum.split)
  then have "list_all (\<lambda>(arrived, due). list_all (uniform_count (\<lambda>n c. Inl ValueError) 2095) arrived)
      [([replicate 1408 0], True)]" by simp
  moreover have "dec_lengths (\<lambda>n c. Inl ValueError)" by (simp add: dec_lengths_def)
  ultimately have "\<exists>s. record_run (\<lambda>n c. Inl ValueError) [([replicate 1408 0], True)] = (Inr (), s) \<and>
      length (rc_frames s) \<le> 9 \<and> filter (\<lambda>p. length p \<noteq> REAL_BYTES) (rc_written s) = []"
    by (intro record_never_fails [of _ 2095]) simp_all
  then show ?thesis by blast
qed

text \<open>
  A packet of a frame that is already being recorded, whose segment lies beyond the segment count of the frame's first
  packet but inside the picture, ends the recording with an \<^verbatim>\<open>IndexError\<close>, although its own header is consistent.
\<close>

theorem record_index_error:
  assumes "map_of (rc_frames s) (frame_id h) = Some b" and "map_of (rc_seen s) (frame_id h) = Some l"
    and "length l \<le> nat (segment_id h)" and "nat (segment_id h) * PAYLOAD < REAL_BYTES"
  shows "fst (record_place s h plain) = Inl IndexError"
  using assms dict_get_in [OF assms(1)] by (simp add: record_place_def record_slot_def Let_def)

theorem record_index_error_witness:
  "fst (record_place (record_init\<lparr>rc_frames := [(4, replicate REAL_BYTES 0)], rc_seen := [(4, [True])]\<rparr>)
      (default_header\<lparr>frame_id := 4, segment_id := 1, segment_count := 2\<rparr>) (replicate 1360 0)) = Inl IndexError"
  by (rule record_index_error [of _ _ "replicate REAL_BYTES 0" "[True]"])
    (simp_all add: tool_consts default_header_def)

section \<open>Complete pictures\<close>

lemma concat_segment_slices: "concat (map (\<lambda>i. slice (i * p) (i * p + p) b) [0..<n]) = take (n * p) b"
proof (induction n)
  case (Suc n)
  have "take (n * p) b @ slice (n * p) (n * p + p) b = take (n * p + p) b"
    unfolding slice_def drop_take by (simp add: take_add)
  then show ?case using Suc by (simp add: add.commute)
qed simp

definition segs_ok :: "(nat \<Rightarrow> bytes) \<Rightarrow> bool" where
  "segs_ok g \<longleftrightarrow> (\<forall>i < 2094. length (g i) = PAYLOAD) \<and> length (g 2094) \<le> PAYLOAD"

lemma raster_segments:
  assumes "raster_ok b"
  obtains g where "segs_ok g" and "b = concat (map g [0..<2095])"
proof
  let ?g = "\<lambda>i. slice (i * PAYLOAD) (i * PAYLOAD + PAYLOAD) b"
  show "segs_ok ?g" using assms by (auto simp: segs_ok_def raster_ok_def length_slice tool_consts)
  show "b = concat (map ?g [0..<2095])"
    using assms unfolding concat_segment_slices by (auto simp: raster_ok_def tool_consts)
qed

lemma put_segment_segments:
  assumes "segs_ok g" and "0 \<le> seg" and "seg < 2095" and "length plain = HEADER + PAYLOAD"
  shows "put_segment (concat (map g [0..<2095])) seg plain =
      concat (map (g(nat seg := segment_bytes plain)) [0..<2095])"
    and "segs_ok (g(nat seg := segment_bytes plain))"
proof -
  have "nat seg * PAYLOAD < REAL_BYTES" using assms(2,3) by (simp add: tool_consts)
  moreover have "set_slice (nat seg * PAYLOAD) (nat seg * PAYLOAD + PAYLOAD) (concat (map g [0..<2095])) v =
      concat (map (g(nat seg := v)) [0..<2095])" for v
    using assms by (intro set_slice_segment) (auto simp: segs_ok_def)
  ultimately show "put_segment (concat (map g [0..<2095])) seg plain =
      concat (map (g(nat seg := segment_bytes plain)) [0..<2095])"
    by (simp add: put_segment_def segment_bytes_def Let_def del: upt_rec_numeral)
  show "segs_ok (g(nat seg := segment_bytes plain))"
    using assms by (auto simp: segs_ok_def segment_bytes_def length_slice)
qed

text \<open>
  What happens to the recorder: a datagram is drained or a frame is written. The datagrams that are placed, with their header
  and plaintext, and those of one frame.
\<close>

definition record_event :: "(bytes \<Rightarrow> bytes \<Rightarrow> bytes result) \<Rightarrow> recorder \<Rightarrow> bytes option \<Rightarrow> unit result \<times> recorder" where
  "record_event dec s e = (case e of None \<Rightarrow> record_write s | Some d \<Rightarrow> record_packet dec s d)"

definition placed :: "(bytes \<Rightarrow> bytes \<Rightarrow> bytes result) \<Rightarrow> bytes \<Rightarrow> (packet_header \<times> bytes) option" where
  "placed dec d =
     (if length d \<noteq> SLOT then None
      else case slot_decrypt dec d of
        Inl _ \<Rightarrow> None
      | Inr plain \<Rightarrow>
          (case hdr_unpack_from plain of
             Inl _ \<Rightarrow> None
           | Inr h \<Rightarrow> if record_bad_header h (slot_counter d) then None else Some (h, plain)))"

definition packets :: "(bytes \<Rightarrow> bytes \<Rightarrow> bytes result) \<Rightarrow> bytes option list \<Rightarrow> (packet_header \<times> bytes) list" where
  "packets dec es = List.map_filter (\<lambda>e. Option.bind e (placed dec)) es"

definition own_packets :: "(bytes \<Rightarrow> bytes \<Rightarrow> bytes result) \<Rightarrow> int \<Rightarrow> bytes option list \<Rightarrow> (packet_header \<times> bytes) list" where
  "own_packets dec fid es = filter (\<lambda>hp. frame_id (fst hp) = fid) (packets dec es)"

definition uniform_event :: "(bytes \<Rightarrow> bytes \<Rightarrow> bytes result) \<Rightarrow> bytes option \<Rightarrow> bool" where
  "uniform_event dec e \<longleftrightarrow> (case e of None \<Rightarrow> True | Some d \<Rightarrow> uniform_count dec 2095 d)"

definition known_ids :: "(bytes \<Rightarrow> bytes \<Rightarrow> bytes result) \<Rightarrow> recorder \<Rightarrow> bytes option list \<Rightarrow> int set" where
  "known_ids dec s es = fst ` set (rc_frames s) \<union> (\<lambda>hp. frame_id (fst hp)) ` set (packets dec es)"

lemma packets_simps [simp]:
  "packets dec [] = []"
  "packets dec (None # es) = packets dec es"
  "packets dec (Some d # es) = (case placed dec d of None \<Rightarrow> [] | Some hp \<Rightarrow> [hp]) @ packets dec es"
  by (simp_all add: packets_def List.map_filter_def split: option.split)

lemma placed_ok:
  assumes "dec_lengths dec" and "uniform_count dec 2095 d" and "placed dec d = Some (h, plain)"
  shows "segment_count h = 2095" and "0 \<le> segment_id h" and "segment_id h < 2095" and "length plain = HEADER + PAYLOAD"
proof -
  have d: "length d = SLOT" "slot_decrypt dec d = Inr plain" "hdr_unpack_from plain = Inr h" "\<not> record_bad_header h (slot_counter d)"
    using assms(3) by (auto simp: placed_def split: if_splits sum.splits)
  show c: "segment_count h = 2095" using assms(2) d by (simp add: uniform_count_def)
  show "length plain = HEADER + PAYLOAD" using slot_plain_length [OF assms(1) d(1,2)] .
  have "header_fits h" using d(3) unpack_header_fits by (auto simp: hdr_unpack_from_def split: if_splits)
  then show "0 \<le> segment_id h" by (simp add: header_fits_def)
  show "segment_id h < 2095" using d(4) c by (simp add: record_bad_header_def)
qed

lemma record_packet_frames:
  "rc_frames (snd (record_packet dec s d)) =
     (case placed dec d of None \<Rightarrow> rc_frames s | Some (h, plain) \<Rightarrow> rc_frames (snd (record_place s h plain)))"
proof -
  have "rc_frames (snd (record_place (s\<lparr>rc_packets := n\<rparr>) h plain)) = rc_frames (snd (record_place s h plain))" for n h plain
    by (auto simp: record_place_def record_slot_def Let_def split: option.splits)
  then show ?thesis by (auto simp: record_packet_def placed_def Let_def split: sum.splits)
qed

lemma record_write_frames: "rc_frames (snd (record_write s)) = rc_frames s"
  by (auto simp: record_write_def Let_def split: option.splits sum.splits)

text \<open>A frame with fewer than eight newer ones is not among the stale ones.\<close>

lemma not_stale:
  assumes "distinct (map fst fs)" and "card {k \<in> fst ` set fs. fid < k} < MAX_ACTIVE"
  shows "fid \<notin> set (stale_ids fs)"
proof
  let ?ks = "sort (map fst fs)"
  assume fid: "fid \<in> set (stale_ids fs)"
  then have len: "MAX_ACTIVE < length fs" and t: "fid \<in> set (take (length fs - MAX_ACTIVE) ?ks)"
    by (auto simp: stale_ids_def split: if_splits)
  have "sorted_wrt (<) ?ks" using assms(1) by (simp add: strict_sorted_iff)
  then have "sorted_wrt (<) (take (length fs - MAX_ACTIVE) ?ks @ drop (length fs - MAX_ACTIVE) ?ks)" by simp
  then have "fid < k" if "k \<in> set (drop (length fs - MAX_ACTIVE) ?ks)" for k
    using t that unfolding sorted_wrt_append by blast
  then have "set (drop (length fs - MAX_ACTIVE) ?ks) \<subseteq> {k \<in> fst ` set fs. fid < k}"
    using set_drop_subset [of "length fs - MAX_ACTIVE" ?ks] by auto
  then have "card (set (drop (length fs - MAX_ACTIVE) ?ks)) \<le> card {k \<in> fst ` set fs. fid < k}" by (rule card_mono [rotated]) simp
  moreover have "card (set (drop (length fs - MAX_ACTIVE) ?ks)) = MAX_ACTIVE"
    using assms(1) len by (subst distinct_card) simp_all
  ultimately show False using assms(2) by simp
qed

lemma record_slot_keys: "fst ` set (rc_frames (record_slot s fid n)) \<subseteq> insert fid (fst ` set (rc_frames s))"
  by (auto simp: record_slot_def Let_def update_keys fold_delete dom_update)

lemma record_place_keys: "fst ` set (rc_frames (snd (record_place s h plain))) \<subseteq> insert (frame_id h) (fst ` set (rc_frames s))"
  using record_slot_keys [of s "frame_id h" "segment_count h"]
  by (auto simp: record_place_def Let_def dom_update split: option.splits)

lemma record_place_other:
  assumes "distinct (map fst (rc_frames s))" and "card {k \<in> fst ` set (rc_frames s). fid < k} < MAX_ACTIVE"
    and "frame_id h \<noteq> fid"
  shows "map_of (rc_frames (snd (record_place s h plain))) fid = map_of (rc_frames s) fid"
proof -
  have "map_of (filter (\<lambda>p. fst p \<notin> set (stale_ids (rc_frames s))) fs) fid = map_of fs fid" for fs :: "(int \<times> bytes) list"
    using not_stale [OF assms(1,2)] by (induction fs) auto
  then have "map_of (rc_frames (record_slot s (frame_id h) n)) fid = map_of (rc_frames s) fid" for n
    using assms(3) by (simp add: record_slot_def Let_def fold_delete update_conv')
  then show ?thesis using assms(3) by (auto simp: record_place_def Let_def update_conv' split: option.splits)
qed

lemma record_place_pending:
  assumes "map_of (rc_frames s) fid = Some b" and "frame_id h = fid" and "nat (segment_id h) * PAYLOAD < REAL_BYTES"
  shows "map_of (rc_frames (snd (record_place s h plain))) fid = Some (put_segment b (segment_id h) plain)"
  using assms dict_get_in [OF assms(1)]
  by (simp add: record_place_def record_slot_def Let_def split: option.split)

lemma fill_segments_consistent:
  assumes "list_all (\<lambda>(h, p). segment_bytes p = pay (nat (segment_id h))) ps"
    and "i \<in> set (map (\<lambda>(h, p). nat (segment_id h)) ps)"
  shows "fill_segments g ps i = pay i"
  using assms
proof (induction ps rule: rev_induct)
  case (snoc hp ps)
  obtain h p where hp: "hp = (h, p)" by (cases hp)
  have "fill_segments g (ps @ [hp]) = (fill_segments g ps)(nat (segment_id h) := segment_bytes p)"
    by (simp add: fill_segments_def hp)
  then show ?case using snoc by (cases "i = nat (segment_id h)") (simp_all add: hp)
qed simp

text \<open>One event, with the ids of all frames within a set in which few are newer than the frame looked at.\<close>

lemma record_event_ok:
  assumes "dec_lengths dec" and "record_inv 2095 s" and "uniform_event dec e"
    and "known_ids dec s [e] \<subseteq> K"
  shows "\<exists>s'. record_event dec s e = (Inr (), s') \<and> record_inv 2095 s' \<and> fst ` set (rc_frames s') \<subseteq> K"
proof (cases e)
  case None
  then obtain s' where s': "record_write s = (Inr (), s')" "record_inv 2095 s'" using record_write_inv [OF assms(2)] by auto
  then have "rc_frames s' = rc_frames s" using record_write_frames [of s] by simp
  with s' None assms(4) show ?thesis by (simp add: record_event_def known_ids_def)
next
  case (Some d)
  then obtain s' where s': "record_packet dec s d = (Inr (), s')" "record_inv 2095 s'"
    using record_packet_inv [OF assms(1,2)] assms(3) by (auto simp: uniform_event_def)
  have "fst ` set (rc_frames s') \<subseteq> K"
    using record_packet_frames [of dec s d] s'(1) assms(4) Some record_place_keys [of s]
    by (fastforce simp: known_ids_def split: option.splits)
  with s' Some show ?thesis by (simp add: record_event_def)
qed

lemma record_event_frame:
  assumes "dec_lengths dec" and "record_inv 2095 s" and "uniform_event dec e"
    and "card {k \<in> fst ` set (rc_frames s). fid < k} < 8"
    and "map_of (rc_frames s) fid = Some (concat (map g [0..<2095]))" and "segs_ok g"
  shows "map_of (rc_frames (snd (record_event dec s e))) fid = Some (concat (map (fill_segments g (own_packets dec fid [e])) [0..<2095]))
     \<and> segs_ok (fill_segments g (own_packets dec fid [e]))"
proof (cases "Option.bind e (placed dec)")
  case None
  then have "rc_frames (snd (record_event dec s e)) = rc_frames s" "own_packets dec fid [e] = []"
    by (cases e; simp add: record_event_def record_write_frames record_packet_frames own_packets_def)+
  then show ?thesis using assms(5,6) by (simp add: fill_segments_def del: upt_rec_numeral)
next
  case (Some hp)
  obtain h plain d where d: "hp = (h, plain)" "e = Some d" "placed dec d = Some (h, plain)"
    using Some by (cases hp; cases e) auto
  have f: "rc_frames (snd (record_event dec s e)) = rc_frames (snd (record_place s h plain))"
    using d by (simp add: record_event_def record_packet_frames)
  have u: "uniform_count dec 2095 d" using assms(3) d(2) by (simp add: uniform_event_def)
  note ok = placed_ok [OF assms(1) u d(3)]
  show ?thesis
  proof (cases "frame_id h = fid")
    case True
    have "nat (segment_id h) * PAYLOAD < REAL_BYTES" using ok(2,3) by (simp add: tool_consts)
    from record_place_pending [OF assms(5) True this] put_segment_segments [OF assms(6) ok(2-4)] True d f show ?thesis
      by (simp add: own_packets_def fill_segments_def del: upt_rec_numeral)
  next
    case False
    have "distinct (map fst (rc_frames s))" using assms(2) by (simp add: record_inv_def rasters_inv_def)
    from record_place_other [OF this _ False] assms(4-6) False d f show ?thesis
      by (simp add: MAX_ACTIVE_def own_packets_def fill_segments_def del: upt_rec_numeral)
  qed
qed

lemma own_packets_Cons: "own_packets dec fid (e # es) = own_packets dec fid [e] @ own_packets dec fid es"
  by (cases e) (simp_all add: own_packets_def)

lemma known_ids_Cons: "known_ids dec s [e] \<subseteq> known_ids dec s (e # es)"
  by (cases e) (auto simp: known_ids_def)

lemma card_newer_mono: "card {k \<in> B. fid < k} < (m :: nat) \<Longrightarrow> A \<subseteq> B \<Longrightarrow> finite B \<Longrightarrow> card {k \<in> A. (fid :: int) < k} < m"
  by (rule le_less_trans [OF card_mono]) auto

text \<open>The events of a recording from a state that has the frame, and from any state.\<close>

lemma record_events_frame:
  assumes "dec_lengths dec" and "finite K" and "card {k \<in> K. fid < k} < 8"
    and "record_inv 2095 s" and "list_all (uniform_event dec) es" and "known_ids dec s es \<subseteq> K"
    and "map_of (rc_frames s) fid = Some (concat (map g [0..<2095]))" and "segs_ok g"
  shows "\<exists>s'. loop_r (record_event dec) s es = (Inr (), s') \<and> record_inv 2095 s' \<and> fst ` set (rc_frames s') \<subseteq> K \<and>
     map_of (rc_frames s') fid = Some (concat (map (fill_segments g (own_packets dec fid es)) [0..<2095]))"
  using assms(4-)
proof (induction es arbitrary: s g)
  case Nil
  then show ?case by (simp add: own_packets_def fill_segments_def known_ids_def del: upt_rec_numeral)
next
  case (Cons e es)
  have u: "uniform_event dec e" "list_all (uniform_event dec) es"
    using Cons.prems(2) by simp_all
  obtain s1 where s1: "record_event dec s e = (Inr (), s1)" "record_inv 2095 s1" "fst ` set (rc_frames s1) \<subseteq> K"
    using record_event_ok [OF assms(1) Cons.prems(1) u(1) order_trans [OF known_ids_Cons Cons.prems(3)]] by blast
  have "fst ` set (rc_frames s) \<subseteq> K" using Cons.prems(3) by (simp add: known_ids_def)
  note c = card_newer_mono [OF assms(3) this assms(2)]
  note f = record_event_frame [OF assms(1) Cons.prems(1) u(1) c Cons.prems(4,5), unfolded s1(1) snd_conv]
  have "known_ids dec s1 es \<subseteq> K" using s1(3) Cons.prems(3) by (cases e) (auto simp: known_ids_def)
  from Cons.IH [OF s1(2) u(2) this f [THEN conjunct1] f [THEN conjunct2]] show ?case
    using s1(1) own_packets_Cons [of dec fid e es]
    by (simp add: fill_segments_def del: upt_rec_numeral)
qed

lemma first_own_packet:
  assumes "dec_lengths dec" and "record_inv 2095 s" and "uniform_event dec e"
    and "Option.bind e (placed dec) = Some (h, plain)" and "frame_id h = fid"
  shows "\<exists>g. map_of (rc_frames (snd (record_event dec s e))) fid = Some (concat (map (fill_segments g [(h, plain)]) [0..<2095])) \<and>
     segs_ok (fill_segments g [(h, plain)])"
proof -
  obtain d where d: "e = Some d" "placed dec d = Some (h, plain)" using assms(4) by (cases e) auto
  have u: "uniform_count dec 2095 d" using assms(3) d(1) by (simp add: uniform_event_def)
  note ok = placed_ok [OF assms(1) u d(2)]
  let ?s = "record_slot s fid 2095"
  have slot: "record_inv 2095 ?s" "\<exists>b. map_of (rc_frames ?s) fid = Some b"
    using record_slot_inv [OF assms(2), of fid] by simp_all
  then obtain b where b: "map_of (rc_frames ?s) fid = Some b" by blast
  then have "raster_ok b" using slot(1) rasters_get by (auto simp: record_inv_def)
  then obtain g where g: "segs_ok g" "b = concat (map g [0..<2095])" using raster_segments by blast
  have "record_slot ?s fid 2095 = ?s" using dict_get_in [OF b] by (simp add: record_slot_def)
  then have "record_place ?s h plain = record_place s h plain" using assms(5) ok(1) by (simp add: record_place_def)
  moreover have "nat (segment_id h) * PAYLOAD < REAL_BYTES" using ok(2,3) by (simp add: tool_consts)
  ultimately have "map_of (rc_frames (snd (record_event dec s e))) fid = Some (put_segment b (segment_id h) plain)"
    using record_place_pending [OF b assms(5), of plain] d by (simp add: record_event_def record_packet_frames)
  then show ?thesis using put_segment_segments [OF g(1) ok(2-4)] g(2)
    by (intro exI [of _ g]) (simp add: fill_segments_def del: upt_rec_numeral)
qed

lemma record_events_any:
  assumes "dec_lengths dec" and "finite K" and "card {k \<in> K. fid < k} < 8"
    and "record_inv 2095 s" and "list_all (uniform_event dec) es" and "known_ids dec s es \<subseteq> K"
  shows "\<exists>s' g. loop_r (record_event dec) s es = (Inr (), s') \<and> record_inv 2095 s' \<and> fst ` set (rc_frames s') \<subseteq> K \<and>
     (own_packets dec fid es \<noteq> [] \<longrightarrow>
        map_of (rc_frames s') fid = Some (concat (map (fill_segments g (own_packets dec fid es)) [0..<2095])))"
  using assms(4-)
proof (induction es arbitrary: s)
  case Nil
  then show ?case by (simp add: own_packets_def known_ids_def del: upt_rec_numeral)
next
  case (Cons e es)
  have u: "uniform_event dec e" "list_all (uniform_event dec) es"
    using Cons.prems(2) by simp_all
  obtain s1 where s1: "record_event dec s e = (Inr (), s1)" "record_inv 2095 s1" "fst ` set (rc_frames s1) \<subseteq> K"
    using record_event_ok [OF assms(1) Cons.prems(1) u(1) order_trans [OF known_ids_Cons Cons.prems(3)]] by blast
  have K: "known_ids dec s1 es \<subseteq> K" using s1(3) Cons.prems(3) by (cases e) (auto simp: known_ids_def)
  show ?case
  proof (cases "own_packets dec fid [e] = []")
    case True
    with Cons.IH [OF s1(2) u(2) K] s1(1) own_packets_Cons [of dec fid e es] show ?thesis by simp
  next
    case False
    then obtain h plain where e: "Option.bind e (placed dec) = Some (h, plain)" "own_packets dec fid [e] = [(h, plain)]" "frame_id h = fid"
      by (cases e) (auto simp: own_packets_def split: option.splits if_splits)
    obtain g where "map_of (rc_frames s1) fid = Some (concat (map (fill_segments g [(h, plain)]) [0..<2095]))"
      "segs_ok (fill_segments g [(h, plain)])"
      using first_own_packet [OF assms(1) Cons.prems(1) u(1) e(1,3)] s1(1) by auto
    from record_events_frame [OF assms(1-3) s1(2) u(2) K this] obtain s' where s': "loop_r (record_event dec) s1 es = (Inr (), s')"
      "record_inv 2095 s'" "fst ` set (rc_frames s') \<subseteq> K" "map_of (rc_frames s') fid =
        Some (concat (map (fill_segments (fill_segments g [(h, plain)]) (own_packets dec fid es)) [0..<2095]))" by blast
    have "fill_segments (fill_segments g [(h, plain)]) (own_packets dec fid es) = fill_segments g (own_packets dec fid (e # es))"
      using e(2) own_packets_Cons [of dec fid e es] by (simp add: fill_segments_def)
    with s' s1(1) show ?thesis by (intro exI [of _ s'] exI [of _ g]) (simp del: upt_rec_numeral)
  qed
qed

lemma newest_frame_max: "k \<in> fst ` set fs \<Longrightarrow> k \<le> newest_frame fs"
proof -
  have "k \<le> foldr max ks x" if "k = x \<or> k \<in> set ks" for ks and x k :: int
    using that by (induction ks) auto
  then show "k \<in> fst ` set fs \<Longrightarrow> k \<le> newest_frame fs" by (cases fs) (auto simp: newest_frame_def)
qed

text \<open>
  C37. The recorder between two writes and across them: any datagrams and writes in any order, starting from any state, where the packets
  it accepts have the segment count 2095. If fewer than eight of the frames it has or is given are newer than a frame, and all segments of
  that frame are among the datagrams, in any order, with repeats and between packets of other frames, then nothing
  raises and the raster kept for the frame is that frame byte for byte, whatever picture it started from. If no
  frame is newer, the next write hands exactly its pixels to the video file.
\<close>

theorem record_complete_picture:
  assumes "dec_lengths dec" and "record_inv 2095 s" and "list_all (uniform_event dec) es"
    and "card {k \<in> known_ids dec s es. fid < k} < 8"
    and "set (map (\<lambda>(h, p). nat (segment_id h)) (own_packets dec fid es)) = {0..<2095}"
    and "list_all (\<lambda>(h, p). slice HEADER (HEADER + PAYLOAD) p = pay (nat (segment_id h))) (own_packets dec fid es)"
  shows "\<exists>s'. loop_r (record_event dec) s es = (Inr (), s') \<and> map_of (rc_frames s') fid = Some (concat (map pay [0..<2095])) \<and>
     ({k \<in> known_ids dec s es. fid < k} = {} \<longrightarrow> (\<exists>s''. record_write s' = (Inr (), s'') \<and>
        rc_written s'' = rc_written s' @ [take REAL_BYTES (concat (map pay [0..<2095]))]))"
proof -
  have "finite (known_ids dec s es)" by (simp add: known_ids_def)
  then obtain s' g where s': "loop_r (record_event dec) s es = (Inr (), s')" "record_inv 2095 s'" "fst ` set (rc_frames s') \<subseteq> known_ids dec s es"
    and m: "own_packets dec fid es \<noteq> [] \<longrightarrow>
        map_of (rc_frames s') fid = Some (concat (map (fill_segments g (own_packets dec fid es)) [0..<2095]))"
    using record_events_any [OF assms(1) _ assms(4,2,3)] by blast
  have "own_packets dec fid es \<noteq> []" using assms(5) by auto
  moreover have "map (fill_segments g (own_packets dec fid es)) [0..<2095] = map pay [0..<2095]"
    using fill_segments_consistent [of pay "own_packets dec fid es"] assms(5,6)
    by (intro map_cong refl) (simp add: segment_bytes_def del: upt_rec_numeral)
  ultimately have f: "map_of (rc_frames s') fid = Some (concat (map pay [0..<2095]))" using m by argo
  have new: "newest_frame (rc_frames s') = fid" if "{k \<in> known_ids dec s es. fid < k} = {}"
    using newest_frame_max [OF dict_get_in [OF f]] newest_frame_in [of "rc_frames s'"] dict_get_in [OF f] s'(3) that by fastforce
  obtain s'' where w: "record_write s' = (Inr (), s'')" using record_write_inv [OF s'(2)] by auto
  have "rc_frames s' \<noteq> []" using f by (metis map_of.simps(1) option.distinct(1))
  then have "rc_written s'' = rc_written s' @ [take REAL_BYTES (concat (map pay [0..<2095]))]" if "newest_frame (rc_frames s') = fid"
    using w f that by (auto simp: record_write_def Let_def to_picture_def simp del: upt_rec_numeral
        split: option.splits if_splits sum.splits)
  with s'(1) f w new show ?thesis by blast
qed

text \<open>Slots of a cipher that only appends a tag: the counter, the header, a black segment, the tag and the padding.\<close>

definition null_dec :: "bytes \<Rightarrow> bytes \<Rightarrow> bytes result" where
  "null_dec n c = (if 16 \<le> length c then Inr (take (length c - 16) c) else Inl ValueError)"

definition demo_live_header :: "int \<Rightarrow> nat \<Rightarrow> packet_header" where
  "demo_live_header fid i = default_header\<lparr>session_id := 1, stream_id := 1, frame_id := fid, segment_count := 2095, segment_id := int i,
     payload_length := 1320, nonce_counter := fid * 2095 + int i\<rparr>"

definition demo_live_plain :: "int \<Rightarrow> nat \<Rightarrow> bytes" where
  "demo_live_plain fid i = (case pack_header (demo_live_header fid i) of Inl _ \<Rightarrow> [] | Inr hb \<Rightarrow> hb) @ replicate 1320 0"

definition demo_live_slot :: "int \<Rightarrow> nat \<Rightarrow> bytes" where
  "demo_live_slot fid i = be_bytes 8 (fid * 2095 + int i) @ demo_live_plain fid i @ replicate 40 0"

lemma null_dec_lengths: "dec_lengths null_dec"
  by (simp add: dec_lengths_def null_dec_def)

lemma demo_live_placed:
  assumes "0 \<le> fid" and "fid < 100" and "i < 2095"
  shows "placed null_dec (demo_live_slot fid i) = Some (demo_live_header fid i, demo_live_plain fid i)"
    and "uniform_count null_dec 2095 (demo_live_slot fid i)" and "slice HEADER (HEADER + PAYLOAD) (demo_live_plain fid i) = replicate 1320 0"
proof -
  let ?c = "fid * 2095 + int i"
  have "header_fits (demo_live_header fid i)"
    using assms by (simp add: header_fits_def demo_live_header_def default_header_def MAGIC_def VERSION_def)
  then obtain hb where hb: "pack_header (demo_live_header fid i) = Inr hb" using pack_header_fits by blast
  have len: "length hb = 40" using pack_header_length [OF hb] by (simp add: HEADER_SIZE_BYTES_def)
  have plain: "demo_live_plain fid i = hb @ replicate 1320 0" by (simp add: demo_live_plain_def hb)
  have c: "slot_counter (demo_live_slot fid i) = ?c" using assms by (simp add: slot_counter_def demo_live_slot_def from_be_bytes_id)
  have d: "slot_decrypt null_dec (demo_live_slot fid i) = Inr (demo_live_plain fid i)"
    using assms len unfolding slot_decrypt_def c
    by (simp add: to_bytes_be_def null_dec_def demo_live_slot_def plain slice_def tool_consts)
  have h: "hdr_unpack_from (demo_live_plain fid i) = Inr (demo_live_header fid i)"
    using len unpack_pack_append [OF hb] by (simp add: hdr_unpack_from_def plain HEADER_def)
  have b: "\<not> record_bad_header (demo_live_header fid i) ?c"
    using assms by (simp add: record_bad_header_def demo_live_header_def default_header_def MAGIC_def VERSION_def PAYLOAD_def)
  show "placed null_dec (demo_live_slot fid i) = Some (demo_live_header fid i, demo_live_plain fid i)"
    using len by (simp add: placed_def d h c b) (simp add: demo_live_slot_def plain SLOT_def)
  show "uniform_count null_dec 2095 (demo_live_slot fid i)" by (simp add: uniform_count_def d h demo_live_header_def)
  show "slice HEADER (HEADER + PAYLOAD) (demo_live_plain fid i) = replicate 1320 0" using len by (simp add: plain slice_def tool_consts)
qed

text \<open>A packet of frame 4, a write, and frame 5 from its last segment to its first.\<close>

definition demo_events :: "bytes option list" where
  "demo_events = Some (demo_live_slot 4 7) # None # map (\<lambda>i. Some (demo_live_slot 5 i)) (rev [0..<2095])"

lemma demo_events_packets:
  "packets null_dec demo_events = (demo_live_header 4 7, demo_live_plain 4 7) # map (\<lambda>i. (demo_live_header 5 i, demo_live_plain 5 i)) (rev [0..<2095])"
proof -
  have "packets null_dec (map (\<lambda>i. Some (demo_live_slot 5 i)) is) = map (\<lambda>i. (demo_live_header 5 i, demo_live_plain 5 i)) is"
    if "\<forall>i \<in> set is. i < 2095" for "is" using that demo_live_placed(1) [of 5] by (induction "is") simp_all
  from this [of "rev [0..<2095]"] show ?thesis using demo_live_placed(1) [of 4 7] by (simp add: demo_events_def del: upt_rec_numeral)
qed

theorem record_complete_picture_witness:
  "\<exists>s' s''. loop_r (record_event null_dec) record_init demo_events = (Inr (), s') \<and> record_write s' = (Inr (), s'') \<and>
     rc_written s'' = rc_written s' @ [take REAL_BYTES (concat (map (\<lambda>i. replicate 1320 0) [0..<2095]))]"
proof -
  have own: "own_packets null_dec 5 demo_events = map (\<lambda>i. (demo_live_header 5 i, demo_live_plain 5 i)) (rev [0..<2095])"
    unfolding own_packets_def demo_events_packets by (simp add: demo_live_header_def filter_map o_def del: upt_rec_numeral)
  have ids: "{k \<in> known_ids null_dec record_init demo_events. 5 < k} = {}"
    unfolding known_ids_def demo_events_packets by (auto simp: record_init_def demo_live_header_def simp del: upt_rec_numeral)
  have 1: "record_inv 2095 record_init" by (simp add: record_inv_def record_init_def rasters_inv_def raster_init)
  have 2: "list_all (uniform_event null_dec) demo_events"
    using demo_live_placed(2) by (auto simp: demo_events_def list_all_iff uniform_event_def simp del: upt_rec_numeral)
  have 3: "set (map (\<lambda>(h, p). nat (segment_id h)) (own_packets null_dec 5 demo_events)) = {0..<2095}"
    by (simp add: own image_image demo_live_header_def del: upt_rec_numeral)
  have 4: "list_all (\<lambda>(h, p). slice HEADER (HEADER + PAYLOAD) p = replicate 1320 0) (own_packets null_dec 5 demo_events)"
    using demo_live_placed(3) by (auto simp: own list_all_iff simp del: upt_rec_numeral)
  have 5: "card {k \<in> known_ids null_dec record_init demo_events. 5 < k} < 8" unfolding ids by simp
  from record_complete_picture [where pay = "\<lambda>i. replicate 1320 0", OF null_dec_lengths 1 2 5 3 4] ids show ?thesis by blast
qed

end
