(* ===== verification/Live_Programs.thy ===== *)
theory Live_Programs
  imports Rx_Live Board_Import Complex_Main
begin

text \<open>
  The recorder and the live display as programs: the rest of \<^verbatim>\<open>pc/runtime/rx_record.py\<close> and \<^verbatim>\<open>pc/runtime/rx_display.py\<close> around
  the loops of \<open>Rx_Live\<close>. The command line, the choice of the video writer, the clock that ends the loop and
  paces writing and drawing, the lines printed on the way and the final report. Times are rational numbers; a turn of the loop is given with the clock
  readings it makes and with what the window answers. The sums the programs print are exact here.

  The lemmas show that the recorder never writes more than thirty frames a second and one, that its report is a
  percentage and its lines are five seconds apart, that the display draws at most sixty times a second, and which command lines raise.
\<close>

section \<open>Command lines\<close>

text \<open>\<^verbatim>\<open>float(s)\<close> on text that has only digits and points.\<close>

definition float_digits :: "string \<Rightarrow> rat result" where
  "float_digits s =
     (let point = CHR ''.''; whole = takeWhile (\<lambda>c. c \<noteq> point) s; rest = dropWhile (\<lambda>c. c \<noteq> point) s
      in if rest = [] then Inr (of_int (decimal whole))
         else if point \<in> set (tl rest) then Inl ValueError
         else Inr (of_int (decimal (whole @ tl rest)) / 10 ^ length (tl rest)))"

definition py_isdigit :: "string \<Rightarrow> bool" where
  "py_isdigit s \<longleftrightarrow> s \<noteq> [] \<and> list_all is_digit s"

text \<open>A first argument that is digits and points is the duration.\<close>

definition live_duration :: "rat \<Rightarrow> string list \<Rightarrow> (rat \<times> string list) result" where
  "live_duration dflt argv =
     (case argv of
        [] \<Rightarrow> Inr (dflt, [])
      | a # rest \<Rightarrow> if py_isdigit (filter (\<lambda>c. c \<noteq> CHR ''.'') a)
                    then bind_r (float_digits a) (\<lambda>d. Inr (d, rest)) else Inr (dflt, argv))"

text \<open>\<^verbatim>\<open>argv[argv.index("--port") + 1]\<close>.\<close>

definition live_port :: "string list \<Rightarrow> int result" where
  "live_port argv =
     (case dropWhile (\<lambda>a. a \<noteq> ''--port'') argv of
        [] \<Rightarrow> Inr 5600
      | [_] \<Rightarrow> Inl IndexError
      | _ # p # _ \<Rightarrow> py_int p)"

section \<open>rx_record.py\<close>

text \<open>\<^verbatim>\<open>Path.with_suffix\<close>: the last part from its last point on, unless that is its first or last character.\<close>

definition path_suffix_at :: "string \<Rightarrow> nat" where
  "path_suffix_at name =
     (let k = length (takeWhile (\<lambda>c. c \<noteq> CHR ''.'') (rev name)); i = length name - 1 - k
      in if CHR ''.'' \<in> set name \<and> 0 < i \<and> i < length name - 1 then i else length name)"

definition with_suffix :: "posix_path \<Rightarrow> string \<Rightarrow> posix_path result" where
  "with_suffix p suf =
     (if pp_parts p = [] then Inl ValueError
      else Inr (p\<lparr>pp_parts := butlast (pp_parts p) @ [take (path_suffix_at (path_name p)) (path_name p) @ suf]\<rparr>))"

text \<open>OpenCV's answer: does a writer with this codec open this file.\<close>

type_synonym video_writers = "string \<Rightarrow> string \<Rightarrow> bool"

definition open_writer :: "video_writers \<Rightarrow> posix_path \<Rightarrow> (string option \<times> posix_path) result" where
  "open_writer opens path =
     (if opens ''mp4v'' (path_str path) then Inr (Some ''mp4v'', path)
      else bind_r (with_suffix path ''.avi'') (\<lambda>path'.
             Inr (if opens ''MJPG'' (path_str path') then Some ''MJPG'' else None, path')))"

definition FPS :: rat where "FPS = 30"

text \<open>A turn: the clock at the loop's test, the datagrams that have arrived, and the clock after draining.\<close>

record record_tick =
  tk_check :: rat
  tk_arrived :: "bytes list"
  tk_now :: rat

definition mean_completeness :: "(int \<times> int) list \<Rightarrow> rat" where
  "mean_completeness cs =
     (if cs = [] then 0 else 100 * sum_list (map (\<lambda>(seen, total). of_int seen / of_int total) cs) / of_nat (length cs))"

text \<open>
  The line printed every five seconds, given the time since the start, which is a divisor in it; the state is the
  time of the last line and the lines printed so far.
\<close>

definition progress_due :: "rat \<Rightarrow> rat \<Rightarrow> (rat \<Rightarrow> 'l) \<Rightarrow> rat \<times> 'l list \<Rightarrow> (rat \<times> 'l list) result" where
  "progress_due start now line rep =
     (case rep of (last_report, printed) \<Rightarrow>
        if now - last_report \<ge> 5
        then let el = now - start in if el = 0 then Inl ZeroDivisionError else Inr (now, printed @ [line el])
        else Inr (last_report, printed))"

record record_line =
  rl_elapsed :: rat
  rl_packets :: int
  rl_rate :: rat
  rl_auth_bad :: int
  rl_malformed :: int
  rl_written :: int
  rl_completeness :: rat

definition record_line_of :: "recorder \<Rightarrow> rat \<Rightarrow> record_line" where
  "record_line_of s el =
     \<lparr>rl_elapsed = el, rl_packets = rc_packets s, rl_rate = of_int (rc_packets s) / el, rl_auth_bad = rc_auth_bad s,
      rl_malformed = rc_malformed s, rl_written = int (length (rc_written s)),
      rl_completeness = mean_completeness (rc_completeness s)\<rparr>"

text \<open>The loop until the time is over; \<open>None\<close> is a list of turns that ends before that.\<close>

fun record_loop :: "(bytes \<Rightarrow> bytes \<Rightarrow> bytes result) \<Rightarrow> rat \<Rightarrow> rat \<Rightarrow> recorder \<times> bytes list \<Rightarrow> rat \<Rightarrow>
    rat \<times> record_line list \<Rightarrow> record_tick list \<Rightarrow> unit result option \<times> recorder \<times> record_line list" where
  "record_loop dec start duration sq next_write rep [] = (None, fst sq, snd rep)"
| "record_loop dec start duration sq next_write rep (t # ts) =
     (if tk_check t - start < duration
      then let due = tk_now t \<ge> next_write
           in case record_turn dec sq (tk_arrived t, due) of
                (Inl e, sq') \<Rightarrow> (Some (Inl e), fst sq', snd rep)
              | (Inr _, sq') \<Rightarrow>
                  (case progress_due start (tk_now t) (record_line_of (fst sq')) rep of
                     Inl e \<Rightarrow> (Some (Inl e), fst sq', snd rep)
                   | Inr rep' \<Rightarrow>
                       record_loop dec start duration sq' (if due then next_write + 1 / FPS else next_write) rep' ts)
      else (Some (Inr ()), fst sq, snd rep))"

record record_report =
  rp_path :: posix_path
  rp_written :: int
  rp_packets :: int
  rp_auth_bad :: int
  rp_malformed :: int
  rp_completeness :: rat
  rp_progress :: "record_line list"

definition record_report_of :: "posix_path \<Rightarrow> recorder \<Rightarrow> record_line list \<Rightarrow> record_report" where
  "record_report_of path s printed =
     \<lparr>rp_path = path, rp_written = int (length (rc_written s)), rp_packets = rc_packets s,
      rp_auth_bad = rc_auth_bad s, rp_malformed = rc_malformed s,
      rp_completeness = mean_completeness (rc_completeness s), rp_progress = printed\<rparr>"

text \<open>
  What the program finds outside: the directory for recordings and whether it can be made, the time stamp, the video
  writers, whether the port can be bound, and the first reading of the clock.
\<close>

record record_world =
  rw_out_dir :: posix_path
  rw_mkdir :: "unit result"
  rw_stamp :: string
  rw_writers :: video_writers
  rw_bind :: "unit result"
  rw_start :: rat

definition record_main :: "(bytes \<Rightarrow> bytes \<Rightarrow> bytes result) \<Rightarrow> record_world \<Rightarrow> string list \<Rightarrow> record_tick list \<Rightarrow>
    (int \<times> record_report option) result option" where
  "record_main dec w argv ticks =
     (case bind_r (live_duration 60 argv) (\<lambda>(duration, rest).
           bind_r (rw_mkdir w) (\<lambda>_.
           bind_r (open_writer (rw_writers w)
             (case rest of [] \<Rightarrow> path_join (rw_out_dir w) (path_of (''osv_720p30_'' @ rw_stamp w @ ''.mp4''))
                         | a # _ \<Rightarrow> path_of a)) (\<lambda>(writer, path). Inr (duration, writer, path)))) of
        Inl e \<Rightarrow> Some (Inl e)
      | Inr (duration, None, path) \<Rightarrow> Some (Inr (1, None))
      | Inr (duration, Some codec, path) \<Rightarrow>
          (case rw_bind w of
             Inl e \<Rightarrow> Some (Inl e)
           | Inr _ \<Rightarrow>
               (case record_loop dec (rw_start w) duration (record_init, []) (rw_start w) (rw_start w, []) ticks of
                  (None, _) \<Rightarrow> None
                | (Some (Inl e), _) \<Rightarrow> Some (Inl e)
                | (Some (Inr _), s, printed) \<Rightarrow> Some (Inr (0, Some (record_report_of path s printed))))))"

section \<open>rx_display.py\<close>

record display_tick =
  dt_check :: rat
  dt_arrived :: "bytes list"
  dt_now :: rat
  dt_key :: int
  dt_visible :: "rat result"

record view_line =
  vl_elapsed :: rat
  vl_packets :: int
  vl_rate :: rat
  vl_auth_bad :: int
  vl_bad_header :: int
  vl_draws :: int
  vl_draw_rate :: rat

definition view_line_of :: "displayer \<Rightarrow> rat \<Rightarrow> view_line" where
  "view_line_of s el =
     \<lparr>vl_elapsed = el, vl_packets = dp_packets s, vl_rate = of_int (dp_packets s) / el, vl_auth_bad = dp_auth_bad s,
      vl_bad_header = dp_bad s, vl_draws = int (length (dp_shown s)), vl_draw_rate = of_nat (length (dp_shown s)) / el\<rparr>"

record live_view =
  lv_display :: displayer
  lv_queue :: "bytes list"
  lv_last_draw :: rat
  lv_last_save :: rat
  lv_saved :: "bytes list"
  lv_report :: "rat \<times> view_line list"

text \<open>The drawing part of a turn: a picture that was drawn is also saved every five seconds.\<close>

definition view_draw :: "rat \<Rightarrow> live_view \<Rightarrow> unit result \<times> live_view" where
  "view_draw now v =
     (if now - lv_last_draw v \<ge> 1 / 60
      then case display_draw (lv_display v) of
             (Inl e, s) \<Rightarrow> (Inl e, v\<lparr>lv_display := s\<rparr>)
           | (Inr _, s) \<Rightarrow>
               let drew = length (dp_shown s) > length (dp_shown (lv_display v));
                   v1 = v\<lparr>lv_display := s, lv_last_draw := now\<rparr>
               in (Inr (), if drew \<and> now - lv_last_save v \<ge> 5
                           then v1\<lparr>lv_last_save := now, lv_saved := lv_saved v1 @ [last (dp_shown s)]\<rparr> else v1)
      else (Inr (), v))"

text \<open>The window's key, or its cross, or an error of the library ends the program.\<close>

definition view_quits :: "display_tick \<Rightarrow> bool" where
  "view_quits t \<longleftrightarrow> dt_key t mod 256 \<in> {27, 113} \<or> (case dt_visible t of Inl _ \<Rightarrow> True | Inr p \<Rightarrow> p < 1)"

definition view_turn :: "(bytes \<Rightarrow> bytes \<Rightarrow> bytes result) \<Rightarrow> live_view \<Rightarrow> display_tick \<Rightarrow> unit result \<times> live_view" where
  "view_turn dec v t =
     (let q = lv_queue v @ dt_arrived t
      in case display_drain dec (lv_display v) (take 500 q) of
           (Inl e, s) \<Rightarrow> (Inl e, v\<lparr>lv_display := s\<rparr>)
         | (Inr _, s) \<Rightarrow> view_draw (dt_now t) (v\<lparr>lv_display := s, lv_queue := drop 500 q\<rparr>))"

fun view_loop :: "(bytes \<Rightarrow> bytes \<Rightarrow> bytes result) \<Rightarrow> rat \<Rightarrow> rat \<Rightarrow> live_view \<Rightarrow> display_tick list \<Rightarrow>
    unit result option \<times> live_view" where
  "view_loop dec start duration v [] = (None, v)"
| "view_loop dec start duration v (t # ts) =
     (if dt_check t - start < duration
      then case view_turn dec v t of
             (Inl e, v') \<Rightarrow> (Some (Inl e), v')
           | (Inr _, v') \<Rightarrow>
               if view_quits t then (Some (Inr ()), v')
               else case progress_due start (dt_now t) (view_line_of (lv_display v')) (lv_report v') of
                      Inl e \<Rightarrow> (Some (Inl e), v')
                    | Inr rep \<Rightarrow> view_loop dec start duration (v'\<lparr>lv_report := rep\<rparr>) ts
      else (Some (Inr ()), v))"

definition view_init :: "rat \<Rightarrow> live_view" where
  "view_init start = \<lparr>lv_display = display_init, lv_queue = [], lv_last_draw = start, lv_last_save = start, lv_saved = [],
     lv_report = (start, [])\<rparr>"

text \<open>
  The final line divides by the time since the start, read once more: no time at all raises.
\<close>

definition display_main :: "(bytes \<Rightarrow> bytes \<Rightarrow> bytes result) \<Rightarrow> (int \<Rightarrow> unit result) \<Rightarrow> unit result \<Rightarrow> string list \<Rightarrow>
    rat \<Rightarrow> display_tick list \<Rightarrow> rat \<Rightarrow> (rat \<times> live_view) result option" where
  "display_main dec bind window argv start ticks stop =
     (case bind_r (live_duration 120 argv) (\<lambda>(duration, rest).
           bind_r (live_port rest) (\<lambda>port. bind_r (bind port) (\<lambda>_. bind_r window (\<lambda>_. Inr duration)))) of
        Inl e \<Rightarrow> Some (Inl e)
      | Inr duration \<Rightarrow>
          (case view_loop dec start duration (view_init start) ticks of
             (None, _) \<Rightarrow> None
           | (Some (Inl e), _) \<Rightarrow> Some (Inl e)
           | (Some (Inr _), v) \<Rightarrow>
               Some (if stop - start = 0 then Inl ZeroDivisionError
                     else Inr (of_int (dp_packets (lv_display v)) / (stop - start), v))))"

section \<open>The pace of the recorder\<close>

lemma record_place_output:
  "rc_written (snd (record_place s h plain)) = rc_written s \<and> rc_completeness (snd (record_place s h plain)) = rc_completeness s"
  by (auto simp: record_place_def record_slot_def Let_def split: option.splits)

lemma record_packet_output:
  "rc_written (snd (record_packet dec s d)) = rc_written s \<and> rc_completeness (snd (record_packet dec s d)) = rc_completeness s"
  using record_place_output by (auto simp: record_packet_def Let_def split: sum.splits)

lemma record_drain_output:
  "rc_written (snd (record_drain dec s ds)) = rc_written s \<and> rc_completeness (snd (record_drain dec s ds)) = rc_completeness s"
  unfolding record_drain_def
proof (induction ds arbitrary: s)
  case (Cons d ds)
  obtain r s1 where s1: "record_packet dec s d = (r, s1)" by (cases "record_packet dec s d")
  then show ?case using Cons record_packet_output [of dec s d] by (auto split: sum.splits)
qed simp

lemma record_write_output: "length (rc_written (snd (record_write s))) \<le> length (rc_written s) + 1"
  by (auto simp: record_write_def Let_def split: option.splits sum.splits)

lemma record_turn_output:
  "length (rc_written (fst (snd (record_turn dec sq (arrived, due))))) \<le> length (rc_written (fst sq)) + of_bool due"
proof -
  obtain s q where sq: "sq = (s, q)" by (cases sq)
  obtain r s1 where s1: "record_drain dec s (take 800 (q @ arrived)) = (r, s1)" by (cases "record_drain dec s (take 800 (q @ arrived))")
  have "rc_written s1 = rc_written s" using record_drain_output [of dec s "take 800 (q @ arrived)"] s1 by simp
  then show ?thesis
    using record_write_output [of s1] s1 by (auto simp: record_turn_def sq split: sum.splits prod.splits)
qed

lemma record_loop_pace:
  assumes "\<forall>t \<in> set ts. tk_now t \<le> T"
    and "of_nat (length (rc_written (fst sq))) \<le> FPS * (next_write - start)" "FPS * (next_write - start) \<le> FPS * (T - start) + 1"
  shows "of_nat (length (rc_written (fst (snd (record_loop dec start duration sq next_write rep ts))))) \<le> FPS * (T - start) + 1"
  using assms
proof (induction ts arbitrary: sq next_write rep)
  case Nil
  then show ?case by simp
next
  case (Cons t ts)
  let ?due = "tk_now t \<ge> next_write"
  let ?next = "if ?due then next_write + 1 / FPS else next_write"
  obtain r sq' where turn: "record_turn dec sq (tk_arrived t, ?due) = (r, sq')" by (cases "record_turn dec sq (tk_arrived t, ?due)")
  have "length (rc_written (fst sq')) \<le> length (rc_written (fst sq)) + of_bool ?due"
    using record_turn_output [of dec sq "tk_arrived t" ?due] turn by simp
  then have "(of_nat (length (rc_written (fst sq'))) :: rat) \<le> of_nat (length (rc_written (fst sq)) + of_bool ?due)"
    by (rule of_nat_mono)
  moreover have "FPS * (?next - start) = FPS * (next_write - start) + of_bool ?due" by (simp add: FPS_def)
  ultimately have w: "of_nat (length (rc_written (fst sq'))) \<le> FPS * (?next - start)" using Cons.prems(2) by simp
  have n: "FPS * (?next - start) \<le> FPS * (T - start) + 1" using Cons.prems(1,3) by (auto simp: FPS_def)
  show ?case
    using turn w n Cons.prems Cons.IH [of sq' ?next] by (auto simp: Let_def split: sum.splits)
qed

section \<open>The recorder's report\<close>

definition ratios_ok :: "nat \<Rightarrow> recorder \<Rightarrow> bool" where
  "ratios_ok n s \<longleftrightarrow> list_all (\<lambda>(seen, total). 0 \<le> seen \<and> seen \<le> total \<and> total = int n) (rc_completeness s)"

lemma record_write_ratios:
  assumes "record_inv n s" "ratios_ok n s"
  shows "ratios_ok n (snd (record_write s))"
proof -
  have "int (length (filter id l)) \<le> int n" if "map_of (rc_seen s) k = Some l" for k l
  proof -
    have "length l = n" using assms(1) map_of_SomeD [OF that] by (auto simp: record_inv_def list_all_iff)
    then show ?thesis using length_filter_le [of id l] by simp
  qed
  moreover have "c = int n" if "map_of (rc_seg_counts s) k = Some c" for k c
    using assms(1) map_of_SomeD [OF that] by (auto simp: record_inv_def list_all_iff)
  ultimately show ?thesis
    using assms(2) by (fastforce simp: ratios_ok_def record_write_def Let_def split: option.splits sum.splits)
qed

lemma record_turn_ok:
  assumes "dec_lengths dec" "0 < n" "record_inv n s" "ratios_ok n s"
    and "list_all (uniform_count dec n) q" "list_all (uniform_count dec n) arrived"
  shows "\<exists>s' q'. record_turn dec (s, q) (arrived, due) = (Inr (), s', q') \<and> record_inv n s' \<and> ratios_ok n s' \<and>
     list_all (uniform_count dec n) q'"
proof -
  have u: "list_all (uniform_count dec n) (take 800 (q @ arrived))" "list_all (uniform_count dec n) (drop 800 (q @ arrived))"
    using assms(5,6) by (auto simp: list_all_iff dest: in_set_takeD in_set_dropD)
  obtain s1 where s1: "record_drain dec s (take 800 (q @ arrived)) = (Inr (), s1)" "record_inv n s1"
    using rc.loop_total [of dec n s] assms(1,3) u(1) unfolding record_drain_def by blast
  have r: "ratios_ok n s1"
    using record_drain_output [of dec s "take 800 (q @ arrived)"] s1(1) assms(4) by (simp add: ratios_ok_def)
  obtain s2 where s2: "record_write s1 = (Inr (), s2)" "record_inv n s2" using record_write_inv [OF s1(2) assms(2)] by blast
  moreover have "ratios_ok n s2" using record_write_ratios [OF s1(2) r] s2(1) by simp
  ultimately show ?thesis using s1 r u by (cases due) (auto simp: record_turn_def)
qed

lemma mean_completeness_bounds:
  assumes "list_all (\<lambda>(seen, total). 0 \<le> seen \<and> seen \<le> total \<and> total = int n) cs" "0 < n"
  shows "0 \<le> mean_completeness cs" "mean_completeness cs \<le> 100"
proof -
  have sum: "0 \<le> sum_list (map (\<lambda>(a, b). of_int a / of_int b :: rat) cs) \<and>
      sum_list (map (\<lambda>(a, b). of_int a / of_int b :: rat) cs) \<le> of_nat (length cs)"
    using assms
  proof (induction cs)
    case (Cons c cs)
    obtain a b where c: "c = (a, b)" by (cases c)
    have "0 \<le> (of_int a / of_int b :: rat)" "(of_int a / of_int b :: rat) \<le> 1"
      using Cons.prems c by (auto simp: divide_le_eq)
    moreover have "list_all (\<lambda>(seen, total). 0 \<le> seen \<and> seen \<le> total \<and> total = int n) cs" using Cons.prems(1) by simp
    ultimately show ?case using Cons.IH [OF _ assms(2)] by (simp add: c add_mono)
  qed simp
  show "0 \<le> mean_completeness cs" using sum by (simp add: mean_completeness_def)
  show "mean_completeness cs \<le> 100"
    using sum by (auto simp: mean_completeness_def divide_le_eq)
qed

text \<open>
  The lines printed so far, with the time each one shows: no later than the last report, at least five seconds apart, the first at
  least five seconds after the start, and each a \<open>good\<close> one. A line always has a time to divide by.
\<close>

definition five_apart :: "('l \<Rightarrow> rat) \<Rightarrow> 'l list \<Rightarrow> bool" where
  "five_apart shown_at ls \<longleftrightarrow> sorted_wrt (\<lambda>a b. shown_at a + 5 \<le> shown_at b) ls"

definition progress_inv :: "('l \<Rightarrow> rat) \<Rightarrow> ('l \<Rightarrow> bool) \<Rightarrow> rat \<Rightarrow> rat \<times> 'l list \<Rightarrow> bool" where
  "progress_inv shown_at good start rep \<longleftrightarrow> 5 * of_nat (length (snd rep)) \<le> fst rep - start \<and>
     list_all (\<lambda>l. good l \<and> shown_at l \<le> fst rep - start) (snd rep) \<and> five_apart shown_at (snd rep)"

lemma progress_due_ok:
  assumes "progress_inv shown_at good start rep" "\<And>el. 5 \<le> el \<Longrightarrow> good (line el)" "\<And>el. shown_at (line el) = el" "fst rep \<le> T" "now \<le> T"
  shows "\<exists>rep'. progress_due start now line rep = Inr rep' \<and> progress_inv shown_at good start rep' \<and> fst rep' \<le> T"
proof (cases "now - fst rep \<ge> 5")
  case True
  have "0 \<le> 5 * (of_nat (length (snd rep)) :: rat)" by simp
  then have s: "start \<le> fst rep" using assms(1) unfolding progress_inv_def by linarith
  then have e: "5 \<le> now - start" using True by linarith
  then have d: "progress_due start now line rep = Inr (now, snd rep @ [line (now - start)])"
    using True by (cases rep) (simp add: progress_due_def)
  have old: "\<forall>l \<in> set (snd rep). good l \<and> shown_at l \<le> fst rep - start" using assms(1) by (simp add: progress_inv_def list_all_iff)
  have "5 * of_nat (length (snd rep @ [line (now - start)])) \<le> now - start" using assms(1) True by (simp add: progress_inv_def)
  moreover have "good l \<and> shown_at l \<le> now - start" if "l \<in> set (snd rep @ [line (now - start)])" for l
    using that old True assms(2) [OF e] assms(3) by fastforce
  moreover have "five_apart shown_at (snd rep @ [line (now - start)])"
    using assms(1,3) old True by (fastforce simp: progress_inv_def five_apart_def sorted_wrt_append)
  ultimately show ?thesis using d assms(5) by (simp add: progress_inv_def list_all_iff)
next
  case False
  then show ?thesis using assms by (cases rep) (auto simp: progress_due_def)
qed

definition line_ok :: "record_line \<Rightarrow> bool" where
  "line_ok l \<longleftrightarrow> 5 \<le> rl_elapsed l \<and> 0 \<le> rl_completeness l \<and> rl_completeness l \<le> 100"

lemma record_line_ok:
  assumes "ratios_ok n s" "0 < n" "5 \<le> el"
  shows "line_ok (record_line_of s el)"
  using mean_completeness_bounds [OF assms(1) [unfolded ratios_ok_def] assms(2)] assms(3)
  by (simp add: line_ok_def record_line_of_def)

lemma record_loop_ok:
  assumes "dec_lengths dec" "0 < n" "record_inv n s" "ratios_ok n s" "list_all (uniform_count dec n) q"
    and "\<forall>t \<in> set ts. list_all (uniform_count dec n) (tk_arrived t) \<and> tk_now t \<le> T"
    and "progress_inv rl_elapsed line_ok start rep" "fst rep \<le> T"
  shows "\<exists>r s' printed. record_loop dec start duration (s, q) next_write rep ts = (r, s', printed) \<and> ratios_ok n s' \<and>
     5 * of_nat (length printed) \<le> T - start \<and> list_all line_ok printed \<and> five_apart rl_elapsed printed \<and>
     (r = None \<or> r = Some (Inr ())) \<and> ((\<exists>t \<in> set ts. \<not> tk_check t - start < duration) \<longrightarrow> r \<noteq> None)"
  using assms(3-)
proof (induction ts arbitrary: s q next_write rep)
  case Nil
  then show ?case by (auto simp: progress_inv_def list_all_iff)
next
  case (Cons t ts)
  obtain s' q' where turn: "record_turn dec (s, q) (tk_arrived t, next_write \<le> tk_now t) = (Inr (), s', q')"
    "record_inv n s'" "ratios_ok n s'" "list_all (uniform_count dec n) q'"
    using record_turn_ok [OF assms(1,2) Cons.prems(1-3), of "tk_arrived t"] Cons.prems(4) by fastforce
  obtain rep' where rep': "progress_due start (tk_now t) (record_line_of s') rep = Inr rep'" "progress_inv rl_elapsed line_ok start rep'" "fst rep' \<le> T"
    using progress_due_ok [of rl_elapsed line_ok start rep "record_line_of s'" T "tk_now t"] record_line_ok [OF turn(3) assms(2)] Cons.prems(4-6)
    by (auto simp: record_line_of_def)
  show ?case
    using Cons.IH [OF turn(2-4) _ rep'(2,3), of "if next_write \<le> tk_now t then next_write + 1 / FPS else next_write"]
      turn(1,3) rep'(1) Cons.prems
    by (cases "tk_check t - start < duration") (auto simp: Let_def progress_inv_def list_all_iff)
qed

section \<open>The pace of the display\<close>

lemma display_place_shown: "dp_shown (snd (display_place s plain)) = dp_shown s"
  by (auto simp: display_place_def display_slot_def Let_def split: option.splits)

lemma display_packet_shown: "dp_shown (snd (display_packet dec s d)) = dp_shown s"
  using display_place_shown by (auto simp: display_packet_def Let_def split: sum.splits)

lemma display_drain_shown: "dp_shown (snd (display_drain dec s ds)) = dp_shown s"
  unfolding display_drain_def
proof (induction ds arbitrary: s)
  case (Cons d ds)
  obtain r s1 where "display_packet dec s d = (r, s1)" by (cases "display_packet dec s d")
  then show ?case using Cons display_packet_shown [of dec s d] by (auto split: sum.splits)
qed simp

definition view_pace :: "rat \<Rightarrow> live_view \<Rightarrow> bool" where
  "view_pace start v \<longleftrightarrow> display_inv (lv_display v) \<and>
     of_nat (length (dp_shown (lv_display v))) \<le> 60 * (lv_last_draw v - start) \<and>
     of_nat (length (lv_saved v)) \<le> (lv_last_save v - start) / 5 \<and>
     list_all (\<lambda>p. p \<in> set (dp_shown (lv_display v))) (lv_saved v) \<and>
     progress_inv vl_elapsed (\<lambda>l. 5 \<le> vl_elapsed l) start (lv_report v)"

definition view_by :: "rat \<Rightarrow> live_view \<Rightarrow> bool" where
  "view_by T v \<longleftrightarrow> lv_last_draw v \<le> T \<and> lv_last_save v \<le> T \<and> fst (lv_report v) \<le> T"

lemma view_turn_pace:
  assumes "dec_lengths dec" "view_pace start v" "dt_now t \<le> T" "view_by T v"
  shows "\<exists>v'. view_turn dec v t = (Inr (), v') \<and> view_pace start v' \<and> view_by T v'"
proof -
  let ?q = "lv_queue v @ dt_arrived t"
  obtain s where s: "display_drain dec (lv_display v) (take 500 ?q) = (Inr (), s)" "display_inv s"
    using display_drain_inv [OF assms(1)] assms(2) by (auto simp: view_pace_def)
  have shown: "dp_shown s = dp_shown (lv_display v)"
    using display_drain_shown [of dec "lv_display v" "take 500 ?q"] s(1) by simp
  obtain s2 where s2: "display_draw s = (Inr (), s2)" "display_inv s2" using display_draw_inv [OF s(2)] by blast
  obtain xs where xs: "dp_shown s2 = dp_shown s @ xs" "length xs \<le> 1"
    using s2(1) by (auto simp: display_draw_def Let_def split: option.splits sum.splits if_splits)
  have last: "xs \<noteq> [] \<Longrightarrow> last (dp_shown s2) \<in> set (dp_shown s2)" using xs(1) by simp
  have n: "(of_nat (length xs) :: rat) \<le> 1" using xs(2) by (cases xs) auto
  show ?thesis
  proof (cases "dt_now t - lv_last_draw v \<ge> 1 / 60")
    case True
    then have "of_nat (length (dp_shown s2)) \<le> 60 * (dt_now t - start)"
      using assms(2) n xs(1) shown by (simp add: view_pace_def)
    with True show ?thesis
      using assms s s2 xs shown last
      by (auto simp: view_turn_def view_draw_def view_pace_def view_by_def Let_def list_all_iff)
  next
    case False
    then show ?thesis using assms s shown by (simp add: view_turn_def view_draw_def view_pace_def view_by_def Let_def)
  qed
qed

lemma view_line_ok:
  assumes "view_pace start v" "view_by T v" "now \<le> T"
  shows "\<exists>rep. progress_due start now (view_line_of (lv_display v)) (lv_report v) = Inr rep \<and>
     view_pace start (v\<lparr>lv_report := rep\<rparr>) \<and> view_by T (v\<lparr>lv_report := rep\<rparr>)"
  using assms progress_due_ok [of vl_elapsed "\<lambda>l. 5 \<le> vl_elapsed l" start "lv_report v" "view_line_of (lv_display v)" T now]
  by (auto simp: view_pace_def view_by_def view_line_of_def)

lemma view_loop_pace:
  assumes "dec_lengths dec" "\<forall>t \<in> set ts. dt_now t \<le> T" "view_pace start v" "view_by T v"
  shows "\<exists>r v'. view_loop dec start duration v ts = (r, v') \<and> (r = None \<or> r = Some (Inr ())) \<and>
     ((\<exists>t \<in> set ts. \<not> dt_check t - start < duration \<or> view_quits t) \<longrightarrow> r \<noteq> None) \<and> view_pace start v' \<and> view_by T v'"
  using assms(2-)
proof (induction ts arbitrary: v)
  case Nil
  then show ?case by simp
next
  case (Cons t ts)
  have t: "dt_now t \<le> T" "\<forall>t \<in> set ts. dt_now t \<le> T" using Cons.prems(1) by auto
  obtain v' where v': "view_turn dec v t = (Inr (), v')" "view_pace start v'" "view_by T v'"
    using view_turn_pace [OF assms(1) Cons.prems(2) t(1) Cons.prems(3)] by blast
  obtain rep where rep: "progress_due start (dt_now t) (view_line_of (lv_display v')) (lv_report v') = Inr rep"
    "view_pace start (v'\<lparr>lv_report := rep\<rparr>)" "view_by T (v'\<lparr>lv_report := rep\<rparr>)"
    using view_line_ok [OF v'(2,3) t(1)] by blast
  show ?case
    using Cons.IH [OF t(2) rep(2,3)] Cons.prems v' rep(1) by auto
qed

text \<open>
  The live display. Whatever arrives, a run that is given its time or is quit ends, and without an exception when the
  clock has moved since the start. It has drawn at most sixty pictures for every second of the clock, saved and
  printed at most one picture and one line every five seconds, and every picture is complete.
\<close>

theorem display_main_pace:
  assumes "dec_lengths dec" and "\<forall>t \<in> set ticks. dt_now t \<le> T" and "start \<le> T" and "stop \<noteq> start"
    and "live_duration 120 argv = Inr (duration, rest)" and "live_port rest = Inr port" and "bind port = Inr ()"
    and "\<exists>t \<in> set ticks. duration \<le> dt_check t - start \<or> view_quits t"
  shows "\<exists>rate v. display_main dec bind (Inr ()) argv start ticks stop = Some (Inr (rate, v)) \<and>
     of_nat (length (dp_shown (lv_display v))) \<le> 60 * (T - start) \<and> of_nat (length (lv_saved v)) \<le> (T - start) / 5 \<and>
     of_nat (length (snd (lv_report v))) \<le> (T - start) / 5 \<and> list_all (\<lambda>p. length p = REAL_BYTES) (dp_shown (lv_display v))"
proof -
  have "view_pace start (view_init start)" "view_by T (view_init start)"
    using assms(3) by (simp_all add: view_pace_def view_init_def display_inv_def display_init_def rasters_inv_def
        raster_init progress_inv_def five_apart_def view_by_def)
  then obtain v where v: "view_loop dec start duration (view_init start) ticks = (Some (Inr ()), v)" "view_pace start v" "view_by T v"
    using view_loop_pace [OF assms(1,2), of start "view_init start" duration] assms(8) by (fastforce simp: not_less)
  then have "of_nat (length (snd (lv_report v))) \<le> (T - start) / 5" by (auto simp: view_pace_def progress_inv_def view_by_def)
  then show ?thesis
    using v assms(4-7) by (auto simp: display_main_def view_pace_def view_by_def display_inv_def)
qed

theorem display_main_pace_witness:
  "\<exists>rate v. display_main (\<lambda>n c. Inl ValueError) (\<lambda>_. Inr ()) (Inr ()) [''2'', ''--port'', ''5601''] 0
     [\<lparr>dt_check = 0, dt_arrived = [[1]], dt_now = 1, dt_key = 113, dt_visible = Inr 1\<rparr>] 1 = Some (Inr (rate, v)) \<and>
     of_nat (length (dp_shown (lv_display v))) \<le> (60 :: rat)"
proof -
  have "live_duration 120 [''2'', ''--port'', ''5601''] = Inr (2, [''--port'', ''5601''])"
    "live_port [''--port'', ''5601''] = Inr 5601" by code_simp+
  from display_main_pace [OF _ _ _ _ this, of "\<lambda>n c. Inl ValueError"
      "[\<lparr>dt_check = 0, dt_arrived = [[1]], dt_now = 1, dt_key = 113, dt_visible = Inr 1\<rparr>]" 1 0 1 "\<lambda>_. Inr ()"]
  show ?thesis by (auto simp: dec_lengths_def view_quits_def)
qed

section \<open>Errors of the command line\<close>

text \<open>The test for a duration lets more than one point through, and then the conversion raises.\<close>

lemma two_points_raise: "live_duration d [''1.2.3''] = Inl ValueError"
  by (simp add: live_duration_def py_isdigit_def is_digit_def float_digits_def Let_def)

lemma port_needs_value: "live_port [''--port''] = Inl IndexError"
  by (simp add: live_port_def)

text \<open>No video writer is exit status 1, and nothing is received.\<close>

lemma record_no_writer:
  assumes "live_duration 60 argv = Inr (duration, rest)" "rw_mkdir w = Inr ()" "\<And>codec p. \<not> rw_writers w codec p"
    and "open_writer (rw_writers w) (case rest of [] \<Rightarrow> path_join (rw_out_dir w) (path_of (''osv_720p30_'' @ rw_stamp w @ ''.mp4''))
           | a # _ \<Rightarrow> path_of a) = Inr wp"
  shows "record_main dec w argv ticks = Some (Inr (1, None))"
  using assms by (auto simp: record_main_def open_writer_def bind_r_eq_Inr)

section \<open>Properties\<close>

text \<open>
  C36. The recorder. With a video writer that opens, a free port and packets of one segment count, a recording that is
  given its time ends with exit status 0, and with \<open>T\<close> a bound on the readings of the clock: the number of written frames
  is at most thirty for every second since the start, and one; the mean completeness, in the final report and in
  every line printed on the way, is a percentage; the times of any two lines printed on the way are at least five
  seconds apart, the first is at least five seconds after the start, and no line divides by zero. Packets that do not authenticate or are malformed change nothing of this.
\<close>

theorem record_main_report:
  assumes "dec_lengths dec" and "0 < n" and "\<forall>t \<in> set ticks. list_all (uniform_count dec n) (tk_arrived t)"
    and "live_duration 60 argv = Inr (duration, rest)" and "rw_mkdir w = Inr ()" and "rw_bind w = Inr ()"
    and "open_writer (rw_writers w) (case rest of [] \<Rightarrow> path_join (rw_out_dir w) (path_of (''osv_720p30_'' @ rw_stamp w @ ''.mp4''))
           | a # _ \<Rightarrow> path_of a) = Inr (Some codec, path)"
    and "\<exists>t \<in> set ticks. duration \<le> tk_check t - rw_start w" and "rw_start w \<le> T" and "\<forall>t \<in> set ticks. tk_now t \<le> T"
  shows "\<exists>rep. record_main dec w argv ticks = Some (Inr (0, Some rep)) \<and> rp_path rep = path \<and>
     of_int (rp_written rep) \<le> 30 * (T - rw_start w) + 1 \<and> 0 \<le> rp_completeness rep \<and> rp_completeness rep \<le> 100 \<and>
     5 * of_nat (length (rp_progress rep)) \<le> T - rw_start w \<and> list_all line_ok (rp_progress rep) \<and>
     five_apart rl_elapsed (rp_progress rep)"
proof -
  have i: "record_inv n record_init" "ratios_ok n record_init"
    by (simp_all add: record_inv_def record_init_def rasters_inv_def raster_init ratios_ok_def)
  obtain s printed where s: "record_loop dec (rw_start w) duration (record_init, []) (rw_start w) (rw_start w, []) ticks =
      (Some (Inr ()), s, printed)" "ratios_ok n s" "5 * of_nat (length printed) \<le> T - rw_start w" "list_all line_ok printed"
      "five_apart rl_elapsed printed"
    using record_loop_ok [OF assms(1,2) i, of "[]" ticks T "rw_start w" "(rw_start w, [])" duration "rw_start w"] assms(3,8-)
    by (fastforce simp: not_less progress_inv_def five_apart_def)
  have "of_nat (length (rc_written s)) \<le> FPS * (T - rw_start w) + 1"
    using record_loop_pace [OF assms(10), of "(record_init, [])" "rw_start w" "rw_start w" dec duration "(rw_start w, [])"] s(1) assms(9)
    by (simp add: record_init_def FPS_def)
  then show ?thesis
    using s assms(4-7) mean_completeness_bounds [OF s(2) [unfolded ratios_ok_def] assms(2)]
    by (simp add: record_main_def record_report_of_def FPS_def)
qed

definition demo_world :: record_world where
  "demo_world = \<lparr>rw_out_dir = path_of ''/r'', rw_mkdir = Inr (), rw_stamp = ''x'', rw_writers = (\<lambda>codec _. codec = ''MJPG''),
     rw_bind = Inr (), rw_start = 7\<rparr>"

text \<open>A recording of twelve seconds that decrypts a packet of each of two frames, gets a short datagram and prints two lines.\<close>

definition demo_ticks :: "record_tick list" where
  "demo_ticks = [\<lparr>tk_check = 7, tk_arrived = [demo_live_slot 4 0, [1, 2, 3]], tk_now = 7\<rparr>,
     \<lparr>tk_check = 8, tk_arrived = [demo_live_slot 5 2094], tk_now = 13\<rparr>, \<lparr>tk_check = 14, tk_arrived = [], tk_now = 18\<rparr>,
     \<lparr>tk_check = 19, tk_arrived = [], tk_now = 19\<rparr>]"

lemma short_uniform: "uniform_count null_dec 2095 [1, 2, 3]"
  by (simp add: uniform_count_def slot_decrypt_def null_dec_def slice_def PREFIX_def bind_r_def split: sum.split)

theorem record_main_report_witness:
  "placed null_dec (demo_live_slot 4 0) = Some (demo_live_header 4 0, demo_live_plain 4 0) \<and>
   (\<exists>rep. record_main null_dec demo_world [''12'', ''a.b.mp4''] demo_ticks =
       Some (Inr (0, Some rep)) \<and> path_str (rp_path rep) = ''a.b.avi'' \<and> of_int (rp_written rep) \<le> (361 :: rat) \<and>
     0 \<le> rp_completeness rep \<and> rp_completeness rep \<le> 100 \<and> five_apart rl_elapsed (rp_progress rep))"
proof -
  have 1: "\<forall>t \<in> set demo_ticks. list_all (uniform_count null_dec 2095) (tk_arrived t)"
    using demo_live_placed(2) [of 4 0] demo_live_placed(2) [of 5 2094] short_uniform by (simp add: demo_ticks_def)
  have 2: "live_duration 60 [''12'', ''a.b.mp4''] = Inr (12, [''a.b.mp4''])" by code_simp
  have 3: "open_writer (rw_writers demo_world) (path_of ''a.b.mp4'') = Inr (Some ''MJPG'', path_of ''a.b.avi'')" by code_simp
  have 4: "path_str (path_of ''a.b.avi'') = ''a.b.avi''" by code_simp
  from record_main_report [OF null_dec_lengths _ 1 2, of demo_world "''MJPG''" "path_of ''a.b.avi''" 19] 3 4 demo_live_placed(1) [of 4 0]
  show ?thesis by (auto simp: demo_world_def demo_ticks_def)
qed

end
