(* ===== verification/Vtc.thy ===== *)
theory Vtc
  imports Tx_Daemon
begin

text \<open>
  The video timing diagnostics \<^verbatim>\<open>pynq/runtime/vtc_status.py\<close> (verdict, comparison with the last snapshot) and
  \<^verbatim>\<open>pynq/runtime/vtc_read.py\<close> (the same registers without loading the overlay). The board is a parameter as in
  \<open>Tx_Daemon\<close>; the snapshot file is part of the state, in the form the tool itself writes.

  The lemmas show that the timing controller is never written and, unless forced, only read after the lock bit was read
  as one, that the comparison reports exactly the registers that changed since the last run, and that the two
  tools agree on the verdict.
\<close>

section \<open>Definitions\<close>

definition VTC_REGS :: "(string \<times> int) list" where
  "VTC_REGS = [(''STAT'', 0x004), (''DASIZE'', 0x020), (''DTSTAT'', 0x024), (''DFENC'', 0x028),
     (''DPOL'', 0x02C), (''DHSIZE'', 0x030), (''DVSIZE'', 0x034), (''DHSYNC'', 0x038)]"

type_synonym vtc_regs = "(string \<times> int) list"

fun read_regs :: "'d hw \<Rightarrow> (string \<times> int) list \<Rightarrow> 'd \<Rightarrow> vtc_regs \<times> 'd" where
  "read_regs hw [] d = ([], d)"
| "read_regs hw ((name, off) # rs) d =
     (let (v, d1) = hw_read hw off d; (vs, d2) = read_regs hw rs d1
      in ((name, v AND 0xFFFFFFFF) # vs, d2))"

definition read_all :: "'d hw \<Rightarrow> 'd \<Rightarrow> vtc_regs \<times> 'd" where
  "read_all hw d = read_regs hw VTC_REGS d"

definition reg_value :: "vtc_regs \<Rightarrow> string \<Rightarrow> int" where
  "reg_value regs name = (case map_of regs name of None \<Rightarrow> 0 | Some v \<Rightarrow> v)"

record vtc_timing =
  vt_locked :: int
  vt_avideo :: int
  vt_h_active :: int
  vt_v_active :: int
  vt_h_total :: int
  vt_v_total :: int

definition vtc_decode :: "vtc_regs \<Rightarrow> vtc_timing" where
  "vtc_decode regs =
     \<lparr>vt_locked = reg_value regs ''STAT'' AND 0x1,
      vt_avideo = drop_bit 2 (reg_value regs ''STAT'') AND 0x1,
      vt_h_active = reg_value regs ''DASIZE'' AND 0xFFFF,
      vt_v_active = drop_bit 16 (reg_value regs ''DASIZE'') AND 0xFFFF,
      vt_h_total = (reg_value regs ''DHSIZE'' AND 0xFFFF) - 1,
      vt_v_total = (reg_value regs ''DVSIZE'' AND 0xFFFF) - 1\<rparr>"

datatype vtc_verdict = AllZero | ActiveVideo vtc_timing | NoActiveVideo vtc_timing | NotLocked vtc_timing

definition timing_verdict :: "vtc_timing \<Rightarrow> vtc_verdict" where
  "timing_verdict t =
     (if vt_locked t \<noteq> 0 \<and> vt_avideo t \<noteq> 0 \<and> 100 \<le> vt_h_active t \<and> vt_h_active t \<le> 4096 \<and>
         100 \<le> vt_v_active t \<and> vt_v_active t \<le> 4096 then ActiveVideo t
      else if vt_locked t \<noteq> 0 \<and> vt_avideo t = 0 then NoActiveVideo t
      else NotLocked t)"

definition heuristic_verdict :: "vtc_regs \<Rightarrow> vtc_verdict" where
  "heuristic_verdict regs =
     (if list_all (\<lambda>(_, v). v = 0) regs then AllZero else timing_verdict (vtc_decode regs))"

record vtc_snapshot =
  vs_label :: string
  vs_pixel_lock :: int
  vs_regs :: vtc_regs

text \<open>The comparison: registers with an old value that differs, in register order, and the lock.\<close>

definition changed_regs :: "vtc_regs \<Rightarrow> vtc_snapshot \<Rightarrow> (string \<times> int \<times> int) list" where
  "changed_regs regs prev =
     concat (map (\<lambda>(name, _). case map_of (vs_regs prev) name of
                     None \<Rightarrow> []
                   | Some old \<Rightarrow> if old \<noteq> reg_value regs name then [(name, old, reg_value regs name)] else [])
                 VTC_REGS)"

record vtc_report =
  vr_verdict :: vtc_verdict
  vr_changes :: "((string \<times> int \<times> int) list \<times> (int \<times> int) option) option"

definition print_report :: "vtc_regs \<Rightarrow> int \<Rightarrow> vtc_snapshot option \<Rightarrow> vtc_report" where
  "print_report regs lock prev =
     \<lparr>vr_verdict = heuristic_verdict regs,
      vr_changes = map_option (\<lambda>p. (changed_regs regs p,
        if vs_pixel_lock p \<noteq> lock then Some (vs_pixel_lock p, lock) else None)) prev\<rparr>"

definition nothing_changed :: "vtc_report \<Rightarrow> bool" where
  "nothing_changed r \<longleftrightarrow> vr_changes r = Some ([], None)"

record vtc_args =
  vta_label :: "string option"
  vta_force :: bool

text \<open>
  \<^verbatim>\<open>main\<close> of \<^verbatim>\<open>vtc_status.py\<close>: \<open>Inr None\<close> is the refusal without a pixel clock. The state is the snapshot file and
  the board.
\<close>

definition status_lock :: "'d overlay \<Rightarrow> 'd \<Rightarrow> int \<times> 'd" where
  "status_lock ov d =
     (if ov_has_ip ov ''axi_gpio_hdmiin''
      then let hw = ov_mmio ov ''axi_gpio_hdmiin'';
               (v, d1) = hw_read hw GPIO2_DATA (hw_write hw GPIO2_TRI 0x1 d)
           in (v AND 0x1, d1)
      else (0, d))"

definition vtc_status_main :: "py_env \<Rightarrow> bool \<Rightarrow> string \<Rightarrow> 'd overlay \<Rightarrow> vtc_args \<Rightarrow> vtc_snapshot option \<times> 'd \<Rightarrow>
    vtc_report option result \<times> vtc_snapshot option \<times> 'd" where
  "vtc_status_main pe bit_exists now ov args s =
     (case s of (file, d) \<Rightarrow>
        case load_pynq (pe_files pe) (pe_interp pe) of
          (Inl e, _) \<Rightarrow> (Inl e, file, d)
        | (Inr _, _) \<Rightarrow>
        if \<not> bit_exists then (Inl FileNotFoundError, file, d)
        else if \<not> ov_has_ip ov ''vtc_in'' then (Inl KeyError, file, d)
        else let (lock, d1) = status_lock ov d
             in if lock = 0 \<and> \<not> vta_force args then (Inr None, file, d1)
                else let (regs, d2) = read_all (ov_mmio ov ''vtc_in'') d1;
                         label = (case vta_label args of None \<Rightarrow> now | Some l \<Rightarrow> if l = [] then now else l)
                     in (Inr (Some (print_report regs lock file)),
                         Some \<lparr>vs_label = label, vs_pixel_lock = lock, vs_regs = regs\<rparr>, d2))"

definition VTC_BASE :: int where "VTC_BASE = 0x43C00000"
definition GPIO_BASE :: int where "GPIO_BASE = 0x41200000"

text \<open>\<^verbatim>\<open>main\<close> of \<^verbatim>\<open>vtc_read.py\<close>: register windows by physical address; the exit status and the verdict.\<close>

definition vtc_read_main :: "py_env \<Rightarrow> (int \<Rightarrow> 'd hw) \<Rightarrow> 'd \<Rightarrow> (int \<times> vtc_verdict option) result \<times> 'd" where
  "vtc_read_main pe mmio d =
     (case fst (import_module (pe_files pe) ''pynq'' (pe_interp pe)) of
        Inl e \<Rightarrow> (Inl e, d)
      | Inr m \<Rightarrow>
          if \<not> has_attrs [''MMIO''] m then (Inl AttributeError, d)
          else let gpio = mmio GPIO_BASE;
                   (v, d1) = hw_read gpio 0x08 (hw_write gpio 0x08 0x1 d)
               in if v AND 0x1 = 0 then (Inr (1, None), d1)
                  else let (vals, d2) = read_regs (mmio VTC_BASE) VTC_REGS d1
                       in (Inr (0, Some (timing_verdict (vtc_decode vals))), d2))"

section \<open>A board that records every access\<close>

text \<open>An access with the value read or written; any board, with whatever its registers do, and a record of the accesses.\<close>

datatype access = Rd int int | Wr int int

definition rec_hw :: "('k \<Rightarrow> 'd hw) \<Rightarrow> 'k \<Rightarrow> ('d \<times> ('k \<times> access) list) hw" where
  "rec_hw hw ip =
     \<lparr>hw_read = (\<lambda>a s. case hw_read (hw ip) a (fst s) of (v, d) \<Rightarrow> (v, d, snd s @ [(ip, Rd a v)])),
      hw_write = (\<lambda>a v s. (hw_write (hw ip) a v (fst s), snd s @ [(ip, Wr a v)])),
      hw_clock = (\<lambda>s. case hw_clock (hw ip) (fst s) of (t, d) \<Rightarrow> (t, d, snd s)), hw_dma = idle_dma\<rparr>"

definition rec_overlay :: "(string \<Rightarrow> bool) \<Rightarrow> (string \<Rightarrow> 'd hw) \<Rightarrow> ('d \<times> (string \<times> access) list) overlay" where
  "rec_overlay has hw = \<lparr>ov_has_ip = has, ov_mmio = rec_hw hw\<rparr>"

text \<open>
  A log in which the device \<open>vtc\<close> is never written, and is read only when forced or when the last value read from the
  lock register of \<open>gpio\<close> had the lock bit.
\<close>

fun guarded :: "'k \<Rightarrow> 'k \<Rightarrow> bool \<Rightarrow> bool \<Rightarrow> ('k \<times> access) list \<Rightarrow> bool" where
  "guarded vtc gpio force locked [] = True"
| "guarded vtc gpio force locked ((ip, Wr a v) # l) = (ip \<noteq> vtc \<and> guarded vtc gpio force locked l)"
| "guarded vtc gpio force locked ((ip, Rd a v) # l) =
     ((ip = vtc \<longrightarrow> force \<or> locked) \<and>
      guarded vtc gpio force (if ip = gpio \<and> a = GPIO2_DATA then odd v else locked) l)"

definition touched :: "'k \<Rightarrow> ('k \<times> access) list \<Rightarrow> int list" where
  "touched ip l = map (\<lambda>(_, a). case a of Rd off _ \<Rightarrow> off | Wr off _ \<Rightarrow> off) (filter (\<lambda>x. fst x = ip) l)"

definition vtc_status_log :: "py_env \<Rightarrow> bool \<Rightarrow> string \<Rightarrow> (string \<Rightarrow> bool) \<Rightarrow> (string \<Rightarrow> 'd hw) \<Rightarrow> vtc_args \<Rightarrow> vtc_snapshot option \<Rightarrow> 'd \<Rightarrow>
    (string \<times> access) list" where
  "vtc_status_log pe bit_exists now has hw args file d =
     snd (snd (snd (vtc_status_main pe bit_exists now (rec_overlay has hw) args (file, d, []))))"

definition vtc_read_log :: "py_env \<Rightarrow> (int \<Rightarrow> 'd hw) \<Rightarrow> 'd \<Rightarrow> (int \<times> access) list" where
  "vtc_read_log pe mmio d = snd (snd (vtc_read_main pe (rec_hw mmio) (d, [])))"

lemma rec_read_regs:
  "\<exists>d' vs. snd (read_regs (rec_hw hw ip) rs (d, l)) = (d', l @ map2 (\<lambda>(_, off) v. (ip, Rd off v)) rs vs) \<and> length vs = length rs"
proof (induction rs arbitrary: d l)
  case (Cons r rs)
  obtain name off where r: "r = (name, off)" by (cases r)
  obtain v d1 where v: "hw_read (hw ip) off d = (v, d1)" by (cases "hw_read (hw ip) off d")
  obtain d' vs where "snd (read_regs (rec_hw hw ip) rs (d1, l @ [(ip, Rd off v)])) =
      (d', (l @ [(ip, Rd off v)]) @ map2 (\<lambda>(_, off) v. (ip, Rd off v)) rs vs)" "length vs = length rs"
    using Cons.IH by blast
  then show ?case using v r
    by (intro exI [of _ d'] exI [of _ "v # vs"]) (auto simp: rec_hw_def split: prod.splits)
qed simp

lemma guarded_regs:
  "vtc \<noteq> gpio \<Longrightarrow> length vs = length rs \<Longrightarrow> force \<or> locked \<Longrightarrow>
     guarded vtc gpio force locked (map2 (\<lambda>(_, off) v. (vtc, Rd off v)) rs vs) \<and>
     touched vtc (map2 (\<lambda>(_, off) v. (vtc, Rd off v)) rs vs) = map snd rs"
  by (induction rs vs rule: list_induct2') (auto simp: touched_def)

definition trace_hw :: "('k \<Rightarrow> int \<Rightarrow> int) \<Rightarrow> 'k \<Rightarrow> ('k \<times> access) list hw" where
  "trace_hw rd ip = \<lparr>hw_read = (\<lambda>a d. (rd ip a, d @ [(ip, Rd a (rd ip a))])), hw_write = (\<lambda>a v d. d @ [(ip, Wr a v)]),
     hw_clock = (\<lambda>d. (0, d)), hw_dma = idle_dma\<rparr>"

definition trace_overlay :: "(string \<Rightarrow> bool) \<Rightarrow> (string \<Rightarrow> int \<Rightarrow> int) \<Rightarrow> (string \<times> access) list overlay" where
  "trace_overlay has rd = \<lparr>ov_has_ip = has, ov_mmio = trace_hw rd\<rparr>"

lemma trace_hw_simps [simp]:
  "hw_read (trace_hw rd ip) a d = (rd ip a, d @ [(ip, Rd a (rd ip a))])"
  "hw_write (trace_hw rd ip) a v d = d @ [(ip, Wr a v)]"
  by (simp_all add: trace_hw_def)

lemma trace_read_regs:
  "read_regs (trace_hw rd ip) rs d =
     (map (\<lambda>(name, off). (name, rd ip off AND 0xFFFFFFFF)) rs, d @ map (\<lambda>(name, off). (ip, Rd off (rd ip off))) rs)"
proof (induction rs arbitrary: d)
  case (Cons r rs)
  then show ?case by (cases r) simp
qed simp

definition trace_lock :: "(string \<Rightarrow> bool) \<Rightarrow> (string \<Rightarrow> int \<Rightarrow> int) \<Rightarrow> int" where
  "trace_lock has rd = (if has ''axi_gpio_hdmiin'' then rd ''axi_gpio_hdmiin'' GPIO2_DATA AND 0x1 else 0)"

lemma trace_status_lock:
  "status_lock (trace_overlay has rd) d =
     (trace_lock has rd, d @ (if has ''axi_gpio_hdmiin'' then
        [(''axi_gpio_hdmiin'', Wr GPIO2_TRI 1), (''axi_gpio_hdmiin'', Rd GPIO2_DATA (rd ''axi_gpio_hdmiin'' GPIO2_DATA))] else []))"
  by (simp add: status_lock_def trace_overlay_def trace_lock_def)

definition board_regs :: "(string \<Rightarrow> int \<Rightarrow> int) \<Rightarrow> vtc_regs" where
  "board_regs rd = map (\<lambda>(name, off). (name, rd ''vtc_in'' off AND 0xFFFFFFFF)) VTC_REGS"

lemma trace_status_main:
  "vtc_status_main pe True now (trace_overlay has rd) args (file, d) =
     (case fst (load_pynq (pe_files pe) (pe_interp pe)) of Inl e \<Rightarrow> (Inl e, file, d) | Inr _ \<Rightarrow>
      if \<not> has ''vtc_in'' then (Inl KeyError, file, d)
      else let d1 = d @ (if has ''axi_gpio_hdmiin'' then
             [(''axi_gpio_hdmiin'', Wr GPIO2_TRI 1), (''axi_gpio_hdmiin'', Rd GPIO2_DATA (rd ''axi_gpio_hdmiin'' GPIO2_DATA))] else [])
           in if trace_lock has rd = 0 \<and> \<not> vta_force args then (Inr None, file, d1)
              else (Inr (Some (print_report (board_regs rd) (trace_lock has rd) file)),
                    Some \<lparr>vs_label = (case vta_label args of None \<Rightarrow> now | Some l \<Rightarrow> if l = [] then now else l),
                          vs_pixel_lock = trace_lock has rd, vs_regs = board_regs rd\<rparr>,
                    d1 @ map (\<lambda>(name, off). (''vtc_in'', Rd off (rd ''vtc_in'' off))) VTC_REGS))"
  unfolding vtc_status_main_def trace_status_lock
  by (simp add: trace_overlay_def read_all_def trace_read_regs board_regs_def Let_def split: prod.split sum.split)

abbreviation vtc_word :: "(string \<Rightarrow> int \<Rightarrow> int) \<Rightarrow> int \<Rightarrow> int" where
  "vtc_word rd off \<equiv> rd ''vtc_in'' off AND 0xFFFFFFFF"

lemma VTC_REGS_distinct: "distinct (map fst VTC_REGS)"
  by code_simp

lemma board_regs_get:
  assumes "(name, off) \<in> set VTC_REGS"
  shows "map_of (board_regs rd) name = Some (vtc_word rd off)"
proof -
  have "map fst (board_regs rd) = map fst VTC_REGS" by (simp add: board_regs_def case_prod_beta)
  then have "distinct (map fst (board_regs rd))" using VTC_REGS_distinct by (simp only:)
  then show ?thesis by (rule map_of_is_SomeI) (use assms in \<open>force simp: board_regs_def\<close>)
qed

lemma changed_regs_board:
  assumes "vs_regs p = board_regs rd"
  shows "set (changed_regs (board_regs rd2) p) =
     {(n, old, new). \<exists>off. (n, off) \<in> set VTC_REGS \<and> old = vtc_word rd off \<and> new = vtc_word rd2 off \<and> old \<noteq> new}"
proof -
  have "changed_regs (board_regs rd2) p = concat (map (\<lambda>(name, off).
      if vtc_word rd off \<noteq> vtc_word rd2 off then [(name, vtc_word rd off, vtc_word rd2 off)] else []) VTC_REGS)"
    unfolding changed_regs_def assms
    by (intro arg_cong [where f = concat] map_cong refl) (auto simp: board_regs_get reg_value_def)
  then show ?thesis by (fastforce split: if_splits)
qed

lemma board_regs_pairs:
  "(n, old) \<in> set (board_regs rd) \<and> (n, new) \<in> set (board_regs rd2) \<longleftrightarrow>
     (\<exists>off. (n, off) \<in> set VTC_REGS \<and> old = vtc_word rd off \<and> new = vtc_word rd2 off)"
  using eq_key_imp_eq_value [OF VTC_REGS_distinct] by (fastforce simp: board_regs_def)

lemma board_regs_eq: "board_regs rd = board_regs rd2 \<longleftrightarrow> (\<forall>(n, off) \<in> set VTC_REGS. vtc_word rd off = vtc_word rd2 off)"
  by (auto simp: board_regs_def)

lemma trace_lock_bit: "trace_lock has rd = 0 \<or> trace_lock has rd = 1"
  by (auto simp: trace_lock_def and_one_eq)

lemma trace_read_main:
  "vtc_read_main pe (trace_hw rd) d =
     (case fst (import_module (pe_files pe) ''pynq'' (pe_interp pe)) of
        Inl e \<Rightarrow> (Inl e, d)
      | Inr m \<Rightarrow>
          if \<not> has_attrs [''MMIO''] m then (Inl AttributeError, d)
          else let d1 = d @ [(GPIO_BASE, Wr 8 1), (GPIO_BASE, Rd 8 (rd GPIO_BASE 8))]
               in if even (rd GPIO_BASE 8) then (Inr (1, None), d1)
                  else (Inr (0, Some (timing_verdict (vtc_decode
                          (map (\<lambda>(name, off). (name, rd VTC_BASE off AND 0xFFFFFFFF)) VTC_REGS)))),
                        d1 @ map (\<lambda>(name, off). (VTC_BASE, Rd off (rd VTC_BASE off))) VTC_REGS))"
  by (simp add: vtc_read_main_def trace_read_regs Let_def and_one_eq even_iff_mod_2_eq_zero split: sum.split)

lemma lock_bit: "x AND 1 = (0 :: int) \<longleftrightarrow> even x"
  by (simp add: and_one_eq even_iff_mod_2_eq_zero)

lemma status_log_guarded:
  "guarded ''vtc_in'' ''axi_gpio_hdmiin'' (vta_force args) False (vtc_status_log pe bit_exists now has hw args file d) \<and>
   touched ''vtc_in'' (vtc_status_log pe bit_exists now has hw args file d) \<in> {[], map snd VTC_REGS}"
proof -
  let ?ov = "rec_overlay has hw"
  obtain lv d0 where lv: "hw_read (hw ''axi_gpio_hdmiin'') GPIO2_DATA (hw_write (hw ''axi_gpio_hdmiin'') GPIO2_TRI 1 d) = (lv, d0)"
    by (metis prod.exhaust)
  define pre where "pre = (if has ''axi_gpio_hdmiin''
    then [(''axi_gpio_hdmiin'', Wr GPIO2_TRI 1), (''axi_gpio_hdmiin'', Rd GPIO2_DATA lv)] else [])"
  obtain lock d1 where lock: "status_lock ?ov (d, []) = (lock, d1, pre)" "lock = 0 \<or> has ''axi_gpio_hdmiin'' \<and> odd lv"
    by (cases "has ''axi_gpio_hdmiin''")
      (auto simp: status_lock_def rec_overlay_def rec_hw_def lv pre_def lock_bit)
  obtain regs d2 vs where regs: "read_all (rec_hw hw ''vtc_in'') (d1, pre) =
      (regs, d2, pre @ map2 (\<lambda>(_, off) v. (''vtc_in'', Rd off v)) VTC_REGS vs)" "length vs = length VTC_REGS"
    using rec_read_regs [of hw "''vtc_in''" VTC_REGS d1 pre] unfolding read_all_def by (metis prod.collapse)
  have "vtc_status_log pe bit_exists now has hw args file d \<in> {[], pre} \<or> (lock \<noteq> 0 \<or> vta_force args) \<and>
      vtc_status_log pe bit_exists now has hw args file d = pre @ map2 (\<lambda>(_, off) v. (''vtc_in'', Rd off v)) VTC_REGS vs"
    unfolding vtc_status_log_def vtc_status_main_def
    by (simp add: lock(1) regs(1) rec_overlay_def [of has hw, symmetric] split: sum.split prod.split)
      (simp add: rec_overlay_def regs(1))
  moreover have "guarded ''vtc_in'' ''axi_gpio_hdmiin'' (vta_force args) False pre \<and> touched ''vtc_in'' pre = []"
    by (simp add: pre_def touched_def)
  ultimately show ?thesis
    using lock(2) guarded_regs [OF _ regs(2), of "''vtc_in''" "''axi_gpio_hdmiin''" "vta_force args" True]
      guarded_regs [OF _ regs(2), of "''vtc_in''" "''axi_gpio_hdmiin''" True False]
      guarded_regs [OF _ regs(2), of "''vtc_in''" "''axi_gpio_hdmiin''" True "odd lv"]
    by (cases "vta_force args") (auto simp: pre_def touched_def)
qed

lemma read_log_guarded:
  "guarded VTC_BASE GPIO_BASE False False (vtc_read_log pe mmio e) \<and> touched VTC_BASE (vtc_read_log pe mmio e) \<in> {[], map snd VTC_REGS}"
proof -
  obtain gv e0 where gv: "hw_read (mmio GPIO_BASE) 8 (hw_write (mmio GPIO_BASE) 8 1 e) = (gv, e0)" by (metis prod.exhaust)
  let ?pre = "[(GPIO_BASE, Wr 8 1), (GPIO_BASE, Rd 8 gv)]"
  have pre: "hw_read (rec_hw mmio GPIO_BASE) 8 (hw_write (rec_hw mmio GPIO_BASE) 8 1 (e, [])) = (gv, e0, ?pre)"
    by (simp add: rec_hw_def gv)
  obtain vals e' ws where regs: "read_regs (rec_hw mmio VTC_BASE) VTC_REGS (e0, ?pre) =
      (vals, e', ?pre @ map2 (\<lambda>(_, off) v. (VTC_BASE, Rd off v)) VTC_REGS ws)" "length ws = length VTC_REGS"
    using rec_read_regs [of mmio VTC_BASE VTC_REGS e0 ?pre] by (metis prod.collapse)
  have "vtc_read_log pe mmio e \<in> {[], ?pre} \<or> odd gv \<and> vtc_read_log pe mmio e = ?pre @ map2 (\<lambda>(_, off) v. (VTC_BASE, Rd off v)) VTC_REGS ws"
    unfolding vtc_read_log_def vtc_read_main_def Let_def pre
    by (auto simp: regs(1) lock_bit split: sum.split)
  then show ?thesis
    using guarded_regs [OF _ regs(2), of VTC_BASE GPIO_BASE False True]
    by (auto simp: touched_def GPIO2_DATA_def VTC_BASE_def GPIO_BASE_def)
qed

section \<open>Properties\<close>

text \<open>
  C32. Neither diagnostic ever writes to the timing controller; \<^verbatim>\<open>vtc_status\<close> without \<^verbatim>\<open>--force\<close> and \<^verbatim>\<open>vtc_read\<close>
  read it only when the value they have just read from the lock register has the lock bit, and then read each
  of its eight registers once, in order. With \<^verbatim>\<open>--force\<close> \<^verbatim>\<open>vtc_status\<close> reads it in any case. The board is arbitrary: a write
  may change what any later read returns.
\<close>

theorem vtc_touched_only_when_locked:
  "guarded ''vtc_in'' ''axi_gpio_hdmiin'' (vta_force args) False (vtc_status_log pe bit_exists now has hw args file d) \<and>
   touched ''vtc_in'' (vtc_status_log pe bit_exists now has hw args file d) \<in> {[], map snd VTC_REGS} \<and>
   guarded VTC_BASE GPIO_BASE False False (vtc_read_log pe2 mmio e) \<and>
   touched VTC_BASE (vtc_read_log pe2 mmio e) \<in> {[], map snd VTC_REGS}"
  by (simp only: status_log_guarded read_log_guarded simp_thms)

text \<open>
  The guard of \<^verbatim>\<open>vtc_read\<close> rests on the value at offset 8, to which the tool itself has just written 1: where that
  register gives back what was written, the controller is always read, with and without a pixel clock.
\<close>

lemma vtc_read_own_value:
  assumes "fst (import_module (pe_files pe) ''pynq'' (pe_interp pe)) = Inr m" and "has_attrs [''MMIO''] m"
    and "\<And>d v. fst (hw_read (mmio GPIO_BASE) 8 (hw_write (mmio GPIO_BASE) 8 v d)) = v"
  shows "\<exists>v d'. vtc_read_main pe mmio d = (Inr (0, Some v), d')"
  using assms(1,2) assms(3) [of 1 d]
  by (auto simp: vtc_read_main_def Let_def split: prod.splits)

text \<open>
  The comparison of \<^verbatim>\<open>vtc_status\<close> reports exactly what changed between two runs: after a run that saved its
  snapshot, the next run lists a register with its old and new value if and only if the two values differ,
  lists the lock if and only if it differs, and says that nothing changed if and only if neither does.
\<close>

theorem vtc_diff_exact:
  assumes "vtc_status_main pe True now (trace_overlay has rd) args (file, d) = (Inr (Some r1), file1, d1)"
    and "vtc_status_main pe2 True now2 (trace_overlay has2 rd2) args2 (file1, d2) = (Inr (Some r2), file2, d3)"
  shows "\<exists>chg. vr_changes r2 = Some (chg, if trace_lock has rd = trace_lock has2 rd2 then None
        else Some (trace_lock has rd, trace_lock has2 rd2)) \<and>
     set chg = {(n, old, new). (n, old) \<in> set (board_regs rd) \<and> (n, new) \<in> set (board_regs rd2) \<and> old \<noteq> new} \<and>
     (nothing_changed r2 \<longleftrightarrow> board_regs rd = board_regs rd2 \<and> trace_lock has rd = trace_lock has2 rd2)"
proof -
  obtain p where f: "file1 = Some p" "vs_regs p = board_regs rd" "vs_pixel_lock p = trace_lock has rd"
    using assms(1) by (auto simp: trace_status_main Let_def split: if_splits sum.splits)
  have r2: "vr_changes r2 = Some (changed_regs (board_regs rd2) p,
      if trace_lock has rd = trace_lock has2 rd2 then None else Some (trace_lock has rd, trace_lock has2 rd2))"
    using assms(2) f by (auto simp: trace_status_main Let_def print_report_def split: if_splits sum.splits)
  have set: "set (changed_regs (board_regs rd2) p) =
      {(n, old, new). (n, old) \<in> set (board_regs rd) \<and> (n, new) \<in> set (board_regs rd2) \<and> old \<noteq> new}"
    unfolding changed_regs_board [OF f(2)] using board_regs_pairs by fastforce
  have "changed_regs (board_regs rd2) p = [] \<longleftrightarrow> board_regs rd = board_regs rd2"
    unfolding board_regs_eq set_empty [symmetric] changed_regs_board [OF f(2)] by auto
  then show ?thesis using r2 set by (auto simp: nothing_changed_def)
qed

definition demo_vtc_run :: "int \<Rightarrow> vtc_snapshot option \<Rightarrow>
    vtc_report option result \<times> vtc_snapshot option \<times> (string \<times> access) list" where
  "demo_vtc_run v file =
     vtc_status_main demo_py True [] (trace_overlay (\<lambda>_. True) (\<lambda>_ _. v)) \<lparr>vta_label = None, vta_force = False\<rparr> (file, [])"

theorem vtc_diff_exact_witness:
  "\<exists>r1 file1 d1 r2 file2 d2. demo_vtc_run 1 None = (Inr (Some r1), file1, d1) \<and>
     demo_vtc_run 3 file1 = (Inr (Some r2), file2, d2) \<and> \<not> nothing_changed r2"
proof -
  have "case fst (load_pynq demo_files demo_interp) of Inr _ \<Rightarrow> True | Inl _ \<Rightarrow> False" by code_simp
  then obtain m where p: "fst (load_pynq (pe_files demo_py) (pe_interp demo_py)) = Inr m"
    by (auto simp: demo_py_def split: sum.splits)
  have l: "trace_lock (\<lambda>_. True) (\<lambda>_ _. 1) = 1" "trace_lock (\<lambda>_. True) (\<lambda>_ _. 3) = 1" by (simp_all add: trace_lock_def)
  obtain r1 f1 d1 where 1: "demo_vtc_run 1 None = (Inr (Some r1), f1, d1)"
    using l p by (simp add: demo_vtc_run_def trace_status_main Let_def)
  obtain r2 f2 d2 where 2: "demo_vtc_run 3 f1 = (Inr (Some r2), f2, d2)"
    using l p by (simp add: demo_vtc_run_def trace_status_main Let_def)
  have "board_regs (\<lambda>_ _. 1) \<noteq> board_regs (\<lambda>_ _. 3)" by (simp add: board_regs_def VTC_REGS_def)
  with vtc_diff_exact [OF 1 [unfolded demo_vtc_run_def] 2 [unfolded demo_vtc_run_def]] 1 2 show ?thesis by blast
qed

text \<open>
  The two timing tools give the same verdict on the same registers, except that registers which are all zero are
  reported as such by \<^verbatim>\<open>vtc_status\<close> and as not locked by \<^verbatim>\<open>vtc_read\<close>.
\<close>

lemma vtc_tools_agree:
  assumes "fst (import_module (pe_files pe) ''pynq'' (pe_interp pe)) = Inr m" and "has_attrs [''MMIO''] m"
    and "odd (rd2 GPIO_BASE 8)" and "rd2 VTC_BASE = rd ''vtc_in''"
  shows "fst (vtc_read_main pe (trace_hw rd2) []) = Inr (0, Some (if heuristic_verdict (board_regs rd) = AllZero
     then NotLocked (vtc_decode (board_regs rd)) else heuristic_verdict (board_regs rd)))"
proof -
  have r: "map (\<lambda>(name, off). (name, rd2 VTC_BASE off AND 0xFFFFFFFF)) VTC_REGS = board_regs rd"
    by (simp add: board_regs_def assms(4))
  have z: "timing_verdict t \<noteq> AllZero" for t by (simp add: timing_verdict_def)
  have "timing_verdict (vtc_decode (board_regs rd)) = NotLocked (vtc_decode (board_regs rd))"
    if "list_all (\<lambda>(_, v). v = 0) (board_regs rd)"
  proof -
    have "map_of (board_regs rd) ''STAT'' = Some 0"
      using board_regs_get [of "''STAT''" 4 rd] that by (auto simp: VTC_REGS_def board_regs_def)
    then show ?thesis by (simp add: timing_verdict_def vtc_decode_def reg_value_def)
  qed
  then show ?thesis using assms(1-3) z by (simp add: trace_read_main r heuristic_verdict_def Let_def)
qed

end
