(* ===== verification/Reg_Dump.thy ===== *)
theory Reg_Dump
  imports Seq_Ctrl
begin

text \<open>
  The register tools of the board: \<^verbatim>\<open>pynq/runtime/rd_dbg.py\<close> (a dump of the ring writer and the sequencer through
  \<^verbatim>\<open>/dev/mem\<close>), \<^verbatim>\<open>pynq/ps_shim/tools/set_attr.py\<close> (the cache attributes of the writer) and
  \<^verbatim>\<open>pynq/ps_shim/tools/video_check.py\<close> (publish and drop rates). A mapped window is a parameter: the four bytes
  a slice gives, over an arbitrary device state.

  The lemmas show that the dump reads only inside its windows and always succeeds there, that it agrees with
  \<^verbatim>\<open>aes_seq_ctrl.py\<close> on the registers both read, how the attribute word is packed, and when the rates are right.
\<close>

section \<open>pynq/runtime/rd_dbg.py\<close>

datatype window = WriterWin | SeqWin

type_synonym 'd mem = "window \<Rightarrow> nat \<Rightarrow> 'd \<Rightarrow> bytes \<times> 'd"

definition from_bytes_le :: "bytes \<Rightarrow> int" where
  "from_bytes_le bs = from_bytes_be (rev bs)"

text \<open>\<^verbatim>\<open>struct.unpack("<I", win[off:off + 4])[0]\<close>, the functions \<^verbatim>\<open>rd\<close> and \<^verbatim>\<open>wrd\<close>.\<close>

definition rd_word :: "'d mem \<Rightarrow> window \<Rightarrow> nat \<Rightarrow> 'd \<Rightarrow> int result \<times> 'd" where
  "rd_word mem win off d =
     (case mem win off d of
        (bs, d1) \<Rightarrow> (if length bs = 4 then Inr (from_bytes_le bs) else Inl StructError, d1))"

text \<open>
  The expressions the script prints: a word, a shifted and masked word, a 64-bit value read low or high word first,
  and a quotient. A decoded word is read once and printed with its fields.
\<close>

datatype rexp = Word window nat | Field rexp nat int | LoHi rexp rexp | HiLo rexp rexp | Quot rexp int

datatype dump_item = Val string rexp | Decode string window nat "(string \<times> nat \<times> int) list"

definition bind_d :: "('a result \<times> 'd) \<Rightarrow> ('a \<Rightarrow> 'd \<Rightarrow> 'b result \<times> 'd) \<Rightarrow> 'b result \<times> 'd" where
  "bind_d x f = (case x of (Inl e, d) \<Rightarrow> (Inl e, d) | (Inr v, d) \<Rightarrow> f v d)"

fun rexp_eval :: "'d mem \<Rightarrow> rexp \<Rightarrow> 'd \<Rightarrow> int result \<times> 'd" where
  "rexp_eval mem (Word win off) d = rd_word mem win off d"
| "rexp_eval mem (Field e sh m) d = bind_d (rexp_eval mem e d) (\<lambda>v d. (Inr (drop_bit sh v AND m), d))"
| "rexp_eval mem (LoHi lo hi) d =
     bind_d (rexp_eval mem lo d) (\<lambda>l d. bind_d (rexp_eval mem hi d) (\<lambda>h d. (Inr (l OR push_bit 32 h), d)))"
| "rexp_eval mem (HiLo hi lo) d =
     bind_d (rexp_eval mem hi d) (\<lambda>h d. bind_d (rexp_eval mem lo d) (\<lambda>l d. (Inr (push_bit 32 h OR l), d)))"
| "rexp_eval mem (Quot e k) d = bind_d (rexp_eval mem e d) (\<lambda>v d. (Inr (v div k), d))"

definition item_eval :: "'d mem \<Rightarrow> dump_item \<Rightarrow> 'd \<Rightarrow> (string \<times> int) list result \<times> 'd" where
  "item_eval mem item d =
     (case item of
        Val l e \<Rightarrow> bind_d (rexp_eval mem e d) (\<lambda>v d. (Inr [(l, v)], d))
      | Decode l win off flds \<Rightarrow> bind_d (rd_word mem win off d) (\<lambda>v d.
          (Inr ((l, v) # map (\<lambda>(n, sh, m). (n, drop_bit sh v AND m)) flds), d)))"

fun dump :: "'d mem \<Rightarrow> dump_item list \<Rightarrow> 'd \<Rightarrow> (string \<times> int) list result \<times> 'd" where
  "dump mem [] d = (Inr [], d)"
| "dump mem (i # is) d =
     bind_d (item_eval mem i d) (\<lambda>vs d. bind_d (dump mem is d) (\<lambda>ws d. (Inr (vs @ ws), d)))"

text \<open>The script, in the order of its reads; the nonce, tag and probe words are printed at its end.\<close>

definition rd_dbg_items :: "dump_item list" where
  "rd_dbg_items =
     [Val ''NONCE'' (HiLo (Word SeqWin 0x40) (Word SeqWin 0x44)),
      Val ''TAG0'' (Word SeqWin 0x60),
      Val ''TAG1'' (Word SeqWin 0x64),
      Val ''TAG2'' (Word SeqWin 0x68),
      Val ''TAG3'' (Word SeqWin 0x6C),
      Val ''GH0'' (Word SeqWin 0x74),
      Val ''GH1'' (Word SeqWin 0x78),
      Val ''GH2'' (Word SeqWin 0x7C),
      Val ''GH3'' (Word SeqWin 0x80),
      Val ''PUSH0'' (Word SeqWin 0x84),
      Val ''PUSH1'' (Word SeqWin 0x88),
      Val ''PUSH2'' (Word SeqWin 0x8C),
      Val ''PUSH3'' (Word SeqWin 0x90),
      Val ''MXIS0'' (Word SeqWin 0x94),
      Val ''MXIS1'' (Word SeqWin 0x98),
      Val ''MXIS2'' (Word SeqWin 0x9C),
      Val ''MXIS3'' (Word SeqWin 0xA0),
      Val ''TAGV'' (Field (Word SeqWin 0x70) 0 1),
      Val ''WRITER_STATUS'' (Word WriterWin 0x54),
      Val ''WRITER_COMPLETE'' (LoHi (Word WriterWin 0x7C) (Word WriterWin 0x80)),
      Val ''AES_TAG_COMPLETE'' (LoHi (Word SeqWin 0xD0) (Word SeqWin 0xCC)),
      Val ''WRITER_ERROR'' (Word WriterWin 0x58),
      Val ''WR_FETCH_CYCLES'' (LoHi (Word WriterWin 0x84) (Word WriterWin 0x88)),
      Val ''WR_FETCH_WAIT'' (LoHi (Word WriterWin 0xAC) (Word WriterWin 0xB0)),
      Val ''WR_FETCH_PACK'' (LoHi (Word WriterWin 0xB4) (Word WriterWin 0xB8)),
      Val ''WR_AW_CYCLES'' (LoHi (Word WriterWin 0x8C) (Word WriterWin 0x90)),
      Val ''WR_W_CYCLES'' (LoHi (Word WriterWin 0x94) (Word WriterWin 0x98)),
      Val ''WR_B_CYCLES'' (LoHi (Word WriterWin 0x9C) (Word WriterWin 0xA0)),
      Val ''WR_IDLE_BLOCKED'' (LoHi (Word WriterWin 0xA4) (Word WriterWin 0xA8)),
      Val ''FAULT_CAUSE'' (Word WriterWin 0x64),
      Val ''FAULT_STATE'' (Word WriterWin 0x68),
      Val ''FAULT_KEEP'' (Field (Word WriterWin 0x6C) 0 0xFFFF),
      Val ''FAULT_LEFT'' (Word WriterWin 0x70),
      Val ''FAULT_BURST'' (Word WriterWin 0x74),
      Val ''FAULT_BRESP'' (Field (Word WriterWin 0x78) 0 0x3),
      Val ''AES_STATUS'' (Word SeqWin 0xA4),
      Val ''CT_BEATS'' (Word SeqWin 0xA8),
      Val ''TAG_PUSHES'' (Word SeqWin 0xAC),
      Val ''TAG_FIFO_CNT'' (Word SeqWin 0xB0),
      Val ''TAG_PT_INFL'' (Word SeqWin 0xB4),
      Val ''LAST_CT_BEATS'' (Word SeqWin 0xB8),
      Val ''LAST_FIFO_PUSH'' (Word SeqWin 0xBC),
      Val ''LAST_AXIS_POP'' (Word SeqWin 0xC0),
      Val ''LAST_TAG_ATTEM'' (Word SeqWin 0xC4),
      Val ''LAST_FIFO_CNT'' (Word SeqWin 0xC8),
      Val ''SEQ_TOTAL'' (Word SeqWin 0xD4),
      Val ''SEQ_SETUP'' (Word SeqWin 0xD8),
      Val ''SEQ_WAIT_EMPTY'' (Word SeqWin 0xDC),
      Val ''SEQ_POLL_SESS'' (Word SeqWin 0xE0),
      Val ''SEQ_PASS'' (Word SeqWin 0xE4),
      Val ''SEQ_WAIT_TAG'' (Word SeqWin 0xE8),
      Val ''SEQ_TAG_READ'' (Word SeqWin 0xEC),
      Val ''SEQ_GHASH_READ'' (Word SeqWin 0xF0),
      Decode ''AES_STALL'' SeqWin 0x100 [(''tvalid'', 31, 0x1), (''pass'', 30, 0x1), (''tready'', 29, 0x1), (''pt_ready'', 28, 0x1), (''slot'', 27, 0x1), (''sess'', 26, 0x1), (''ghct'', 25, 0x1), (''key'', 24, 0x1), (''gh_fifo'', 16, 0xFF), (''ct_fifo'', 9, 0x7F), (''pt_infl'', 2, 0x7F), (''ct_valid'', 1, 0x1), (''empty'', 0, 0x1)],
      Val ''FIFO_FULL_CYCLES'' (LoHi (Word SeqWin 0x104) (Word SeqWin 0x108)),
      Val ''EMPTY_NO_CT_CYCLES'' (LoHi (Word SeqWin 0x10C) (Word SeqWin 0x110)),
      Val ''PT_BLOCKED_CYCLES'' (LoHi (Word SeqWin 0x114) (Word SeqWin 0x118)),
      Val ''NO_OFFER_CYCLES'' (LoHi (Word SeqWin 0x11C) (Word SeqWin 0x120)),
      Val ''GH_NOT_READY_CYCLES'' (LoHi (Word SeqWin 0x124) (Word SeqWin 0x128)),
      Val ''SLOT_BLOCKED_CYCLES'' (LoHi (Word SeqWin 0x12C) (Word SeqWin 0x130)),
      Val ''GCM_BUSY_CYCLES'' (LoHi (Word SeqWin 0x134) (Word SeqWin 0x138)),
      Val ''LAST_FIFO_FULL'' (Word SeqWin 0x13C),
      Val ''LAST_EMPTY_NO_CT'' (Word SeqWin 0x140),
      Val ''LAST_PT_BLOCKED'' (Word SeqWin 0x144),
      Val ''LAST_NO_OFFER'' (Word SeqWin 0x148),
      Val ''LAST_GH_NOT_READY'' (Word SeqWin 0x14C),
      Val ''LAST_SLOT_BLOCKED'' (Word SeqWin 0x150),
      Decode ''PKT_STATUS'' SeqWin 0x154 [(''vtv'', 6, 0x1), (''vtr'', 5, 0x1), (''tuser'', 4, 0x1), (''state'', 2, 0x3), (''ptv'', 1, 0x1), (''ptr'', 0, 0x1)],
      Val ''PREFIFO_BEATS'' (HiLo (Word SeqWin 0x58) (Word SeqWin 0x5C)),
      Val ''PIXELCLK_COUNT'' (HiLo (Word SeqWin 0x158) (Word SeqWin 0x15C)),
      Val ''DE_COUNT'' (HiLo (Word SeqWin 0x160) (Word SeqWin 0x164)),
      Val ''VID_OF_COUNT'' (HiLo (Word SeqWin 0x168) (Word SeqWin 0x16C)),
      Val ''VID_UF_COUNT'' (HiLo (Word SeqWin 0x170) (Word SeqWin 0x174)),
      Val ''VID_RESET_PULSE'' (HiLo (Word SeqWin 0x178) (Word SeqWin 0x17C)),
      Val ''VID_RESET_LEVEL'' (Word SeqWin 0x180),
      Val ''PKT_FIFO_WR_COUNT'' (Word SeqWin 0x184),
      Val ''PKT_FIFO_RD_COUNT'' (Word SeqWin 0x188),
      Val ''PREFIFO_VALID_CYCLES'' (Word SeqWin 0x190),
      Val ''PREFIFO_READY_CYCLES'' (Word SeqWin 0x194),
      Val ''CDCOUT_BEATS'' (HiLo (Word SeqWin 0x198) (Word SeqWin 0x19C)),
      Val ''DE_AT_OVERFLOW'' (Word SeqWin 0x1A0),
      Val ''DE_AT_OVERFLOW_LINE'' (Quot (Word SeqWin 0x1A0) 1280),
      Decode ''PKT_FIFO_STATUS'' SeqWin 0x18C [(''m_ready'', 0, 0x1), (''m_valid'', 1, 0x1)]]"

definition rd_dbg :: "'d mem \<Rightarrow> 'd \<Rightarrow> (string \<times> int) list result \<times> 'd" where
  "rd_dbg mem d = dump mem rd_dbg_items d"

section \<open>pynq/ps_shim/tools\<close>

text \<open>\<^verbatim>\<open>set_attr.py\<close> on its two arguments: the word written at \<^verbatim>\<open>0x50\<close> and the word read back.\<close>

definition REG_AX_ATTR :: nat where "REG_AX_ATTR = 0x50"

definition attr_value :: "int \<Rightarrow> int \<Rightarrow> int" where
  "attr_value axcache axuser = push_bit 8 (axuser AND 0x1F) OR (axcache AND 0xF)"

definition set_attr :: "(nat \<Rightarrow> bytes \<Rightarrow> 'd \<Rightarrow> 'd) \<Rightarrow> 'd mem \<Rightarrow> int list \<Rightarrow> 'd \<Rightarrow> (int \<times> int) result \<times> 'd" where
  "set_attr store mem argv d =
     (case argv of
        [cache, user] \<Rightarrow>
          let v = attr_value cache user
          in if 0 \<le> v \<and> v < 2 ^ 32
             then bind_d (rd_word mem WriterWin REG_AX_ATTR (store REG_AX_ATTR (rev (be_bytes 4 v)) d)) (\<lambda>back d.
                    (Inr (v, back), d))
             else (Inl StructError, d)
      | _ \<Rightarrow> (Inl SystemExit, d))"

text \<open>\<^verbatim>\<open>video_check.py\<close>: two samples of two counters five seconds apart; the slots per second, times five.\<close>

record video_check =
  vk_status :: int
  vk_control :: int
  vk_fault :: int
  vk_coherent :: int
  vk_publish :: "int \<times> int \<times> int"
  vk_drops :: "int \<times> int \<times> int"

definition rate_delta :: "int \<Rightarrow> int \<Rightarrow> int" where
  "rate_delta c0 c1 = c1 - c0"

definition video_check_main :: "('d \<Rightarrow> 'd) \<Rightarrow> 'd mem \<Rightarrow> 'd \<Rightarrow> video_check result \<times> 'd" where
  "video_check_main sleep mem d =
     bind_d (rd_word mem WriterWin 0x30 d) (\<lambda>c0 d. bind_d (rd_word mem WriterWin 0x2C d) (\<lambda>d0 d.
     bind_d (rd_word mem WriterWin 0x30 (sleep d)) (\<lambda>c1 d. bind_d (rd_word mem WriterWin 0x2C d) (\<lambda>d1 d.
     bind_d (rd_word mem WriterWin 0x08 d) (\<lambda>st d. bind_d (rd_word mem WriterWin 0x04 d) (\<lambda>ct d.
     bind_d (rd_word mem WriterWin 0x3C d) (\<lambda>fa d. bind_d (rd_word mem WriterWin 0x4C d) (\<lambda>co d.
       (Inr \<lparr>vk_status = st, vk_control = ct, vk_fault = fa, vk_coherent = co,
             vk_publish = (c0, c1, rate_delta c0 c1), vk_drops = (d0, d1, rate_delta d0 d1)\<rparr>, d)))))))))"

section \<open>Reads inside the windows\<close>

text \<open>A mapping of 4096 bytes: a slice of four bytes inside it has four bytes.\<close>

definition mapped :: "'d mem \<Rightarrow> bool" where
  "mapped mem \<longleftrightarrow> (\<forall>w off d. off + 4 \<le> 4096 \<longrightarrow> length (fst (mem w off d)) = 4)"

fun rexp_word :: "rexp \<Rightarrow> bool" where
  "rexp_word (Word w off) = (off + 4 \<le> 4096)"
| "rexp_word (Field e sh m) = (rexp_word e)"
| "rexp_word (Quot e k) = (0 < k \<and> rexp_word e)"
| "rexp_word _ = False"

fun rexp_fine :: "rexp \<Rightarrow> bool" where
  "rexp_fine (LoHi a b) = (rexp_word a \<and> rexp_word b)"
| "rexp_fine (HiLo a b) = (rexp_word a \<and> rexp_word b)"
| "rexp_fine e = rexp_word e"

fun item_fine :: "dump_item \<Rightarrow> bool" where
  "item_fine (Val l e) = rexp_fine e"
| "item_fine (Decode l w off flds) = (off + 4 \<le> 4096)"

fun item_labels :: "dump_item \<Rightarrow> string list" where
  "item_labels (Val l e) = [l]"
| "item_labels (Decode l w off flds) = l # map fst flds"

lemma bind_d_simps [simp]: "bind_d (Inr v, d) f = f v d" "bind_d (Inl e, d) f = (Inl e, d)"
  by (simp_all add: bind_d_def)

lemma rd_word_ok:
  assumes "mapped mem" and "off + 4 \<le> 4096"
  shows "\<exists>v d'. rd_word mem w off d = (Inr v, d') \<and> 0 \<le> v \<and> v < 2 ^ 32"
proof -
  obtain bs d1 where m: "mem w off d = (bs, d1)" by (cases "mem w off d")
  then have l: "length bs = 4" using assms unfolding mapped_def by (metis fst_conv)
  have "from_bytes_le bs < 256 ^ 4" using from_bytes_be_lt [of "rev bs"] l by (simp add: from_bytes_le_def)
  then show ?thesis using m l by (simp add: rd_word_def from_bytes_le_def)
qed

lemma rexp_word_ok:
  assumes "mapped mem" and "rexp_word e"
  shows "\<exists>v d'. rexp_eval mem e d = (Inr v, d') \<and> 0 \<le> v \<and> v < 2 ^ 32"
  using assms(2)
proof (induction e arbitrary: d)
  case (Word w off)
  then show ?case using rd_word_ok [OF assms(1)] by simp
next
  case (Field e sh m)
  then obtain v d' where v: "rexp_eval mem e d = (Inr v, d')" "0 \<le> v" "v < 2 ^ 32" by force
  have "drop_bit sh v AND m \<le> drop_bit sh v" using v(2) by (intro AND_upper1) simp
  also have "drop_bit sh v \<le> v" using v(2) by (simp add: drop_bit_eq_div div_le_dividend zdiv_mono2 [of v 1 "2 ^ sh", simplified])
  finally show ?case using v by simp
next
  case (Quot e k)
  then obtain v d' where v: "rexp_eval mem e d = (Inr v, d')" "0 \<le> v" "v < 2 ^ 32" by force
  have "v div k \<le> v" using v(2) Quot.prems by (simp add: zdiv_mono2 [of v 1 k, simplified])
  then show ?case using v Quot.prems by (simp add: pos_imp_zdiv_nonneg_iff)
qed simp_all

lemma or_64_bounds:
  assumes "0 \<le> (l :: int)" "l < 2 ^ 32" "0 \<le> h" "h < 2 ^ 32"
  shows "0 \<le> l OR push_bit 32 h \<and> l OR push_bit 32 h < 2 ^ 64"
proof -
  have "push_bit 32 h < 2 ^ 64" "0 \<le> push_bit 32 h" using assms by (simp_all add: push_bit_eq_mult)
  with OR_upper [of l 64 "push_bit 32 h"] assms show ?thesis by simp
qed

lemma rexp_fine_ok:
  assumes "mapped mem" and "rexp_fine e"
  shows "\<exists>v d'. rexp_eval mem e d = (Inr v, d') \<and> 0 \<le> v \<and> v < 2 ^ 64"
proof (cases "rexp_word e")
  case True
  then show ?thesis using rexp_word_ok [OF assms(1), of e d] by fastforce
next
  case False
  then obtain a b where e: "e = LoHi a b \<or> e = HiLo a b" and ab: "rexp_word a" "rexp_word b"
    using assms(2) by (cases e) auto
  obtain v d1 where v: "rexp_eval mem a d = (Inr v, d1)" "0 \<le> v" "v < 2 ^ 32"
    using rexp_word_ok [OF assms(1) ab(1)] by blast
  obtain w d2 where w: "rexp_eval mem b d1 = (Inr w, d2)" "0 \<le> w" "w < 2 ^ 32"
    using rexp_word_ok [OF assms(1) ab(2)] by blast
  show ?thesis using e v w or_64_bounds [of v w] or_64_bounds [of w v] by (auto simp: or.commute)
qed

lemma item_fine_ok:
  assumes "mapped mem" and "item_fine i"
  shows "\<exists>vs d'. item_eval mem i d = (Inr vs, d') \<and> map fst vs = item_labels i \<and> list_all (\<lambda>(_, v). 0 \<le> v \<and> v < 2 ^ 64) vs"
proof (cases i)
  case (Val l e)
  then show ?thesis using rexp_fine_ok [OF assms(1), of e d] assms(2) by (auto simp: item_eval_def)
next
  case (Decode l w off flds)
  then obtain v d' where v: "rd_word mem w off d = (Inr v, d')" "0 \<le> v" "v < 2 ^ 32"
    using rd_word_ok [OF assms(1)] assms(2) by force
  have "0 \<le> drop_bit sh v AND m \<and> drop_bit sh v AND m < 2 ^ 64" for sh m
  proof -
    have "drop_bit sh v AND m \<le> drop_bit sh v" using v(2) by (intro AND_upper1) simp
    also have "drop_bit sh v \<le> v" using v(2) by (simp add: drop_bit_eq_div zdiv_mono2 [of v 1 "2 ^ sh", simplified])
    finally show ?thesis using v by simp
  qed
  then show ?thesis using Decode v by (auto simp: item_eval_def list_all_iff)
qed

lemma dump_ok:
  assumes "mapped mem" and "list_all item_fine is"
  shows "\<exists>vs d'. dump mem is d = (Inr vs, d') \<and> map fst vs = concat (map item_labels is) \<and>
     list_all (\<lambda>(_, v). 0 \<le> v \<and> v < 2 ^ 64) vs"
  using assms(2)
proof (induction "is" arbitrary: d)
  case (Cons i "is")
  obtain vs d1 where 1: "item_eval mem i d = (Inr vs, d1)" "map fst vs = item_labels i"
      "list_all (\<lambda>(_, v). 0 \<le> v \<and> v < 2 ^ 64) vs"
    using item_fine_ok [OF assms(1)] Cons.prems by force
  obtain ws d2 where 2: "dump mem is d1 = (Inr ws, d2)" "map fst ws = concat (map item_labels is)"
      "list_all (\<lambda>(_, v). 0 \<le> v \<and> v < 2 ^ 64) ws"
    using Cons.IH Cons.prems by force
  show ?case using 1 2 by simp
qed simp

lemma rd_dbg_items_fine: "list_all item_fine rd_dbg_items"
  by code_simp

section \<open>A board that stands still\<close>

text \<open>Memory that does not change between reads, and the register window the sequencer driver sees there.\<close>

definition still :: "(window \<Rightarrow> nat \<Rightarrow> bytes) \<Rightarrow> unit mem" where
  "still m w off d = (m w off, d)"

definition still_hw :: "(window \<Rightarrow> nat \<Rightarrow> bytes) \<Rightarrow> unit hw" where
  "still_hw m = \<lparr>hw_read = (\<lambda>a d. (from_bytes_le (m SeqWin (nat a)), d)), hw_write = (\<lambda>_ _ d. d),
     hw_clock = (\<lambda>d. (0, d)), hw_dma = idle_dma\<rparr>"

definition four_bytes :: "(window \<Rightarrow> nat \<Rightarrow> bytes) \<Rightarrow> bool" where
  "four_bytes m \<longleftrightarrow> (\<forall>w off. length (m w off) = 4)"

lemma still_mapped: "four_bytes m \<Longrightarrow> mapped (still m)"
  by (simp add: mapped_def still_def four_bytes_def)

lemma item_in_dump:
  assumes "dump (still m) is () = (Inr vs, ())" and "distinct (map fst vs)" and "Val l e \<in> set is"
    and "rexp_eval (still m) e () = (Inr v, ())"
  shows "map_of vs l = Some v"
proof -
  have "(l, v) \<in> set vs" using assms(1,3,4)
  proof (induction "is" arbitrary: vs)
    case (Cons i "is")
    obtain xs where xs: "item_eval (still m) i () = (Inr xs, ())"
      using Cons.prems(1) by (cases "item_eval (still m) i ()"; cases "fst (item_eval (still m) i ())") auto
    obtain ws where ws: "dump (still m) is () = (Inr ws, ())" "vs = xs @ ws"
      using Cons.prems(1) xs by (cases "dump (still m) is ()"; cases "fst (dump (still m) is ())") auto
    show ?case
    proof (cases "i = Val l e")
      case True
      then show ?thesis using xs ws(2) Cons.prems(3) by (auto simp: item_eval_def)
    next
      case False
      then show ?thesis using Cons.IH [OF ws(1)] Cons.prems(2,3) ws(2) by simp
    qed
  qed simp
  then show ?thesis using assms(2) by simp
qed

lemma still_word:
  assumes "four_bytes m"
  shows "rexp_eval (still m) (Word w off) () = (Inr (from_bytes_le (m w off)), ())"
  using assms by (simp add: rd_word_def still_def four_bytes_def)

lemma still_read:
  assumes "four_bytes m"
  shows "seq_read (still_hw m) a () = (from_bytes_le (m SeqWin (nat a)), ())"
proof -
  have "length (m SeqWin (nat a)) = 4" using assms by (simp add: four_bytes_def)
  then have "from_bytes_le (m SeqWin (nat a)) < 2 ^ 32" "0 \<le> from_bytes_le (m SeqWin (nat a))"
    using from_bytes_be_lt [of "rev (m SeqWin (nat a))"] by (simp_all add: from_bytes_le_def)
  then show ?thesis by (simp add: seq_read_def still_hw_def and_masks take_bit_int_eq_self)
qed

lemma rd_dbg_labels_distinct: "distinct (concat (map item_labels rd_dbg_items))"
  by code_simp

section \<open>Properties\<close>

text \<open>
  The dump reads only inside its two 4096-byte windows, so on any board, whatever the registers do between the
  reads, it ends without an exception, prints every one of its values, and each fits into 64 bits.
\<close>

theorem rd_dbg_total:
  assumes "mapped mem"
  shows "\<exists>vs d'. rd_dbg mem d = (Inr vs, d') \<and> map fst vs = concat (map item_labels rd_dbg_items) \<and>
     list_all (\<lambda>(_, v). 0 \<le> v \<and> v < 2 ^ 64) vs"
  unfolding rd_dbg_def by (rule dump_ok [OF assms rd_dbg_items_fine])

theorem rd_dbg_total_witness:
  "\<exists>vs d'. rd_dbg (still (\<lambda>_ _. [1, 2, 3, 4])) () = (Inr vs, d') \<and> map fst vs = concat (map item_labels rd_dbg_items) \<and>
     list_all (\<lambda>(_, v). 0 \<le> v \<and> v < 2 ^ 64) vs"
  by (rule rd_dbg_total [OF still_mapped]) (simp add: four_bytes_def)

text \<open>
  C35. The dump and the sequencer driver agree. On a board that stands still the nonce, the tag and the GHASH words,
  the tag-valid bit and the beat counter in front of the FIFO that \<^verbatim>\<open>rd_dbg.py\<close> prints are what
  \<^verbatim>\<open>aes_seq_ctrl.py\<close> reads.
\<close>

theorem rd_dbg_agrees_with_driver:
  assumes "four_bytes m" and "rd_dbg (still m) () = (Inr vs, ())"
  shows "map_of vs ''NONCE'' = Some (fst (seq_nonce_counter (still_hw m) ())) \<and>
     map_of vs ''PREFIFO_BEATS'' = Some (vc_prefifo_beats (fst (read_video_counters (still_hw m) ()))) \<and>
     map_of vs ''TAGV'' = Some (fst (seq_read (still_hw m) REG_TAG_VALID ()) AND 1) \<and>
     fst (read_tag (still_hw m) ()) =
       Inr (concat (map (\<lambda>l. be_bytes 4 (the (map_of vs l))) [''TAG0'', ''TAG1'', ''TAG2'', ''TAG3''])) \<and>
     fst (read_ghash (still_hw m) ()) =
       Inr (concat (map (\<lambda>l. be_bytes 4 (the (map_of vs l))) [''GH0'', ''GH1'', ''GH2'', ''GH3'']))"
proof -
  have "map fst vs = concat (map item_labels rd_dbg_items)"
    using dump_ok [OF still_mapped [OF assms(1)] rd_dbg_items_fine, of "()"] assms(2) by (auto simp: rd_dbg_def)
  then have dis: "distinct (map fst vs)" using rd_dbg_labels_distinct by (simp only:)
  note get = item_in_dump [OF assms(2) [unfolded rd_dbg_def] dis]
  note rd = still_word [OF assms(1)] still_read [OF assms(1)]
  let ?w = "\<lambda>off. from_bytes_le (m SeqWin off)"
  have word: "map_of vs l = Some (?w off)" if "Val l (Word SeqWin off) \<in> set rd_dbg_items" for l off
    by (rule get [OF that]) (rule rd(1))
  have lt: "0 \<le> ?w off \<and> ?w off < 256 ^ 4" for off
    using from_bytes_be_lt [of "rev (m SeqWin off)"] assms(1) by (simp add: from_bytes_le_def four_bytes_def)
  have "map_of vs ''NONCE'' = Some (push_bit 32 (?w 0x40) OR ?w 0x44)"
    by (rule get, simp add: rd_dbg_items_def, simp add: rd del: rexp_eval.simps(1))
  moreover have "map_of vs ''PREFIFO_BEATS'' = Some (push_bit 32 (?w 0x58) OR ?w 0x5C)"
    by (rule get, simp add: rd_dbg_items_def, simp add: rd del: rexp_eval.simps(1))
  moreover have "map_of vs ''TAGV'' = Some (drop_bit 0 (?w 0x70) AND 1)"
    by (rule get, simp add: rd_dbg_items_def, simp add: rd del: rexp_eval.simps(1))
  moreover have "map_of vs ''TAG0'' = Some (?w 0x60)" "map_of vs ''TAG1'' = Some (?w 0x64)"
    "map_of vs ''TAG2'' = Some (?w 0x68)" "map_of vs ''TAG3'' = Some (?w 0x6C)"
    "map_of vs ''GH0'' = Some (?w 0x74)" "map_of vs ''GH1'' = Some (?w 0x78)"
    "map_of vs ''GH2'' = Some (?w 0x7C)" "map_of vs ''GH3'' = Some (?w 0x80)"
    by (rule word, simp add: rd_dbg_items_def)+
  ultimately show ?thesis
    using lt by (simp add: seq_nonce_counter_def read_video_counters_def read_64_def read_tag_def read_ghash_def rd(2)
        Let_def to_bytes_be_def seq_regs REG_PREFIFO_BEAT_HI_def REG_PREFIFO_BEAT_LO_def REG_GHASH0_def
        REG_GHASH1_def REG_GHASH2_def REG_GHASH3_def del: be_bytes.simps)
qed

theorem rd_dbg_agrees_with_driver_witness:
  "\<exists>vs. rd_dbg (still (\<lambda>_ _. [1, 0, 0, 0])) () = (Inr vs, ()) \<and>
     map_of vs ''NONCE'' = Some (fst (seq_nonce_counter (still_hw (\<lambda>_ _. [1, 0, 0, 0])) ()))"
proof -
  have f: "four_bytes (\<lambda>_ _. [1, 0, 0, 0])" by (simp add: four_bytes_def)
  obtain vs where v: "rd_dbg (still (\<lambda>_ _. [1, 0, 0, 0])) () = (Inr vs, ())"
    using dump_ok [OF still_mapped [OF f] rd_dbg_items_fine, of "()"] by (auto simp: rd_dbg_def)
  from rd_dbg_agrees_with_driver [OF f v] v show ?thesis by blast
qed

text \<open>
  The attribute word: the two fields do not overlap, arguments are cut to their width, so every pair of integers is
  accepted, and on memory that keeps what is stored the word read back is the word written.
\<close>

lemma attr_value_fields:
  "attr_value cache user AND 0xF = cache AND 0xF \<and> drop_bit 8 (attr_value cache user) = user AND 0x1F \<and>
   0 \<le> attr_value cache user \<and> attr_value cache user < 2 ^ 13"
proof -
  have m: "n AND 0x1F = take_bit 5 n" "n AND 0xF = take_bit 4 n" for n :: int
    by (simp_all add: take_bit_eq_mask mask_eq_exp_minus_1)
  have u: "0 \<le> take_bit 5 user" "take_bit 5 user < 32" and c: "0 \<le> take_bit 4 cache" "take_bit 4 cache < 16"
    using take_bit_int_less_exp [of 5 user] take_bit_int_less_exp [of 4 cache] by simp_all
  have z: "drop_bit 8 (take_bit 4 cache) = 0" using c by (simp add: drop_bit_eq_div)
  have "take_bit 4 (push_bit 8 (take_bit 5 user) OR take_bit 4 cache) = take_bit 4 cache"
    by (simp add: take_bit_or take_bit_push_bit)
  moreover have "drop_bit 8 (push_bit 8 (take_bit 5 user) OR take_bit 4 cache) = take_bit 5 user"
    using z by (simp add: drop_bit_or bit_eq_iff bit_simps)
  moreover have "push_bit 8 (take_bit 5 user) OR take_bit 4 cache < 2 ^ 13"
    using OR_upper [of "push_bit 8 (take_bit 5 user)" 13 "take_bit 4 cache"] u c by (simp add: push_bit_eq_mult)
  ultimately show ?thesis using u c by (simp add: attr_value_def m)
qed

lemma set_attr_readback:
  assumes "\<And>bs d. fst (mem WriterWin REG_AX_ATTR (store REG_AX_ATTR bs d)) = bs"
  shows "fst (set_attr store mem [cache, user] d) = Inr (attr_value cache user, attr_value cache user)"
proof -
  let ?v = "attr_value cache user"
  have v: "0 \<le> ?v" "?v < 256 ^ 4" using attr_value_fields [of cache user] by simp_all
  obtain d1 where "mem WriterWin REG_AX_ATTR (store REG_AX_ATTR (rev (be_bytes 4 ?v)) d) = (rev (be_bytes 4 ?v), d1)"
    using assms [of "rev (be_bytes 4 ?v)" d] by (metis prod.collapse)
  then show ?thesis using v
    by (simp add: set_attr_def Let_def rd_word_def from_bytes_le_def from_be_bytes_id del: be_bytes.simps)
qed

text \<open>
  The rates: a 32-bit counter that advanced by \<open>k\<close> is reported with the difference \<open>k\<close> exactly when it did not wrap;
  after a wrap the difference is negative.
\<close>

lemma rate_delta_wrap:
  assumes "0 \<le> c0" "c0 < 2 ^ 32" "0 \<le> k" "k < 2 ^ 32"
  shows "rate_delta c0 ((c0 + k) mod 2 ^ 32) = (if c0 + k < 2 ^ 32 then k else k - 2 ^ 32)"
proof (cases "c0 + k < 2 ^ 32")
  case False
  then have "(c0 + k) mod 2 ^ 32 = c0 + k - 2 ^ 32"
    using assms by (simp add: mod_pos_pos_trivial minus_mod_self2 [symmetric, of "c0 + k"] del: minus_mod_self2)
  then show ?thesis using False by (simp add: rate_delta_def)
qed (use assms in \<open>simp add: rate_delta_def\<close>)

end
