(* ===== verification/Udp_Net.thy ===== *)
theory Udp_Net
  imports Reassembly
begin

text \<open>
  The socket wrappers \<^verbatim>\<open>pc/runtime/udp_rx.py\<close>, \<^verbatim>\<open>pc/runtime/udp_tx.py\<close> and \<^verbatim>\<open>pynq/runtime/transport.py\<close> over the
  calls of Python's \<^verbatim>\<open>socket\<close> module that they make, on one host: binding, sending to a bound address,
  receiving with a buffer size and a timeout, closing. What the operating system is free to choose is the
  parameter \<open>udp_os\<close>: which addresses may be bound, which port an ephemeral bind gets, whether a
  receive queue has room, which networks have a route.

  The lemmas show that no two sockets share a port they could take datagrams from each other on, that a
  receiver gets the datagrams sent to it in order and cut to its buffer, and that every datagram with a valid
  header fits the default buffer. The last theorem is the repository's loopback test for every frame.
\<close>

section \<open>Sockets\<close>

type_synonym addr = "string \<times> int"

definition any_ip :: string where "any_ip = ''0.0.0.0''"

text \<open>An unbound socket has the local address \<^verbatim>\<open>('0.0.0.0', 0)\<close>.\<close>

record udp_socket =
  so_addr :: addr
  so_reuse :: bool
  so_timeout :: "int option"
  so_queue :: "(bytes \<times> addr) list"

text \<open>The open sockets, newest first, and what left the host.\<close>

record udp_host =
  uh_socks :: "(nat \<times> udp_socket) list"
  uh_next :: nat
  uh_out :: "(addr \<times> bytes) list"

record udp_os =
  os_may_bind :: "addr \<Rightarrow> bool"
  os_port :: "udp_host \<Rightarrow> int option"
  os_local :: "string \<Rightarrow> bool"
  os_route :: "string \<Rightarrow> bool"
  os_room :: "udp_socket \<Rightarrow> bytes \<Rightarrow> bool"

definition new_socket :: udp_socket where
  "new_socket = \<lparr>so_addr = (any_ip, 0), so_reuse = False, so_timeout = None, so_queue = []\<rparr>"

definition sock_open :: "udp_host \<Rightarrow> nat \<times> udp_host" where
  "sock_open h = (uh_next h, h\<lparr>uh_socks := (uh_next h, new_socket) # uh_socks h, uh_next := uh_next h + 1\<rparr>)"

definition sock_get :: "udp_host \<Rightarrow> nat \<Rightarrow> udp_socket result" where
  "sock_get h fd = (case map_of (uh_socks h) fd of None \<Rightarrow> Inl OSError | Some s \<Rightarrow> Inr s)"

definition sock_put :: "nat \<Rightarrow> udp_socket \<Rightarrow> udp_host \<Rightarrow> udp_host" where
  "sock_put fd s h = h\<lparr>uh_socks := AList.update fd s (uh_socks h)\<rparr>"

definition sock_close :: "udp_host \<Rightarrow> nat \<Rightarrow> udp_host" where
  "sock_close h fd = h\<lparr>uh_socks := AList.delete fd (uh_socks h)\<rparr>"

text \<open>Two bound addresses collide when they have one port and the same or a wildcard address.\<close>

definition collides :: "addr \<Rightarrow> addr \<Rightarrow> bool" where
  "collides a b \<longleftrightarrow> snd a = snd b \<and> snd a \<noteq> 0 \<and> (fst a = fst b \<or> fst a = any_ip \<or> fst b = any_ip)"

definition in_use :: "udp_host \<Rightarrow> udp_socket \<Rightarrow> addr \<Rightarrow> bool" where
  "in_use h s a \<longleftrightarrow> list_ex (\<lambda>(_, t). collides a (so_addr t) \<and> \<not> (so_reuse s \<and> so_reuse t)) (uh_socks h)"

definition port_ok :: "int \<Rightarrow> bool" where
  "port_ok p \<longleftrightarrow> 0 \<le> p \<and> p < 2 ^ 16"

definition sock_bind :: "udp_os \<Rightarrow> udp_host \<Rightarrow> nat \<Rightarrow> addr \<Rightarrow> unit result \<times> udp_host" where
  "sock_bind os h fd a =
     (case sock_get h fd of
        Inl e \<Rightarrow> (Inl e, h)
      | Inr s \<Rightarrow>
          if \<not> port_ok (snd a) then (Inl OverflowError, h)
          else if snd (so_addr s) \<noteq> 0 \<or> \<not> os_may_bind os a then (Inl OSError, h)
          else if snd a = 0 then
            (case os_port os h of
               None \<Rightarrow> (Inl OSError, h)
             | Some p \<Rightarrow> (Inr (), sock_put fd (s\<lparr>so_addr := (fst a, p)\<rparr>) h))
          else if in_use h s a then (Inl OSError, h)
          else (Inr (), sock_put fd (s\<lparr>so_addr := a\<rparr>) h))"

text \<open>\<^verbatim>\<open>setsockopt\<close> of a buffer size: the argument is a C integer; its effect is part of \<open>os_room\<close>.\<close>

definition sock_set_buffer :: "udp_host \<Rightarrow> nat \<Rightarrow> int \<Rightarrow> unit result" where
  "sock_set_buffer h fd n =
     bind_r (sock_get h fd) (\<lambda>_. if - (2 ^ 31) \<le> n \<and> n < 2 ^ 31 then Inr () else Inl OverflowError)"

definition sock_set_reuse :: "udp_host \<Rightarrow> nat \<Rightarrow> unit result \<times> udp_host" where
  "sock_set_reuse h fd =
     (case sock_get h fd of
        Inl e \<Rightarrow> (Inl e, h)
      | Inr s \<Rightarrow> (Inr (), sock_put fd (s\<lparr>so_reuse := True\<rparr>) h))"

definition sock_settimeout :: "udp_host \<Rightarrow> nat \<Rightarrow> int \<Rightarrow> unit result \<times> udp_host" where
  "sock_settimeout h fd t =
     (case sock_get h fd of
        Inl e \<Rightarrow> (Inl e, h)
      | Inr s \<Rightarrow> if t < 0 then (Inl ValueError, h) else (Inr (), sock_put fd (s\<lparr>so_timeout := Some t\<rparr>) h))"

text \<open>Which socket takes a datagram: one bound to the address itself before one bound to all addresses.\<close>

definition sock_target :: "udp_host \<Rightarrow> addr \<Rightarrow> nat option" where
  "sock_target h a =
     (case filter (\<lambda>(_, s). so_addr s = a) (uh_socks h) @ filter (\<lambda>(_, s). so_addr s = (any_ip, snd a)) (uh_socks h) of
        [] \<Rightarrow> None
      | (fd, _) # _ \<Rightarrow> Some fd)"

definition sock_deliver :: "udp_os \<Rightarrow> udp_host \<Rightarrow> addr \<Rightarrow> addr \<Rightarrow> bytes \<Rightarrow> udp_host" where
  "sock_deliver os h src dst data =
     (case sock_target h dst of
        None \<Rightarrow> h
      | Some fd \<Rightarrow>
          (case sock_get h fd of
             Inl _ \<Rightarrow> h
           | Inr s \<Rightarrow> if os_room os s data then sock_put fd (s\<lparr>so_queue := so_queue s @ [(data, src)]\<rparr>) h else h))"

definition MAX_UDP_BYTES :: nat where "MAX_UDP_BYTES = 65507"

text \<open>
  \<^verbatim>\<open>sendto\<close>: an unbound socket is bound to an ephemeral port first; the wildcard as a destination is the
  loopback address; a socket bound to all addresses sends from the destination's own address on this host.
\<close>

definition sock_autobind :: "udp_os \<Rightarrow> udp_host \<Rightarrow> udp_socket \<Rightarrow> udp_socket option" where
  "sock_autobind os h s =
     (if snd (so_addr s) \<noteq> 0 then Some s
      else map_option (\<lambda>p. s\<lparr>so_addr := (fst (so_addr s), p)\<rparr>) (os_port os h))"

definition dst_addr :: "addr \<Rightarrow> addr" where
  "dst_addr a = (if fst a = any_ip then ''127.0.0.1'' else fst a, snd a)"

definition src_addr :: "udp_socket \<Rightarrow> addr \<Rightarrow> addr" where
  "src_addr s dst = (if fst (so_addr s) = any_ip then fst dst else fst (so_addr s), snd (so_addr s))"

definition sock_sendto :: "udp_os \<Rightarrow> udp_host \<Rightarrow> nat \<Rightarrow> bytes \<Rightarrow> addr \<Rightarrow> int result \<times> udp_host" where
  "sock_sendto os h fd data a =
     (case sock_get h fd of
        Inl e \<Rightarrow> (Inl e, h)
      | Inr s \<Rightarrow>
          if \<not> port_ok (snd a) then (Inl OverflowError, h)
          else if snd a = 0 \<or> length data > MAX_UDP_BYTES \<or> \<not> os_route os (fst a) then (Inl OSError, h)
          else
            (case sock_autobind os h s of
               None \<Rightarrow> (Inl OSError, h)
             | Some s1 \<Rightarrow>
                 (let h1 = sock_put fd s1 h; dst = dst_addr a
                  in (Inr (int (length data)),
                      if os_local os (fst dst) then sock_deliver os h1 (src_addr s1 dst) dst data
                      else h1\<lparr>uh_out := uh_out h1 @ [(dst, data)]\<rparr>))))"

text \<open>\<^verbatim>\<open>recvfrom\<close>: \<open>None\<close> is a call that waits. A datagram longer than the buffer loses its end.\<close>

definition sock_recvfrom :: "udp_host \<Rightarrow> nat \<Rightarrow> int \<Rightarrow> (bytes \<times> addr) result option \<times> udp_host" where
  "sock_recvfrom h fd n =
     (case sock_get h fd of
        Inl e \<Rightarrow> (Some (Inl e), h)
      | Inr s \<Rightarrow>
          if n < 0 then (Some (Inl ValueError), h)
          else (case so_queue s of
                  [] \<Rightarrow> (case so_timeout s of
                           None \<Rightarrow> None
                         | Some t \<Rightarrow> Some (Inl (if t = 0 then OSError else TimeoutError)), h)
                | (d, src) # q \<Rightarrow> (Some (Inr (take (nat n) d, src)), sock_put fd (s\<lparr>so_queue := q\<rparr>) h)))"

section \<open>The wrappers\<close>

text \<open>
  A constructor that raises drops the only reference to its socket, which closes it.
\<close>

definition abandon :: "nat \<Rightarrow> 'a result \<times> udp_host \<Rightarrow> 'a result \<times> udp_host" where
  "abandon fd r = (case r of (Inl e, h) \<Rightarrow> (Inl e, sock_close h fd) | (Inr x, h) \<Rightarrow> (Inr x, h))"

definition then_h :: "unit result \<times> udp_host \<Rightarrow> (udp_host \<Rightarrow> 'a result \<times> udp_host) \<Rightarrow> 'a result \<times> udp_host" where
  "then_h r f = (case r of (Inl e, h) \<Rightarrow> (Inl e, h) | (Inr _, h) \<Rightarrow> f h)"

definition udp_rx_init :: "udp_os \<Rightarrow> udp_host \<Rightarrow> int \<Rightarrow> string \<Rightarrow> int option \<Rightarrow> int option \<Rightarrow> nat result \<times> udp_host" where
  "udp_rx_init os h listen_port bind_ip recv_buffer_bytes timeout_s =
     (let (fd, h0) = sock_open h
      in abandon fd
          (then_h (sock_bind os h0 fd (bind_ip, listen_port)) (\<lambda>h1.
           then_h (case recv_buffer_bytes of None \<Rightarrow> Inr () | Some n \<Rightarrow> sock_set_buffer h1 fd n, h1) (\<lambda>h2.
           then_h (case timeout_s of None \<Rightarrow> (Inr (), h2) | Some t \<Rightarrow> sock_settimeout h2 fd t) (\<lambda>h3.
           (Inr fd, h3))))))"

definition udp_rx_recv :: "nat \<Rightarrow> udp_host \<Rightarrow> int \<Rightarrow> (bytes \<times> addr) result option \<times> udp_host" where
  "udp_rx_recv rx h max_datagram_bytes = sock_recvfrom h rx max_datagram_bytes"

definition udp_rx_close :: "nat \<Rightarrow> udp_host \<Rightarrow> udp_host" where
  "udp_rx_close rx h = sock_close h rx"

record udp_tx =
  utx_sock :: nat
  utx_target :: addr

definition udp_tx_init :: "udp_os \<Rightarrow> udp_host \<Rightarrow> string \<Rightarrow> int \<Rightarrow> string \<Rightarrow> int option \<Rightarrow> udp_tx result \<times> udp_host" where
  "udp_tx_init os h target_ip target_port bind_ip send_buffer_bytes =
     (let (fd, h0) = sock_open h
      in abandon fd
          (then_h (sock_bind os h0 fd (bind_ip, 0)) (\<lambda>h1.
           then_h (case send_buffer_bytes of None \<Rightarrow> Inr () | Some n \<Rightarrow> sock_set_buffer h1 fd n, h1) (\<lambda>h2.
           (Inr \<lparr>utx_sock = fd, utx_target = (target_ip, target_port)\<rparr>, h2)))))"

definition udp_tx_send :: "udp_os \<Rightarrow> udp_tx \<Rightarrow> udp_host \<Rightarrow> bytes \<Rightarrow> int result \<times> udp_host" where
  "udp_tx_send os tx h datagram = sock_sendto os h (utx_sock tx) datagram (utx_target tx)"

definition udp_tx_close :: "udp_tx \<Rightarrow> udp_host \<Rightarrow> udp_host" where
  "udp_tx_close tx h = sock_close h (utx_sock tx)"

record udp_transport =
  ut_bind :: addr
  ut_send :: addr
  ut_sock :: nat

definition transport_init :: "udp_os \<Rightarrow> udp_host \<Rightarrow> string \<Rightarrow> int \<Rightarrow> string \<Rightarrow> int \<Rightarrow> udp_transport result \<times> udp_host" where
  "transport_init os h bind_ip bind_port send_ip send_port =
     (let (fd, h0) = sock_open h
      in abandon fd
          (then_h (sock_set_reuse h0 fd) (\<lambda>h1.
           then_h (sock_bind os h1 fd (bind_ip, bind_port)) (\<lambda>h2.
           (Inr \<lparr>ut_bind = (bind_ip, bind_port), ut_send = (send_ip, send_port), ut_sock = fd\<rparr>, h2)))))"

definition transport_send :: "udp_os \<Rightarrow> udp_transport \<Rightarrow> udp_host \<Rightarrow> bytes \<Rightarrow> int result \<times> udp_host" where
  "transport_send os t h payload = sock_sendto os h (ut_sock t) payload (ut_send t)"

definition transport_recv :: "udp_transport \<Rightarrow> udp_host \<Rightarrow> int \<Rightarrow> (bytes \<times> addr) result option \<times> udp_host" where
  "transport_recv t h max_bytes = sock_recvfrom h (ut_sock t) max_bytes"

definition transport_close :: "udp_transport \<Rightarrow> udp_host \<Rightarrow> udp_host" where
  "transport_close t h = sock_close h (ut_sock t)"

text \<open>
  The receiving side of the repository's loopback test, one turn: receive, split, check the tag and the header,
  push. A failed assertion leaves the test.
\<close>

definition loopback_turn :: "nat \<Rightarrow> udp_host \<times> frame_reassembler \<Rightarrow> int \<Rightarrow>
    bytes option result option \<times> udp_host \<times> frame_reassembler" where
  "loopback_turn rx s max_bytes =
     (case udp_rx_recv rx (fst s) max_bytes of
        (None, h) \<Rightarrow> (None, h, snd s)
      | (Some (Inl e), h) \<Rightarrow> (Some (Inl e), h, snd s)
      | (Some (Inr (datagram, _)), h) \<Rightarrow>
          (case split_datagram datagram of
             Inl e \<Rightarrow> (Some (Inl e), h, snd s)
           | Inr (header, payload, tag) \<Rightarrow>
               if tag \<noteq> replicate (nat DEFAULT_TAG_LENGTH) 0 \<or> validate_header header \<noteq> []
               then (Some (Inl AssertionError), h, snd s)
               else (case push (snd s) header payload of (out, r) \<Rightarrow> (Some out, h, r))))"

section \<open>The invariant of the host\<close>

text \<open>
  What the documentation promises of an ephemeral port: it is a port no open socket has.
\<close>

definition os_spec :: "udp_os \<Rightarrow> bool" where
  "os_spec os \<longleftrightarrow>
     (\<forall>h p. os_port os h = Some p \<longrightarrow>
        0 < p \<and> p < 2 ^ 16 \<and> list_all (\<lambda>(_, t). snd (so_addr t) \<noteq> p) (uh_socks h))"

definition host_inv :: "udp_host \<Rightarrow> bool" where
  "host_inv h \<longleftrightarrow>
     distinct (map fst (uh_socks h)) \<and> (\<forall>fd \<in> set (map fst (uh_socks h)). fd < uh_next h) \<and>
     (\<forall>fd s fd' t. map_of (uh_socks h) fd = Some s \<longrightarrow> map_of (uh_socks h) fd' = Some t \<longrightarrow> fd \<noteq> fd' \<longrightarrow>
        collides (so_addr s) (so_addr t) \<longrightarrow> so_reuse s \<and> so_reuse t)"

lemma collides_sym: "collides a b \<longleftrightarrow> collides b a"
  by (auto simp: collides_def)

lemma sock_get_Inr [simp]: "sock_get h fd = Inr s \<longleftrightarrow> map_of (uh_socks h) fd = Some s"
  by (auto simp: sock_get_def split: option.splits)

lemma sock_get_Inl [simp]: "sock_get h fd = Inl e \<longleftrightarrow> map_of (uh_socks h) fd = None \<and> e = OSError"
  by (auto simp: sock_get_def split: option.splits)

lemma map_of_sock_put [simp]: "map_of (uh_socks (sock_put fd s h)) = (map_of (uh_socks h))(fd \<mapsto> s)"
  by (simp add: sock_put_def update_conv')

lemma sock_put_same [simp]: "map_of (uh_socks h) fd = Some s \<Longrightarrow> sock_put fd s h = h"
  by (simp add: sock_put_def update_triv)

lemma socks_set: "host_inv h \<Longrightarrow> (fd, s) \<in> set (uh_socks h) \<longleftrightarrow> map_of (uh_socks h) fd = Some s"
  by (simp add: host_inv_def)

lemma host_inv_put:
  assumes inv: "host_inv h" and old: "map_of (uh_socks h) fd = Some s0"
    and new: "\<And>fd' t. map_of (uh_socks h) fd' = Some t \<Longrightarrow> fd' \<noteq> fd \<Longrightarrow> collides (so_addr s) (so_addr t) \<Longrightarrow>
                so_reuse s \<and> so_reuse t"
  shows "host_inv (sock_put fd s h)"
proof -
  have "fd \<in> set (map fst (uh_socks h))" using old by (force dest: map_of_SomeD)
  then have "uh_next (sock_put fd s h) = uh_next h"
    and "set (map fst (uh_socks (sock_put fd s h))) = set (map fst (uh_socks h))"
    and "distinct (map fst (uh_socks (sock_put fd s h)))"
    using inv by (auto simp: sock_put_def host_inv_def update_keys)
  then show ?thesis
    using inv new unfolding host_inv_def
    by (auto simp: collides_sym split: if_splits)
qed

lemma host_inv_put_same:
  assumes "host_inv h" "map_of (uh_socks h) fd = Some s0" "so_addr s = so_addr s0" "so_reuse s0 \<Longrightarrow> so_reuse s"
  shows "host_inv (sock_put fd s h)"
  using assms by (intro host_inv_put) (auto simp: host_inv_def)

lemma host_inv_open: "host_inv h \<Longrightarrow> host_inv (snd (sock_open h))"
  by (auto simp: host_inv_def sock_open_def new_socket_def collides_def less_SucI split: if_splits)

lemma host_inv_close: "host_inv h \<Longrightarrow> host_inv (sock_close h fd)"
  by (auto simp: host_inv_def sock_close_def delete_conv' AList.delete_keys distinct_removeAll split: if_splits)

lemma in_use_free:
  assumes "host_inv h" "\<not> in_use h s a" "map_of (uh_socks h) fd = Some t" "collides a (so_addr t)"
  shows "so_reuse s \<and> so_reuse t"
  using assms by (auto simp: in_use_def list_ex_iff dest: map_of_SomeD)

lemma os_port_free:
  assumes "os_spec os" "os_port os h = Some p" "map_of (uh_socks h) fd = Some t"
  shows "\<not> collides (ip, p) (so_addr t)"
  using assms by (fastforce simp: os_spec_def collides_def list_all_iff dest!: map_of_SomeD)

lemma host_inv_bind:
  assumes "os_spec os" "host_inv h"
  shows "host_inv (snd (sock_bind os h fd a))"
  using assms(2) os_port_free [OF assms(1)]
  by (auto simp: sock_bind_def split: sum.splits option.splits intro!: host_inv_put dest: in_use_free [OF assms(2)])

lemma host_inv_deliver: "host_inv h \<Longrightarrow> host_inv (sock_deliver os h src dst data)"
  by (auto simp: sock_deliver_def split: option.splits sum.splits intro!: host_inv_put_same)

lemma host_inv_out: "host_inv (h\<lparr>uh_out := q\<rparr>) \<longleftrightarrow> host_inv h"
  by (simp add: host_inv_def)

lemma host_inv_autobind:
  assumes "os_spec os" "host_inv h" "map_of (uh_socks h) fd = Some s" "sock_autobind os h s = Some s1"
  shows "host_inv (sock_put fd s1 h)"
  using assms os_port_free [OF assms(1)]
  by (auto simp: sock_autobind_def split: if_splits intro!: host_inv_put)

lemma host_inv_sendto:
  assumes "os_spec os" "host_inv h"
  shows "host_inv (snd (sock_sendto os h fd data a))"
  using assms(2) host_inv_autobind [OF assms]
  by (auto simp: sock_sendto_def Let_def host_inv_out split: sum.splits option.splits intro!: host_inv_deliver)

lemma host_inv_recvfrom: "host_inv h \<Longrightarrow> host_inv (snd (sock_recvfrom h fd n))"
  by (auto simp: sock_recvfrom_def split: sum.splits option.splits list.splits intro!: host_inv_put_same)

lemma host_inv_set_reuse: "host_inv h \<Longrightarrow> host_inv (snd (sock_set_reuse h fd))"
  by (auto simp: sock_set_reuse_def split: sum.splits intro!: host_inv_put_same)

lemma host_inv_settimeout: "host_inv h \<Longrightarrow> host_inv (snd (sock_settimeout h fd t))"
  by (auto simp: sock_settimeout_def split: sum.splits intro!: host_inv_put_same)

lemma host_inv_abandon: "host_inv (snd r) \<Longrightarrow> host_inv (snd (abandon fd r))"
  by (auto simp: abandon_def host_inv_close split: prod.splits sum.splits)

lemma host_inv_then: "host_inv (snd r) \<Longrightarrow> (\<And>h. host_inv h \<Longrightarrow> host_inv (snd (f h))) \<Longrightarrow> host_inv (snd (then_h r f))"
  by (auto simp: then_h_def split: prod.splits sum.splits)

lemmas host_inv_intros = host_inv_abandon host_inv_then host_inv_bind host_inv_sendto host_inv_recvfrom
  host_inv_set_reuse host_inv_settimeout host_inv_close

lemma host_inv_rx_init: "os_spec os \<Longrightarrow> host_inv h \<Longrightarrow> host_inv (snd (udp_rx_init os h p ip b t))"
  using host_inv_open [of h]
  by (auto simp: udp_rx_init_def Let_def split: prod.splits option.splits intro!: host_inv_intros)

lemma host_inv_tx_init: "os_spec os \<Longrightarrow> host_inv h \<Longrightarrow> host_inv (snd (udp_tx_init os h tip tp ip b))"
  using host_inv_open [of h]
  by (auto simp: udp_tx_init_def Let_def split: prod.splits option.splits intro!: host_inv_intros)

lemma host_inv_transport_init: "os_spec os \<Longrightarrow> host_inv h \<Longrightarrow> host_inv (snd (transport_init os h ip p tip tp))"
  using host_inv_open [of h]
  by (auto simp: transport_init_def Let_def split: prod.splits intro!: host_inv_intros)

datatype udp_op =
    OpenRx int string "int option" "int option"
  | RecvRx nat int
  | CloseRx nat
  | OpenTx string int string "int option"
  | SendTx udp_tx bytes
  | CloseTx udp_tx
  | OpenTransport string int string int
  | SendTransport udp_transport bytes
  | RecvTransport udp_transport int
  | CloseTransport udp_transport

fun udp_step :: "udp_os \<Rightarrow> udp_host \<Rightarrow> udp_op \<Rightarrow> unit \<times> udp_host" where
  "udp_step os h (OpenRx p ip b t) = ((), snd (udp_rx_init os h p ip b t))"
| "udp_step os h (RecvRx rx n) = ((), snd (udp_rx_recv rx h n))"
| "udp_step os h (CloseRx rx) = ((), udp_rx_close rx h)"
| "udp_step os h (OpenTx tip tp ip b) = ((), snd (udp_tx_init os h tip tp ip b))"
| "udp_step os h (SendTx tx d) = ((), snd (udp_tx_send os tx h d))"
| "udp_step os h (CloseTx tx) = ((), udp_tx_close tx h)"
| "udp_step os h (OpenTransport ip p tip tp) = ((), snd (transport_init os h ip p tip tp))"
| "udp_step os h (SendTransport t d) = ((), snd (transport_send os t h d))"
| "udp_step os h (RecvTransport t n) = ((), snd (transport_recv t h n))"
| "udp_step os h (CloseTransport t) = ((), transport_close t h)"

lemmas wrapper_defs = udp_rx_recv_def udp_rx_close_def udp_tx_send_def udp_tx_close_def
  transport_send_def transport_recv_def transport_close_def

interpretation udp: invariant_machine "udp_step os" "\<lambda>h. os_spec os \<and> host_inv h"
proof unfold_locales
  fix h i
  assume "os_spec os \<and> host_inv h"
  then show "os_spec os \<and> host_inv (snd (udp_step os h i))"
    by (cases i) (simp_all add: wrapper_defs host_inv_intros host_inv_rx_init host_inv_tx_init host_inv_transport_init)
qed

definition empty_host :: udp_host where
  "empty_host = \<lparr>uh_socks = [], uh_next = 0, uh_out = []\<rparr>"

lemma empty_host_inv: "host_inv empty_host"
  by (simp add: host_inv_def empty_host_def)

section \<open>Delivery on the loopback\<close>

lemma sock_target_unique:
  assumes inv: "host_inv h" and own: "map_of (uh_socks h) fr = Some sr" "\<not> so_reuse sr"
    and addr: "so_addr sr = a \<or> so_addr sr = (any_ip, snd a)" and port: "snd a \<noteq> 0"
  shows "sock_target h a = Some fr"
proof -
  let ?xs = "filter (\<lambda>(_, s). so_addr s = a) (uh_socks h) @ filter (\<lambda>(_, s). so_addr s = (any_ip, snd a)) (uh_socks h)"
  have only: "fd = fr" if "(fd, s) \<in> set ?xs" for fd s
  proof (rule ccontr)
    assume "fd \<noteq> fr"
    moreover have "map_of (uh_socks h) fd = Some s" "collides (so_addr s) (so_addr sr)"
      using that addr port socks_set [OF inv] by (auto simp: collides_def)
    ultimately show False using inv own unfolding host_inv_def by blast
  qed
  have "(fr, sr) \<in> set ?xs" using own(1) addr by (auto dest: map_of_SomeD)
  then obtain y ys where "?xs = y # ys" by (cases ?xs) auto
  moreover from this have "fst y = fr" using only [of "fst y" "snd y"] by (metis list.set_intros(1) prod.collapse)
  ultimately show ?thesis by (auto simp: sock_target_def split: prod.splits)
qed

text \<open>A sender bound to a port and a receiver that takes what is sent to \<open>a\<close>.\<close>

definition linked :: "udp_os \<Rightarrow> nat \<Rightarrow> addr \<Rightarrow> nat \<Rightarrow> udp_host \<Rightarrow> addr \<Rightarrow> (bytes \<times> addr) list \<Rightarrow> bool" where
  "linked os ft a fr h src q \<longleftrightarrow>
     host_inv h \<and> ft \<noteq> fr \<and>
     (\<exists>st sr. map_of (uh_socks h) ft = Some st \<and> snd (so_addr st) \<noteq> 0 \<and> src_addr st (dst_addr a) = src \<and>
        map_of (uh_socks h) fr = Some sr \<and> \<not> so_reuse sr \<and> so_queue sr = q \<and>
        (so_addr sr = dst_addr a \<or> so_addr sr = (any_ip, snd a)))"

definition reachable :: "udp_os \<Rightarrow> addr \<Rightarrow> bool" where
  "reachable os a \<longleftrightarrow> port_ok (snd a) \<and> snd a \<noteq> 0 \<and> os_route os (fst a) \<and> os_local os (fst (dst_addr a))"

lemma snd_dst_addr [simp]: "snd (dst_addr a) = snd a"
  by (simp add: dst_addr_def)

lemma send_linked:
  assumes l: "linked os ft a fr h src q" and a: "reachable os a" and len: "length d \<le> MAX_UDP_BYTES"
  shows "\<exists>sr. so_queue sr = q \<and> fst (sock_sendto os h ft d a) = Inr (int (length d)) \<and>
     linked os ft a fr (snd (sock_sendto os h ft d a)) src (if os_room os sr d then q @ [(d, src)] else q)"
proof -
  obtain st sr where s: "host_inv h" "ft \<noteq> fr" "map_of (uh_socks h) ft = Some st" "snd (so_addr st) \<noteq> 0"
    "src_addr st (dst_addr a) = src" "map_of (uh_socks h) fr = Some sr" "\<not> so_reuse sr" "so_queue sr = q"
    "so_addr sr = dst_addr a \<or> so_addr sr = (any_ip, snd a)"
    using l by (auto simp: linked_def)
  have "sock_target h (dst_addr a) = Some fr"
    using sock_target_unique [OF s(1,6,7)] s(9) a by (simp add: reachable_def)
  then have send: "sock_sendto os h ft d a =
      (Inr (int (length d)), if os_room os sr d then sock_put fr (sr\<lparr>so_queue := q @ [(d, src)]\<rparr>) h else h)"
    using s a len by (simp add: sock_sendto_def sock_get_def sock_autobind_def sock_deliver_def reachable_def)
  have "host_inv (sock_put fr (sr\<lparr>so_queue := q @ [(d, src)]\<rparr>) h)"
    by (rule host_inv_put_same [OF s(1,6)]) simp_all
  then have "linked os ft a fr (sock_put fr (sr\<lparr>so_queue := q @ [(d, src)]\<rparr>) h) src (q @ [(d, src)])"
    using s by (auto simp: linked_def)
  with send l s(8) show ?thesis by (intro exI [of _ sr]) simp
qed

text \<open>
  The elements at the marked positions; a queue that holds \<open>n\<close> datagrams of the default receive size, which is all that is
  ever assumed of its capacity.
\<close>

definition marked :: "bool list \<Rightarrow> 'a list \<Rightarrow> 'a list" where
  "marked bs xs = map snd (filter fst (zip bs xs))"

lemma marked_simps [simp]: "marked [] xs = []" "marked (b # bs) (x # xs) = (if b then x # marked bs xs else marked bs xs)"
  by (simp_all add: marked_def)

lemma marked_all [simp]: "marked (replicate (length xs) True) xs = xs"
  by (induction xs) simp_all

lemma list_all2_marked: "list_all2 P xs ys \<Longrightarrow> length bs = length xs \<Longrightarrow> list_all2 P (marked bs xs) (marked bs ys)"
proof (induction xs ys arbitrary: bs rule: list_all2_induct)
  case (Cons x xs y ys)
  then show ?case by (cases bs) auto
qed simp

definition os_holds :: "udp_os \<Rightarrow> nat \<Rightarrow> bool" where
  "os_holds os n \<longleftrightarrow> (\<forall>s d. length (so_queue s) < n \<longrightarrow> length d \<le> 2048 \<longrightarrow> os_room os s d)"

lemma sends_linked:
  assumes "linked os ft a fr h src q" "reachable os a" "\<And>d. d \<in> set ds \<Longrightarrow> length d \<le> 2048"
  shows "\<exists>bs. length bs = length ds \<and>
     fst (run_outs (\<lambda>h d. sock_sendto os h ft d a) h ds) = map (\<lambda>d. Inr (int (length d))) ds \<and>
     linked os ft a fr (snd (run_outs (\<lambda>h d. sock_sendto os h ft d a) h ds)) src (q @ map (\<lambda>d. (d, src)) (marked bs ds)) \<and>
     (os_holds os (length q + length ds) \<longrightarrow> bs = replicate (length ds) True)"
  using assms(1,3)
proof (induction ds arbitrary: h q)
  case Nil
  then show ?case by simp
next
  case (Cons d ds)
  have d: "length d \<le> 2048" "length d \<le> MAX_UDP_BYTES" using Cons.prems(2) [of d] by (simp_all add: MAX_UDP_BYTES_def)
  obtain sr where sr: "so_queue sr = q" "fst (sock_sendto os h ft d a) = Inr (int (length d))"
    "linked os ft a fr (snd (sock_sendto os h ft d a)) src (if os_room os sr d then q @ [(d, src)] else q)"
    using send_linked [OF Cons.prems(1) assms(2) d(2)] by blast
  let ?q = "if os_room os sr d then q @ [(d, src)] else q"
  obtain bs where bs: "length bs = length ds"
    "fst (run_outs (\<lambda>h d. sock_sendto os h ft d a) (snd (sock_sendto os h ft d a)) ds) = map (\<lambda>d. Inr (int (length d))) ds"
    "linked os ft a fr (snd (run_outs (\<lambda>h d. sock_sendto os h ft d a) (snd (sock_sendto os h ft d a)) ds)) src
       (?q @ map (\<lambda>d. (d, src)) (marked bs ds))"
    "os_holds os (length ?q + length ds) \<longrightarrow> bs = replicate (length ds) True"
    using Cons.IH [OF sr(3)] Cons.prems(2) by auto
  have "os_holds os (length q + length (d # ds)) \<longrightarrow> os_room os sr d" using sr(1) d(1) by (simp add: os_holds_def)
  with bs sr(2) show ?case by (intro exI [of _ "os_room os sr d # bs"]) (auto split: if_splits)
qed

lemma recv_queue:
  assumes "map_of (uh_socks h) fd = Some s" "so_queue s = (d, src) # q" "int (length d) \<le> n"
  shows "sock_recvfrom h fd n = (Some (Inr (d, src)), sock_put fd (s\<lparr>so_queue := q\<rparr>) h)"
  using assms by (simp add: sock_recvfrom_def sock_get_def)

section \<open>The loopback test\<close>

lemma valid_datagram_small:
  assumes "build_datagram h p t = Inr d" "validate_header h = []"
  shows "int (length d) \<le> 2048"
proof -
  from assms obtain hb where "pack_header h = Inr hb" "d = hb @ p @ t" "int (length p) \<le> MAX_PAYLOAD_BYTES"
    "int (length t) = DEFAULT_TAG_LENGTH"
    by (auto simp: build_datagram_def bind_r_eq_Inr validate_header_Nil_iff split: if_splits)
  then show ?thesis
    using pack_header_length by (simp add: osv_consts)
qed

definition packet_sent :: "packet_header \<times> bytes \<Rightarrow> bytes \<Rightarrow> bool" where
  "packet_sent hp d \<longleftrightarrow> validate_header (fst hp) = [] \<and>
     build_datagram (fst hp) (snd hp) (replicate (nat DEFAULT_TAG_LENGTH) 0) = Inr d"

lemma loopback_turns:
  assumes "map_of (uh_socks h) rx = Some s" "so_queue s = map (\<lambda>d. (d, src)) ds" "list_all2 packet_sent ps ds"
  shows "fst (run_outs (loopback_turn rx) (h, r) (replicate (length ps) 2048)) =
     map Some (fst (run_outs push_packet r ps))"
  using assms(3,1,2)
proof (induction ps ds arbitrary: h s r rule: list_all2_induct)
  case Nil
  then show ?case by simp
next
  case (Cons hp ps d ds)
  let ?s = "s\<lparr>so_queue := map (\<lambda>d. (d, src)) ds\<rparr>"
  have hp: "split_datagram d = Inr (fst hp, snd hp, replicate (nat DEFAULT_TAG_LENGTH) 0)"
    "validate_header (fst hp) = []" "int (length d) \<le> 2048"
    using Cons.hyps(1) split_build valid_datagram_small by (auto simp: packet_sent_def)
  then have turn: "loopback_turn rx (h, r) 2048 =
      (Some (fst (push_packet r hp)), sock_put rx ?s h, snd (push_packet r hp))"
    using recv_queue [OF Cons.prems(1), of d src "map (\<lambda>d. (d, src)) ds" 2048] Cons.prems(2)
    by (simp add: loopback_turn_def udp_rx_recv_def push_packet_def split: prod.splits)
  show ?case
    using Cons.IH [of "sock_put rx ?s h" ?s "snd (push_packet r hp)"] by (simp add: turn)
qed

lemma rx_init_ok:
  assumes "udp_rx_init os h p ip b t = (Inr rx, h1)" "p \<noteq> 0"
  shows "rx = uh_next h \<and> (\<exists>s. map_of (uh_socks h1) rx = Some s \<and> so_addr s = (ip, p) \<and> \<not> so_reuse s \<and>
     so_queue s = []) \<and> uh_next h1 = uh_next h + 1"
  using assms
  by (auto simp: udp_rx_init_def sock_open_def abandon_def then_h_def sock_bind_def sock_settimeout_def sock_get_def
      sock_put_def new_socket_def split: sum.splits prod.splits option.splits if_splits)

lemma os_port_pos: "os_spec os \<Longrightarrow> os_port os h = Some p \<Longrightarrow> p \<noteq> 0"
  by (auto simp: os_spec_def)

lemma tx_init_ok:
  assumes "udp_tx_init os h tip tp ip b = (Inr tx, h1)" "os_spec os"
  shows "utx_target tx = (tip, tp) \<and> utx_sock tx = uh_next h \<and>
     (\<exists>p. p \<noteq> 0 \<and> map_of (uh_socks h1) = (map_of (uh_socks h))(utx_sock tx \<mapsto> new_socket\<lparr>so_addr := (ip, p)\<rparr>))"
  using assms(1)
  by (auto simp: udp_tx_init_def sock_open_def abandon_def then_h_def sock_bind_def sock_get_def new_socket_def
      split: sum.splits prod.splits option.splits if_splits dest: os_port_pos [OF assms(2)])

lemma inits_linked:
  assumes os: "os_spec os" and inv: "host_inv h"
    and rx: "udp_rx_init os h port rip rbuf tmo = (Inr rx, h1)"
    and tx: "udp_tx_init os h1 ip port tip sbuf = (Inr tx, h2)"
    and addr: "reachable os (ip, port)" "rip = fst (dst_addr (ip, port)) \<or> rip = any_ip"
  shows "\<exists>src. linked os (utx_sock tx) (ip, port) rx h2 src [] \<and> utx_target tx = (ip, port)"
proof -
  have "port \<noteq> 0" using addr(1) by (simp add: reachable_def)
  from rx_init_ok [OF rx this] obtain s where s: "map_of (uh_socks h1) rx = Some s" "so_addr s = (rip, port)"
    "\<not> so_reuse s" "so_queue s = []" and fd: "rx < uh_next h1" by auto
  from tx_init_ok [OF tx os] obtain p where t: "utx_target tx = (ip, port)" "utx_sock tx = uh_next h1" "p \<noteq> 0"
    "map_of (uh_socks h2) = (map_of (uh_socks h1))(utx_sock tx \<mapsto> new_socket\<lparr>so_addr := (tip, p)\<rparr>)" by auto
  have "host_inv h2"
    using host_inv_tx_init [OF os, of h1] host_inv_rx_init [OF os inv] rx tx by (metis snd_conv)
  then show ?thesis
    using s fd t addr(2) by (auto simp: linked_def dst_addr_def)
qed

section \<open>Errors\<close>

text \<open>
  A second \<^verbatim>\<open>UdpRx\<close> on a port that is taken raises \<^verbatim>\<open>OSError\<close> and leaves no socket behind, whatever the other socket
  allows, because the wrapper does not set the reuse option.
\<close>

lemma delete_fresh: "k \<notin> fst ` set xs \<Longrightarrow> AList.delete k xs = xs"
  by (induction xs) auto

lemma rx_port_taken:
  assumes inv: "host_inv h" and taken: "map_of (uh_socks h) fd = Some s" "collides (ip, p) (so_addr s)"
    and "port_ok p"
  shows "fst (udp_rx_init os h p ip b t) = Inl OSError \<and> uh_socks (snd (udp_rx_init os h p ip b t)) = uh_socks h"
proof -
  let ?h = "snd (sock_open h)"
  have "uh_next h \<notin> fst ` set (uh_socks h)" using inv by (auto simp: host_inv_def)
  moreover from this have "map_of (uh_socks ?h) fd = Some s" using taken(1)
    by (auto simp: sock_open_def dest!: map_of_SomeD intro: rev_image_eqI)
  moreover have "p \<noteq> 0" using taken(2) by (simp add: collides_def)
  moreover have "in_use ?h new_socket (ip, p)"
    using taken by (auto simp: in_use_def sock_open_def list_ex_iff new_socket_def dest!: map_of_SomeD)
  ultimately show ?thesis
    using \<open>port_ok p\<close>
    by (auto simp: udp_rx_init_def sock_open_def abandon_def then_h_def sock_bind_def sock_get_def sock_close_def
        new_socket_def delete_fresh split: sum.splits prod.splits)
qed

text \<open>A buffer shorter than the datagram cuts it without an error; the cut datagram does not parse.\<close>

lemma recv_cut:
  assumes "map_of (uh_socks h) fd = Some s" "so_queue s = (d, src) # q" "build_datagram ph p t = Inr d"
    and "0 \<le> n" "n < int (length d)"
  shows "fst (udp_rx_recv fd h n) = Some (Inr (take (nat n) d, src)) \<and> split_datagram (take (nat n) d) = Inl ValueError"
proof -
  from assms(3) obtain hb where hb: "pack_header ph = Inr hb" "d = hb @ p @ t"
    and len: "nat (payload_length ph) = length p" "nat (tag_length ph) = length t"
    by (auto simp: build_datagram_def bind_r_eq_Inr split: if_splits)
  have "length hb = HEADER_SIZE_BYTES" using pack_header_length [OF hb(1)] .
  then have "split_datagram (take (nat n) d) = Inl ValueError"
    using len assms(4,5) hb unpack_pack_append [OF hb(1), of "take (nat n - HEADER_SIZE_BYTES) (p @ t)"]
    by (cases "nat n < HEADER_SIZE_BYTES") (auto simp: split_datagram_def unpack_header_def Let_def)
  then show ?thesis using assms by (simp add: udp_rx_recv_def sock_recvfrom_def sock_get_def)
qed

section \<open>Properties\<close>

lemma tx_sends_linked:
  assumes "linked os (utx_sock tx) a rx h src []" and "utx_target tx = a" and "reachable os a" and "\<And>d. d \<in> set ds \<Longrightarrow> length d \<le> 2048"
  shows "\<exists>h3 bs. run_outs (udp_tx_send os tx) h ds = (map (\<lambda>d. Inr (int (length d))) ds, h3) \<and> length bs = length ds \<and>
     (os_holds os (length ds) \<longrightarrow> bs = replicate (length ds) True) \<and>
     linked os (utx_sock tx) a rx h3 src (map (\<lambda>d. (d, src)) (marked bs ds))"
proof -
  have "udp_tx_send os tx = (\<lambda>h d. sock_sendto os h (utx_sock tx) d a)"
    using assms(2) by (simp add: udp_tx_send_def fun_eq_iff)
  moreover obtain bs where "length bs = length ds"
    "fst (run_outs (\<lambda>h d. sock_sendto os h (utx_sock tx) d a) h ds) = map (\<lambda>d. Inr (int (length d))) ds"
    "linked os (utx_sock tx) a rx (snd (run_outs (\<lambda>h d. sock_sendto os h (utx_sock tx) d a) h ds)) src
       (map (\<lambda>d. (d, src)) (marked bs ds))"
    "os_holds os (length ds) \<longrightarrow> bs = replicate (length ds) True"
    using sends_linked [OF assms(1,3), of ds] assms(4) by auto
  ultimately show ?thesis by (metis prod.collapse)
qed

text \<open>
  C14. The loopback test, for every frame and with loss. A \<^verbatim>\<open>UdpRx\<close> bound to a port of the host and a \<^verbatim>\<open>UdpTx\<close> aimed at it, from
  any state of the host; datagrams with valid headers and zero tags are sent and then received with the default buffer.
  Every send returns the length of its datagram, also when the receive queue has no room and the datagram is lost; the
  receiver's queue then has exactly the datagrams that were kept. Whatever is lost, the receiving loop returns what the reassembler returns for the packets that were kept, in the
  order of sending. If the queue holds as many datagrams as are sent, none is lost; then a frame \<open>k\<close> whose segments are
  among them, in any order, with repeats and mixed with other frames that fit the reassembler, is returned whole
  at the packet that completes it.
\<close>

theorem udp_loopback_delivers:
  assumes os: "os_spec os" and inv: "host_inv h"
    and rx: "udp_rx_init os h port rip rbuf tmo = (Inr rx, h1)"
    and tx: "udp_tx_init os h1 ip port tip sbuf = (Inr tx, h2)"
    and addr: "reachable os (ip, port)" "rip = fst (dst_addr (ip, port)) \<or> rip = any_ip"
    and sent: "list_all2 packet_sent (pre @ [hp]) ds"
    and pk: "frame_packets k n F (pre @ [hp])" "header_key (fst hp) = k"
    and ids: "frame_ids k (pre @ [hp]) = {0..<n}" "segment_id (fst hp) \<notin> frame_ids k pre"
    and cap: "int (card (packet_keys (pre @ [hp]))) \<le> m"
  shows "\<exists>h3 bs. run_outs (udp_tx_send os tx) h2 ds = (map (\<lambda>d. Inr (int (length d))) ds, h3) \<and> length bs = length ds \<and>
     (\<exists>sr. map_of (uh_socks h3) rx = Some sr \<and> map fst (so_queue sr) = marked bs ds) \<and>
     fst (run_outs (loopback_turn rx) (h3, reassembler_init m) (replicate (length (marked bs ds)) 2048)) =
       map Some (fst (run_outs push_packet (reassembler_init m) (marked bs (pre @ [hp])))) \<and>
     (os_holds os (length ds) \<longrightarrow> bs = replicate (length ds) True \<and>
        (\<exists>outs. fst (run_outs (loopback_turn rx) (h3, reassembler_init m) (replicate (length ds) 2048)) =
           outs @ [Some (Inr (Some (concat (map F [0..n - 1]))))]))"
proof -
  obtain src where l: "linked os (utx_sock tx) (ip, port) rx h2 src []" and t: "utx_target tx = (ip, port)"
    using inits_linked [OF os inv rx tx addr] by blast
  have small: "length d \<le> 2048" if "d \<in> set ds" for d
    using that sent by (force simp: packet_sent_def in_set_conv_nth list_all2_conv_all_nth dest: valid_datagram_small)
  have len: "length ds = length (pre @ [hp])" using list_all2_lengthD [OF sent] by simp
  obtain h3 bs where s: "run_outs (udp_tx_send os tx) h2 ds = (map (\<lambda>d. Inr (int (length d))) ds, h3)"
    and bs: "length bs = length ds" "os_holds os (length ds) \<longrightarrow> bs = replicate (length ds) True"
    and q: "linked os (utx_sock tx) (ip, port) rx h3 src (map (\<lambda>d. (d, src)) (marked bs ds))"
    using tx_sends_linked [OF l t addr(1)] small by metis
  from q obtain sr where sr: "map_of (uh_socks h3) rx = Some sr" "so_queue sr = map (\<lambda>d. (d, src)) (marked bs ds)"
    by (auto simp: linked_def)
  have kept: "list_all2 packet_sent (marked bs (pre @ [hp])) (marked bs ds)"
    using list_all2_marked [OF sent] bs(1) len by simp
  have turns: "fst (run_outs (loopback_turn rx) (h3, reassembler_init m) (replicate (length (marked bs ds)) 2048)) =
      map Some (fst (run_outs push_packet (reassembler_init m) (marked bs (pre @ [hp]))))"
    using loopback_turns [OF sr kept] list_all2_lengthD [OF kept] by metis
  have "0 \<le> m" using cap by linarith
  then have push: "fst (run_outs push_packet (reassembler_init m) (pre @ [hp])) ! length pre =
      Inr (Some (concat (map F [0..n - 1])))"
    using push_delivery [OF reassembler_init_inv _ pk(1,2) ids] cap
    by (simp add: reassembler_init_def pending_keys_def)
  have "\<exists>outs. fst (run_outs (loopback_turn rx) (h3, reassembler_init m) (replicate (length ds) 2048)) =
      outs @ [Some (Inr (Some (concat (map F [0..n - 1]))))]" if "bs = replicate (length ds) True"
  proof -
    have "marked bs ds = ds" "marked bs (pre @ [hp]) = pre @ [hp]" using that len marked_all by metis+
    with turns push show ?thesis by (simp add: run_outs_append nth_append)
  qed
  moreover have "map fst (so_queue sr) = marked bs ds" using sr(2) by (simp add: comp_def)
  ultimately show ?thesis using s bs turns sr(1) by blast
qed

definition demo_os :: udp_os where
  "demo_os = \<lparr>os_may_bind = (\<lambda>_. True),
     os_port = (\<lambda>h. let p = foldr (\<lambda>(_, s) m. max (snd (so_addr s)) m) (uh_socks h) 49151 + 1
                    in if p < 2 ^ 16 then Some p else None),
     os_local = (\<lambda>ip. ip = ''127.0.0.1''), os_route = (\<lambda>_. True),
     os_room = (\<lambda>s d. length (so_queue s) < 100 \<and> length d \<le> 4096)\<rparr>"

lemma foldr_max_ge:
  fixes xs :: "(nat \<times> udp_socket) list"
  shows "b \<le> foldr (\<lambda>(_, s) m. max (snd (so_addr s)) m) xs b \<and>
    (\<forall>(fd, s) \<in> set xs. snd (so_addr s) \<le> foldr (\<lambda>(_, s) m. max (snd (so_addr s)) m) xs b)"
  by (induction xs) (auto simp: le_max_iff_disj)

lemma demo_os_spec: "os_spec demo_os"
proof -
  have "0 < p \<and> p < 2 ^ 16 \<and> list_all (\<lambda>(_, t). snd (so_addr t) \<noteq> p) (uh_socks h)"
    if "os_port demo_os h = Some p" for h p
    using that foldr_max_ge [of 49151 "uh_socks h"]
    by (fastforce simp: demo_os_def Let_def list_all_iff split: if_splits)
  then show ?thesis by (simp add: os_spec_def)
qed

definition demo_packet :: "int \<Rightarrow> packet_header \<times> bytes" where
  "demo_packet i = (default_header\<lparr>segment_id := i, segment_count := 2, payload_length := 1, payload_type := PAYLOAD_TYPE_RAW_RGB\<rparr>, [word_of_int (i + 10)])"

definition demo_packet_bytes :: "int \<Rightarrow> bytes" where
  "demo_packet_bytes i =
     (case build_datagram (fst (demo_packet i)) (snd (demo_packet i)) (replicate (nat DEFAULT_TAG_LENGTH) 0) of
        Inr d \<Rightarrow> d | Inl _ \<Rightarrow> [])"

lemma demo_packets_sent: "packet_sent (demo_packet 0) (demo_packet_bytes 0)" "packet_sent (demo_packet 1) (demo_packet_bytes 1)"
  by code_simp+

definition demo_rx_host :: udp_host where
  "demo_rx_host = snd (udp_rx_init demo_os empty_host 5600 ''127.0.0.1'' None (Some 1))"

definition demo_tx :: udp_tx where
  "demo_tx = \<lparr>utx_sock = 1, utx_target = (''127.0.0.1'', 5600)\<rparr>"

definition demo_tx_host :: udp_host where
  "demo_tx_host = snd (udp_tx_init demo_os demo_rx_host ''127.0.0.1'' 5600 ''127.0.0.1'' None)"

lemma demo_rx_opens: "udp_rx_init demo_os empty_host 5600 ''127.0.0.1'' None (Some 1) = (Inr 0, demo_rx_host)"
proof -
  have "fst (udp_rx_init demo_os empty_host 5600 ''127.0.0.1'' None (Some 1)) = Inr 0" by code_simp
  then show ?thesis by (simp add: demo_rx_host_def prod_eq_iff)
qed

lemma demo_tx_opens: "udp_tx_init demo_os demo_rx_host ''127.0.0.1'' 5600 ''127.0.0.1'' None = (Inr demo_tx, demo_tx_host)"
proof -
  have "fst (udp_tx_init demo_os demo_rx_host ''127.0.0.1'' 5600 ''127.0.0.1'' None) = Inr demo_tx" by code_simp
  then show ?thesis by (simp add: demo_tx_host_def prod_eq_iff)
qed

theorem udp_loopback_delivers_witness:
  "\<exists>h3 outs. run_outs (udp_tx_send demo_os demo_tx) demo_tx_host [demo_packet_bytes 1, demo_packet_bytes 0] =
       (map (\<lambda>d. Inr (int (length d))) [demo_packet_bytes 1, demo_packet_bytes 0], h3) \<and>
     fst (run_outs (loopback_turn 0) (h3, reassembler_init 4) (replicate 2 2048)) = outs @ [Some (Inr (Some [10, 11]))]"
proof -
  let ?F = "\<lambda>i::int. [word_of_int (i + 10)] :: bytes"
  have 1: "reachable demo_os (''127.0.0.1'', 5600)" by code_simp
  have 2: "list_all2 packet_sent ([demo_packet 1] @ [demo_packet 0]) [demo_packet_bytes 1, demo_packet_bytes 0]"
    using demo_packets_sent by simp
  have 3: "frame_packets (0, 0, 0) 2 ?F ([demo_packet 1] @ [demo_packet 0])" "header_key (fst (demo_packet 0)) = (0, 0, 0)"
    "frame_ids (0, 0, 0) ([demo_packet 1] @ [demo_packet 0]) = {0..<2}"
    "segment_id (fst (demo_packet 0)) \<notin> frame_ids (0, 0, 0) [demo_packet 1]"
    "int (card (packet_keys ([demo_packet 1] @ [demo_packet 0]))) \<le> 4"
    by (auto simp: frame_packets_def frame_ids_def packet_keys_def demo_packet_def header_key_def default_header_def)
  have 4: "os_holds demo_os 2" by (simp add: os_holds_def demo_os_def)
  have 5: "concat (map ?F [0..2 - 1]) = [10, 11]" by (simp add: upto.simps)
  from udp_loopback_delivers [OF demo_os_spec empty_host_inv demo_rx_opens demo_tx_opens 1 _ 2 3] 4 5
  show ?thesis by (auto simp: dst_addr_def any_ip_def numeral_2_eq_2)
qed

end
