(* ===== verification/Telemetry.thy ===== *)
theory Telemetry
  imports Py_Prelude
begin

text \<open>
  \<^verbatim>\<open>TelemetryCounters\<close> of \<^verbatim>\<open>pc/runtime/telemetry.py\<close> and \<^verbatim>\<open>pynq/runtime/telemetry.py\<close>, and the two skeletons
  \<^verbatim>\<open>pc/runtime/source_capture.py\<close> and \<^verbatim>\<open>pc/runtime/sink_display.py\<close>, whose only working operation is
  \<^verbatim>\<open>close\<close>. \<^verbatim>\<open>asdict\<close> gives a new dictionary in the order of the fields.

  The lemmas show that a snapshot determines the counters and that every counter of the PC is one of the
  board's, so that the two kinds of snapshot can be read by one consumer.
\<close>

section \<open>Counters\<close>

record telemetry_counters =
  packets_rx :: int
  packets_tx :: int
  packets_dropped :: int
  decrypt_failures :: int
  frames_completed :: int
  frames_dropped_late :: int
  reorder_events :: int

definition telemetry_init :: telemetry_counters where
  "telemetry_init = \<lparr>packets_rx = 0, packets_tx = 0, packets_dropped = 0, decrypt_failures = 0,
     frames_completed = 0, frames_dropped_late = 0, reorder_events = 0\<rparr>"

definition telemetry_snapshot :: "telemetry_counters \<Rightarrow> (string \<times> int) list" where
  "telemetry_snapshot c =
     [(''packets_rx'', packets_rx c), (''packets_tx'', packets_tx c), (''packets_dropped'', packets_dropped c),
      (''decrypt_failures'', decrypt_failures c), (''frames_completed'', frames_completed c),
      (''frames_dropped_late'', frames_dropped_late c), (''reorder_events'', reorder_events c)]"

record board_counters =
  bc_packets_rx :: int
  bc_packets_tx :: int
  bc_packets_dropped :: int
  bc_decrypt_failures :: int
  bc_frames_completed :: int
  bc_frames_captured :: int
  bc_frames_rendered :: int
  bc_frames_dropped_late :: int
  bc_capture_failures :: int
  bc_render_failures :: int
  bc_reorder_events :: int

definition board_telemetry_init :: board_counters where
  "board_telemetry_init = \<lparr>bc_packets_rx = 0, bc_packets_tx = 0, bc_packets_dropped = 0, bc_decrypt_failures = 0,
     bc_frames_completed = 0, bc_frames_captured = 0, bc_frames_rendered = 0, bc_frames_dropped_late = 0,
     bc_capture_failures = 0, bc_render_failures = 0, bc_reorder_events = 0\<rparr>"

definition board_telemetry_snapshot :: "board_counters \<Rightarrow> (string \<times> int) list" where
  "board_telemetry_snapshot c =
     [(''packets_rx'', bc_packets_rx c), (''packets_tx'', bc_packets_tx c), (''packets_dropped'', bc_packets_dropped c),
      (''decrypt_failures'', bc_decrypt_failures c), (''frames_completed'', bc_frames_completed c),
      (''frames_captured'', bc_frames_captured c), (''frames_rendered'', bc_frames_rendered c),
      (''frames_dropped_late'', bc_frames_dropped_late c), (''capture_failures'', bc_capture_failures c),
      (''render_failures'', bc_render_failures c), (''reorder_events'', bc_reorder_events c)]"

section \<open>Skeletons\<close>

record source_capture =
  scc_width :: int
  scc_height :: int
  scc_fps :: int
  scc_pixel_format :: string

definition source_frames :: "source_capture \<Rightarrow> bytes list result" where
  "source_frames c = Inl NotImplementedError"

definition source_close :: "source_capture \<Rightarrow> unit result" where
  "source_close c = Inr ()"

record sink_display =
  sdc_width :: int
  sdc_height :: int
  sdc_pixel_format :: string

definition render_frame :: "sink_display \<Rightarrow> bytes \<Rightarrow> unit result" where
  "render_frame c frame_bytes = Inl NotImplementedError"

definition sink_close :: "sink_display \<Rightarrow> unit result" where
  "sink_close c = Inr ()"

section \<open>Lemmas\<close>

lemma snapshot_determines: "telemetry_snapshot c = telemetry_snapshot c' \<longleftrightarrow> c = c'"
  by (auto simp: telemetry_snapshot_def)

lemma board_snapshot_determines: "board_telemetry_snapshot c = board_telemetry_snapshot c' \<longleftrightarrow> c = c'"
  by (auto simp: board_telemetry_snapshot_def)

lemma snapshot_keys:
  "distinct (map fst (telemetry_snapshot c))" "distinct (map fst (board_telemetry_snapshot b))"
  "set (map fst (telemetry_snapshot c)) \<subseteq> set (map fst (board_telemetry_snapshot b))"
  by (simp_all add: telemetry_snapshot_def board_telemetry_snapshot_def)

end
