(* ===== verification/Spec2Isabelle.thy ===== *)
theory Spec2Isabelle
  imports Programs Recovery Attacker Startup Tx_Pacing Tx_Daemon Freq_Sweep Live_Programs Config_Loader Hdmi_Capture Vtc Reg_Dump Udp_Net Telemetry
begin

text \<open>
  A verification development for OS-VideoSDR: encrypted video over UDP between a PYNQ board and a PC.

  \<^bold>\<open>The program.\<close> The board segments video frames, seals each segment with AES-256-GCM under a counter
  nonce and sends one datagram per segment; the PC authenticates, filters nonces, reassembles and shows the
  frames. Two wire formats exist: the OSV datagram (clear 40-byte header, ciphertext, tag; built by the
  Python sender) and the PL slot (1408 bytes: 8-byte counter, encrypted header and payload, tag, zero padding;
  built by the programmable logic). The Python code configures the logic through register drivers. Around
  the main receiver there are single-purpose receivers and tag checkers.

  \<^bold>\<open>The theories\<close>, each with the source it models:
  \<^item> \<open>Py_Prelude\<close>: Python values and errors used by the code (results, big-endian integers, \<^verbatim>\<open>struct\<close>
    formats, slices, \<^verbatim>\<open>bytes.fromhex\<close>, dictionaries as association lists in insertion order), and the
    locale \<open>invariant_machine\<close>.
  \<^item> \<open>Packet_Schema\<close>: \<^verbatim>\<open>protocol/constants.py\<close>, \<^verbatim>\<open>protocol/packet_schema.py\<close>. The codec is exact in both
    directions.
  \<^item> \<open>Validation\<close>: \<^verbatim>\<open>protocol/validation.py\<close>.
  \<^item> \<open>Reassembly\<close>: \<^verbatim>\<open>pc/runtime/reassembly.py\<close> and its copy under \<^verbatim>\<open>pynq/\<close>. The dictionary of pending frames
    refines a map specification; delivery in any order with duplicates; provenance of delivered frames; bound.
  \<^item> \<open>Nonce_Validator\<close>: \<^verbatim>\<open>NonceValidator\<close> of \<^verbatim>\<open>pc/runtime/main_rx.py\<close>. The pruned dictionary decides like the
    filter that never forgets; no replay; exact accounting.
  \<^item> \<open>Config_Loader\<close>: \<^verbatim>\<open>config_loader.py\<close> on parsed YAML documents. Every field of the result with its section, key
    and default; typed documents give typed configurations; which documents raise.
  \<^item> \<open>Board_Import\<close>: the search of files and of the board's \<^verbatim>\<open>pynq\<close> package, which the repository's own package
    shadows; four modules carry copies. \<^verbatim>\<open>sys.path\<close> is always restored, and the board package is found.
  \<^item> \<open>Aes_Dma\<close>: \<^verbatim>\<open>pynq/runtime/aes_gcm_dma.py\<close>, a register driver over an arbitrary device, whose DMA calls may raise
    and whose two DMA waits may not return. Polling loops are \<open>partial_function (option)\<close>; they end because no clock value is
    read forever, while the DMA waits have no timeout and their return is a condition. The commands of an encryption are exact.
  \<^item> \<open>Crypto\<close>: \<^verbatim>\<open>pynq/runtime/crypto.py\<close>, \<^verbatim>\<open>pc/runtime/aes_gcm_sw.py\<close> over the two calls of \<^verbatim>\<open>AESGCM\<close>, which
    are parameters with the documented round trip as the hypothesis \<open>aesgcm_spec\<close>; the locale
    \<open>sealed_channel\<close> is the contract sender and receiver share.
  \<^item> \<open>Tx_Source\<close>, \<open>Tx_Main\<close>: \<^verbatim>\<open>pynq/runtime/main.py\<close>: segmentation, nonces, headers, both frame sources and
    \<^verbatim>\<open>run_tx\<close>. \<open>Tx_Pacing\<close> adds the clock to the send loops: they send the same, and never faster than the frame rate.
  \<^item> \<open>Rx_Main\<close>: \<^verbatim>\<open>pc/runtime/main_rx.py\<close>: padding, format detection, the whole receive turn, the loop and
    \<^verbatim>\<open>main\<close>. Authenticity of shown frames, strict mode, no exception, and two behaviours that differ from
    the documents (replayed packets are shown by default; a clear-header datagram of slot size is dropped).
  \<^item> \<open>Recovery\<close>: the same loop after arbitrary traffic. In the default mode the next frame that arrives together
    is shown; in strict mode one forged datagram locks the receiver.
  \<^item> \<open>Attacker\<close>: sender and receiver as a step relation with an attacker who reads every datagram and delivers whatever it
    likes, except a forgery. In every reachable state the shown frames are sent frames; in strict mode they are a
    subsequence of them.
  \<^item> \<open>Hdmi_Capture\<close>: \<^verbatim>\<open>pynq/runtime/hdmi_capture.py\<close>, \<^verbatim>\<open>pynq/runtime/preflight_hdmi_check.py\<close>. Frames of the expected
    size; the order of start, frames, releases and stop in a session that is closed, wherever the board raises.
  \<^item> \<open>Display\<close>: \<^verbatim>\<open>pc/runtime/video_io.py\<close>, \<^verbatim>\<open>pc/runtime/tx_daemon_rx_test.py\<close>. One picture per frame with working
    libraries, and no exception without them.
  \<^item> \<open>End_To_End\<close>, \<open>Programs\<close> and this theory: sender and receiver composed, \<open>Programs\<close> from the configuration files and
    the HDMI input on one side to the window on the other. \<open>Startup\<close> is what the two files do before \<^verbatim>\<open>main\<close>: the search of
    the configuration loader and the imports with those of the files they load, which a sender run as a plain file
    cannot finish.
  \<^item> \<open>Udp_Net\<close>: \<^verbatim>\<open>pc/runtime/udp_rx.py\<close>, \<^verbatim>\<open>pc/runtime/udp_tx.py\<close>, \<^verbatim>\<open>pynq/runtime/transport.py\<close> on a host with sockets
    whose receive queues may be full. No two sockets take each other's datagrams; the loopback test holds for every frame, and with
    loss for the packets that were kept.
  \<^item> \<open>Seq_Ctrl\<close>: \<^verbatim>\<open>pynq/runtime/aes_seq_ctrl.py\<close>; \<open>Tx_Daemon\<close>: \<^verbatim>\<open>pynq/runtime/tx_daemon.py\<close>. Register layouts,
    the enable bit over every command sequence, the start-up gate.
  \<^item> \<open>Vtc\<close>: \<^verbatim>\<open>pynq/runtime/vtc_status.py\<close>, \<^verbatim>\<open>pynq/runtime/vtc_read.py\<close>; \<open>Reg_Dump\<close>: \<^verbatim>\<open>pynq/runtime/rd_dbg.py\<close> and the tools
    \<^verbatim>\<open>set_attr.py\<close>, \<^verbatim>\<open>video_check.py\<close> of \<^verbatim>\<open>pynq/ps_shim/tools\<close>. Read-only diagnostics that touch only what they may, the
    exact comparison of snapshots, and agreement of the dump with the driver.
  \<^item> \<open>Ghash\<close>: \<^verbatim>\<open>pc/runtime/tag_ladder_monitor.py\<close>; \<open>Freq_Sweep\<close>: \<^verbatim>\<open>pc/runtime/freq_sweep.py\<close>. The bit-serial product is the
    product of a commutative ring; GHASH is a polynomial in the key; the expected tag uses a stale length;
    the sweep counts like the monitor and sends the board a fixed sequence of commands.
  \<^item> \<open>Rx_Tools\<close>: \<^verbatim>\<open>pc/runtime/rx_lossless.py\<close>, \<^verbatim>\<open>pc/runtime/rx_snapshot.py\<close>; \<open>Rx_Live\<close>:
    \<^verbatim>\<open>pc/runtime/rx_record.py\<close>, \<^verbatim>\<open>pc/runtime/rx_display.py\<close>. Totality, exact counters, complete pictures from
    segments in any order, and the cases where the fill count and the segment map go wrong. \<open>Live_Programs\<close> has the
    recorder and the display as whole programs: command line, writer, clock, periodic lines and report, with bounds
    on what they write, draw and print in a given time and on the time between two lines.
  \<^item> \<open>Telemetry\<close>: the counters of \<^verbatim>\<open>telemetry.py\<close> on both sides and the two skeletons under \<^verbatim>\<open>pc/runtime\<close>.

  \<^bold>\<open>Conventions.\<close> Python integers are \<open>int\<close>; bytes are lists of 8-bit words; register values are integers masked
  as the code masks them. An exception is a value \<open>Inl e\<close>, and a handler returns the state it leaves
  behind also when it raises. A device is a pair of read and write functions on an arbitrary state. A socket is
  the list of what it delivers; when such a list ends a receive loop is still waiting, or its time is over.
  A clock is part of the device, or its answers are inputs of a turn. Loops over received data are
  structural, the nonce and eviction loops have measures, and the polling loops are proved to return
  when no clock value is read forever. The only fuel is the interpreter's recursion limit for nested imports in
  \<open>Startup\<close>, an argument; the repository's files need two levels.

  \<^bold>\<open>Not modelled.\<close> The text of printed lines, the parsing of \<^verbatim>\<open>argparse\<close> beyond its defaults, and the idle sleeps of the
  receivers and the daemon. What belongs to other packages is a parameter: the YAML parser, the AES
  block cipher and \<^verbatim>\<open>AESGCM\<close>, NumPy and OpenCV, the overlay and its devices, the operating system's choices
  for sockets, the board behind ssh. The package initialisers hold export lists only. The user-space shim is C++, the
  overlay is a hardware design, and the scripts and tests are not part of the running system (the loopback
  test apart, whose receiving loop is \<open>loopback_turn\<close>).
\<close>

section \<open>Properties that span sender and receiver\<close>

text \<open>
  C2. End to end. \<^verbatim>\<open>run_tx\<close> with the synthetic source and the software cipher, followed by \<^verbatim>\<open>main\<close> of the
  receiver on exactly the datagrams it sent, in that order, under the same key and key id: the
  sender finishes without an error, and the receiver stops at its frame limit having shown
  every synthetic frame once, in order and byte for byte, with no datagram dropped, in the strict and
  in the default nonce mode. The only facts used of the cipher are those of \<open>aesgcm_spec\<close>.
\<close>

theorem end_to_end_synthetic:
  assumes "tx_setup_ok b args kid key" and "txa_source args \<noteq> ''hdmi''"
    and "tx_env_ok env" and "aesgcm_spec (te_enc env) dec"
    and "txa_frames args \<le> 2 ^ 32"
    and "\<forall>fid \<in> set [0..txa_frames args - 1]. sendable args (synthetic_frame (txa_frame_bytes args) fid)"
    and "rxa_key_hex rargs = txa_key_hex args" and "rxa_max_frames rargs = txa_frames args"
    and "0 \<le> txa_frames args" and "rxa_display_mode rargs \<in> {''opencv'', ''headless''}"
    and "rxc_key_id cfg = kid"
  shows "\<exists>s r. run_tx env b args kid hdmi (Inr ()) d = Some (Inr (), s) \<and>
     rx_main dec True (Inr cfg) rargs (map Datagram (tx_sent s)) = Inr (RxDone, r) \<and>
     rx_shown r = map (synthetic_frame (txa_frame_bytes args)) [0..txa_frames args - 1] \<and>
     rx_dropped r = 0"
proof -
  let ?fs = "synthetic_frames args"
  have key: "bytes_fromhex (rxa_key_hex rargs) = Inr key" "length key = 32" "0 < kid" "kid < 256"
    using assms(1,7) by (simp_all add: tx_setup_ok_def tx_args_ok_def)
  have ok: "\<forall>(f, fid) \<in> set ?fs. sendable args f \<and> 0 \<le> fid \<and> fid < 2 ^ 32"
    using assms(5,6) by (auto simp: synthetic_frames_def)
  have len: "length ?fs \<le> 2 ^ 32" "int (length ?fs) = txa_frames args"
    using assms(5,9) by (simp_all add: synthetic_frames_def nat_le_iff)
  obtain c where c: "sw_ready key c" "run_tx env b args kid hdmi (Inr ()) d =
     map_option (\<lambda>(r, s). (r, s\<lparr>tx_crypto := adapter_close (tx_crypto s)\<rparr>))
       (tx_frames env args kid ?fs (tx_start d c))"
    using run_tx_loops [OF assms(1), of hdmi _ env d] assms(2) by auto
  obtain s r where t: "tx_frames env args kid ?fs (tx_start d c) = Some (Inr (), s)"
    and l: "rx_loop dec \<lparr>sw_key = key\<rparr> (rxa_strict_nonce rargs) kid (int (length ?fs))
       (rx_init (rxa_strict_nonce rargs) (rxc_replay_window cfg)) (map Datagram (tx_sent s)) = (RxDone, r)"
    and r: "rx_shown r = map fst ?fs" "rx_dropped r = 0"
    using programs_transfer [OF assms(1,3,4) ok len(1) c(1)] by blast
  let ?s = "s\<lparr>tx_crypto := adapter_close (tx_crypto s)\<rparr>"
  have "rx_main dec True (Inr cfg) rargs (map Datagram (tx_sent ?s)) = Inr (RxDone, r)"
    using rx_main_loop [OF key(1,2), of cfg] key(3,4) assms(8,10,11) l len(2) by simp
  then show ?thesis
    using c(2) t r by (intro exI [of _ ?s] exI [of _ r]) (simp add: synthetic_frames_def comp_def)
qed

theorem end_to_end_synthetic_witness:
  "\<exists>s r. run_tx demo_env demo_board (demo_tx_args ''synthetic'') 1 (Inl RuntimeError) (Inr ()) () = Some (Inr (), s) \<and>
     rx_main demo_dec True (Inr \<lparr>rxc_key_id = 1, rxc_replay_window = 1024\<rparr>) (demo_rx_args True) (map Datagram (tx_sent s))
       = Inr (RxDone, r) \<and>
     rx_shown r = map (synthetic_frame 5) [0..1] \<and> rx_dropped r = 0"
proof -
  obtain key where key: "bytes_fromhex demo_hex = Inr key" "length key = 32" using demo_key by blast
  have "\<forall>fid \<in> set [0..txa_frames (demo_tx_args ''synthetic'') - 1].
      sendable (demo_tx_args ''synthetic'') (synthetic_frame (txa_frame_bytes (demo_tx_args ''synthetic'')) fid)"
    by (intro ballI demo_sendable) (simp_all add: demo_args_defs synthetic_frame_def Let_def)
  from end_to_end_synthetic [OF demo_tx_ok [OF key] _ demo_env_ok _ _ this,
      of demo_dec "demo_rx_args True" "\<lparr>rxc_key_id = 1, rxc_replay_window = 1024\<rparr>" "Inl RuntimeError" "()"]
  show ?thesis
    using demo_aesgcm_spec by (simp add: demo_args_defs demo_env_def)
qed

text \<open>
  C1. From the camera to the window. Both programs are started on the same configuration files, whose key id and
  replay window are integers, with the same key and the software cipher. The sender captures from an HDMI
  input that delivers raw frames of any size; the receiver gets the datagrams in order. Then the
  sender finishes without an exception, the receiver completes, drops nothing, and its window draws
  exactly one picture per frame: the raw frame brought to the configured capture size, then to the
  size of the window, in order, in strict and in default nonce mode.
\<close>

theorem end_to_end_hdmi:
  assumes "load_config files = Inr cfg" and "config_int (cc_tx_to_rx_key_id (sc_crypto cfg)) = Some kid"
    and "config_int (cc_replay_window_packets (sc_crypto cfg)) = Some w"
    and "tx_setup_ok b args kid key" and "txa_source args = ''hdmi''"
    and "tx_env_ok env" and "aesgcm_spec (te_enc env) dec"
    and "txa_frames args = int n" and "n \<le> 2 ^ 32" and "bind (tx_endpoints args (sc_network cfg)) = Inr ()"
    and "hdmi_capture_init hb (tx_hdmi_config args) = Inr c" and "port_feeds (hx_port c) view raw" and "view hdev = 0"
    and "\<forall>k < n. sendable args (captured args raw k)"
    and "rxa_key_hex rargs = txa_key_hex args" and "rxa_max_frames rargs = txa_frames args"
    and "rxa_display_mode rargs = ''opencv''" and "screen_ok sc pixels" and "sc_destroy sc = Inr ()"
  shows "\<exists>s r disp. tx_program env b True hb bind files args hdev d = Some (Some (Inr (), Some s)) \<and>
     rx_program sc dec True files rargs (map Datagram (tx_sent s)) = Some (Inr (RxDone, r, disp)) \<and>
     rx_shown r = map (captured args raw) [0..<n] \<and> rx_dropped r = 0 \<and>
     map pixels (fd_drawn disp) = map (\<lambda>k. swap_rb (pad_pixels (1280 * 720 * 3) (captured args raw k))) [0..<n]"
proof -
  obtain src where src: "tx_source True hb args hdev = Inr src" "\<forall>k. src k = Inr (captured args raw k)"
    using tx_source_captured [OF assms(11-13)] by blast
  let ?cfg = "\<lparr>rxc_key_id = kid, rxc_replay_window = w\<rparr>"
  obtain s r where t: "run_tx env b args kid (Inr src) (Inr ()) d = Some (Inr (), s)"
      "rx_main dec True (Inr ?cfg) rargs (map Datagram (tx_sent s)) = Inr (RxDone, r)"
      "rx_shown r = map (captured args raw) [0..<n]" "rx_dropped r = 0"
    using hdmi_transfer [OF assms(4-9) src(2) assms(14-16), of ?cfg d] assms(17) by auto
  obtain disp where "rx_program sc dec True files rargs (map Datagram (tx_sent s)) = Some (Inr (RxDone, r, disp))"
      "map pixels (fd_drawn disp) = map (\<lambda>f. swap_rb (pad_pixels (1280 * 720 * 3) f)) (rx_shown r)"
    using rx_program_shows [OF assms(1-3) t(2) assms(17-19)] by blast
  moreover have "tx_program env b True hb bind files args hdev d = Some (Some (Inr (), Some s))"
    using assms(1,2,10) src(1) t(1) by (simp add: tx_program_def)
  ultimately show ?thesis using t(3,4) by auto
qed

text \<open>An input that always gives three bytes, captured as 2 by 2 grey pixels.\<close>

definition demo_feed :: "nat hdmi_port" where
  "demo_feed = \<lparr>hp_configure = None, hp_mode = None, hp_start = Some (\<lambda>d. (Inr (), d)), hp_stop = Some (\<lambda>d. (Inr (), d)),
     hp_readframe = (\<lambda>d. (Inr \<lparr>fr_bytes = (\<lambda>d. (Inr [1, 2, 3], Suc d)), fr_freebuffer = Some (\<lambda>d. (Inr (), d))\<rparr>, d))\<rparr>"

definition demo_hdmi_args :: tx_args where
  "demo_hdmi_args = (demo_tx_args ''hdmi'')\<lparr>txa_hdmi_width := 2, txa_hdmi_height := 2, txa_bitstream := ''/a.bit''\<rparr>"

definition demo_hdmi_capture :: "nat hdmi_capture" where
  "demo_hdmi_capture = \<lparr>hx_config = tx_hdmi_config demo_hdmi_args, hx_port = demo_feed, hx_started = False, hx_expected = 4\<rparr>"

lemma demo_gray: "pixel_bytes ''GRAY8'' = 1"
  by code_simp

lemma demo_hdmi_opens: "hdmi_capture_init (demo_hdmi_board demo_feed) (tx_hdmi_config demo_hdmi_args) = Inr demo_hdmi_capture"
proof -
  have "case fst (import_board_overlay demo_files demo_interp) of Inr _ \<Rightarrow> True | Inl _ \<Rightarrow> False" by code_simp
  then obtain m where "fst (import_board_overlay demo_files demo_interp) = Inr m" by (auto split: sum.splits)
  moreover have "resolve_overlay_path demo_files (Some ''/a.bit'') = Inr (Some ''/a.bit'')" by code_simp
  ultimately show ?thesis
    by (simp add: hdmi_capture_init_def demo_hdmi_board_def demo_hdmi_capture_def tx_hdmi_config_def demo_hdmi_args_def
        locate_hdmi_in_def demo_py_def demo_args_defs demo_gray)
qed

lemma demo_feeds: "port_feeds demo_feed id (\<lambda>_. [1, 2, 3])"
  by (simp add: port_feeds_def demo_feed_def)

lemma demo_captured: "captured demo_hdmi_args (\<lambda>_. [1, 2, 3]) k = [1, 2, 3, 0]"
  by (simp add: captured_def demo_hdmi_args_def demo_args_defs demo_gray fit_frame_def)

theorem end_to_end_hdmi_witness:
  "\<exists>s r disp. tx_program demo_env demo_board True (demo_hdmi_board demo_feed) (\<lambda>_. Inr ()) demo_config_files
       demo_hdmi_args 0 () = Some (Some (Inr (), Some s)) \<and>
     rx_program demo_screen demo_dec True demo_config_files ((demo_rx_args True)\<lparr>rxa_display_mode := ''opencv''\<rparr>)
       (map Datagram (tx_sent s)) = Some (Inr (RxDone, r, disp)) \<and>
     rx_shown r = [[1, 2, 3, 0], [1, 2, 3, 0]] \<and> rx_dropped r = 0"
proof -
  obtain key where key: "bytes_fromhex demo_hex = Inr key" "length key = 32" using demo_key by blast
  have ok: "tx_setup_ok demo_board demo_hdmi_args 1 key"
    using demo_tx_ok [OF key, of "''hdmi''"] by (simp add: tx_setup_ok_def tx_args_ok_def demo_hdmi_args_def)
  have send: "\<forall>k < 2. sendable demo_hdmi_args (captured demo_hdmi_args (\<lambda>_. [1, 2, 3]) k)"
    unfolding demo_captured
    by (intro allI impI sendable_small) (simp_all add: demo_hdmi_args_def demo_args_defs frame_segments_def)
  have port: "port_feeds (hx_port demo_hdmi_capture) id (\<lambda>_. [1, 2, 3])" by (simp add: demo_hdmi_capture_def demo_feeds)
  have "\<exists>s r disp. tx_program demo_env demo_board True (demo_hdmi_board demo_feed) (\<lambda>_. Inr ()) demo_config_files
       demo_hdmi_args 0 () = Some (Some (Inr (), Some s)) \<and>
     rx_program demo_screen demo_dec True demo_config_files ((demo_rx_args True)\<lparr>rxa_display_mode := ''opencv''\<rparr>)
       (map Datagram (tx_sent s)) = Some (Inr (RxDone, r, disp)) \<and>
     rx_shown r = map (captured demo_hdmi_args (\<lambda>_. [1, 2, 3])) [0..<2] \<and> rx_dropped r = 0 \<and>
     map id (fd_drawn disp) = map (\<lambda>k. swap_rb (pad_pixels (1280 * 720 * 3) (captured demo_hdmi_args (\<lambda>_. [1, 2, 3]) k))) [0..<2]"
    by (rule end_to_end_hdmi [OF demo_config_loads _ _ ok _ demo_env_ok _ _ _ _ demo_hdmi_opens port _ send])
      (use demo_aesgcm_spec demo_screen_ok in \<open>simp_all add: demo_hdmi_args_def demo_args_defs demo_env_def demo_screen_def
        crypto_config_of_def field_or_def demo_session_def\<close>)
  then show ?thesis by (auto simp: demo_captured upt_rec)
qed

end
